(* ===== verification/Kernel_Prelude.thy ===== *)
theory Kernel_Prelude
  imports Main "HOL-Library.Word" "HOL-Library.Monad_Syntax"
begin

text \<open>
  Shared vocabulary of the development.

  \<^item> The machine types of \<^verbatim>\<open>kernel/include/rabbitbone/types.h\<close>. Values that are
    combined bitwise are words of their width; sizes, indices and addresses that are
    only counted are natural numbers, with the 64-bit wrap-around and the
    \<^verbatim>\<open>__builtin_*_overflow\<close> checks of the code written out.
  \<^item> Checked array accesses. A result of type \<open>'a option\<close> whose \<open>None\<close> is described
    as a \<^emph>\<open>fault\<close> is an access outside an object, a null dereference or a panic of
    the source; theorems that a call returns \<open>Some\<close> are memory-safety theorems.
  \<^item> Generic lemmas on lists, options and words, collected in the named theorems below.
\<close>

unbundle bit_operations_syntax

named_theorems arr "checked array accesses"
named_theorems ovf "overflow-checked arithmetic"

type_synonym u8 = "8 word"
type_synonym u16 = "16 word"
type_synonym u32 = "32 word"
type_synonym u64 = "64 word"
type_synonym usize = nat
type_synonym bytes = "u8 list"

section \<open>Checked arrays\<close>

definition arr_get :: "'a list \<Rightarrow> nat \<Rightarrow> 'a option" where
  "arr_get xs i = (if i < length xs then Some (xs ! i) else None)"

definition arr_set :: "'a list \<Rightarrow> nat \<Rightarrow> 'a \<Rightarrow> 'a list option" where
  "arr_set xs i v = (if i < length xs then Some (xs[i := v]) else None)"

lemma arr_get_Some [simp]: "i < length xs \<Longrightarrow> arr_get xs i = Some (xs ! i)"
  by (simp add: arr_get_def)

lemma arr_get_None [simp]: "length xs \<le> i \<Longrightarrow> arr_get xs i = None"
  by (simp add: arr_get_def)

lemma arr_set_Some [simp]: "i < length xs \<Longrightarrow> arr_set xs i v = Some (xs[i := v])"
  by (simp add: arr_set_def)

lemma arr_set_None [simp]: "length xs \<le> i \<Longrightarrow> arr_set xs i v = None"
  by (simp add: arr_set_def)

lemma arr_get_eq_Some [arr]: "arr_get xs i = Some x \<longleftrightarrow> i < length xs \<and> x = xs ! i"
  by (auto simp: arr_get_def)

lemma arr_set_eq_Some [arr]: "arr_set xs i v = Some ys \<longleftrightarrow> i < length xs \<and> ys = xs[i := v]"
  by (auto simp: arr_set_def)

lemma arr_get_append_left [arr]: "i < length xs \<Longrightarrow> arr_get (xs @ ys) i = Some (xs ! i)"
  by (simp add: arr_get_def nth_append)

lemma arr_get_append_mid [simp]: "arr_get (xs @ y # ys) (length xs) = Some y"
  by (simp add: arr_get_def)

lemma bind_eq_Some [arr]: "Option.bind m f = Some y \<longleftrightarrow> (\<exists>x. m = Some x \<and> f x = Some y)"
  by (cases m) auto

lemma take_upt_min: "take n [0..<m] = [0..<min n m]"
  by (simp add: min_def)

lemma take_min_length: "take (min n (length xs)) xs = take n xs"
  by (simp add: min_def)

lemma drop_min_length: "drop (min n (length xs)) xs = drop n xs"
  by (simp add: min_def)

section \<open>64-bit arithmetic on natural numbers\<close>

abbreviation U64_MAX :: nat where
  "U64_MAX \<equiv> 18446744073709551615"

definition add64 :: "nat \<Rightarrow> nat \<Rightarrow> nat" where
  "add64 a b = (a + b) mod (U64_MAX + 1)"

definition sub64 :: "nat \<Rightarrow> nat \<Rightarrow> nat" where
  "sub64 a b = (a + (U64_MAX + 1 - b mod (U64_MAX + 1))) mod (U64_MAX + 1)"

definition mul64 :: "nat \<Rightarrow> nat \<Rightarrow> nat" where
  "mul64 a b = (a * b) mod (U64_MAX + 1)"

text \<open>\<^verbatim>\<open>__builtin_add_overflow\<close> and \<^verbatim>\<open>__builtin_mul_overflow\<close> at 64 bits: \<open>None\<close> is overflow.\<close>

definition add_overflow :: "nat \<Rightarrow> nat \<Rightarrow> nat option" where
  "add_overflow a b = (if a + b \<le> U64_MAX then Some (a + b) else None)"

definition mul_overflow :: "nat \<Rightarrow> nat \<Rightarrow> nat option" where
  "mul_overflow a b = (if a * b \<le> U64_MAX then Some (a * b) else None)"

lemma add64_small [simp]: "a + b \<le> U64_MAX \<Longrightarrow> add64 a b = a + b"
  by (simp add: add64_def)

lemma add64_Suc_mod [simp]: "0 < c \<Longrightarrow> c \<le> U64_MAX \<Longrightarrow> add64 (x mod c) (Suc 0) = Suc (x mod c)"
  by (rule trans [OF add64_small]) (use mod_less_divisor [of c x] in linarith, simp)

lemma sub64_small [simp]: "b \<le> a \<Longrightarrow> a \<le> U64_MAX \<Longrightarrow> sub64 a b = a - b"
  by (simp add: sub64_def mod_if)

lemma mul64_small [simp]: "a * b \<le> U64_MAX \<Longrightarrow> mul64 a b = a * b"
  by (simp add: mul64_def)

lemma add_overflow_eq_Some [ovf]: "add_overflow a b = Some c \<longleftrightarrow> c = a + b \<and> a + b \<le> U64_MAX"
  by (auto simp: add_overflow_def)

lemma add_overflow_eq_None [ovf]: "add_overflow a b = None \<longleftrightarrow> U64_MAX < a + b"
  by (auto simp: add_overflow_def)

lemma mul_overflow_eq_Some [ovf]: "mul_overflow a b = Some c \<longleftrightarrow> c = a * b \<and> a * b \<le> U64_MAX"
  by (auto simp: mul_overflow_def)

lemma mul_overflow_eq_None [ovf]: "mul_overflow a b = None \<longleftrightarrow> U64_MAX < a * b"
  by (auto simp: mul_overflow_def)

end
