(* ===== verification/Fifo_Spec.thy ===== *)
theory Fifo_Spec
  imports Kernel_Prelude
begin

text \<open>
  The interface of a bounded first-in first-out byte buffer, as the ring buffer of
  \<^verbatim>\<open>kernel/lib/ringbuf.c\<close> and the pipe buffer of \<^verbatim>\<open>kernel/sys/syscall/pipes.inc\<close>
  provide it, and the copy loops that only use that interface. The loops read their
  source and write their destination with checked accesses, so a returned \<open>Some\<close> also
  says that the caller's buffer was never left.
\<close>

section \<open>Copy loops over a buffer\<close>

text \<open>\<^verbatim>\<open>while (n < size && push(q, p[n])) ++n;\<close>\<close>

function push_loop ::
  "('q \<Rightarrow> 'a \<Rightarrow> (bool \<times> 'q) option) \<Rightarrow> 'a list \<Rightarrow> nat \<Rightarrow> nat \<Rightarrow> 'q \<Rightarrow> (nat \<times> 'q) option" where
  "push_loop push p sz n q =
     (if n < sz then do {
        b \<leftarrow> arr_get p n;
        (ok, q') \<leftarrow> push q b;
        if ok then push_loop push p sz (Suc n) q' else Some (n, q')
      } else Some (n, q))"
  by pat_completeness auto
termination
  by (relation "measure (\<lambda>(push, p, sz, n, q). sz - n)") auto

text \<open>\<^verbatim>\<open>while (n < size && pop(q, &p[n])) ++n;\<close>\<close>

function pop_loop ::
  "('q \<Rightarrow> ('a option \<times> 'q) option) \<Rightarrow> nat \<Rightarrow> nat \<Rightarrow> 'a list \<Rightarrow> 'q \<Rightarrow> (nat \<times> 'a list \<times> 'q) option" where
  "pop_loop pop sz n p q =
     (if n < sz then do {
        (r, q') \<leftarrow> pop q;
        (case r of
           None \<Rightarrow> Some (n, p, q')
         | Some b \<Rightarrow> do { p' \<leftarrow> arr_set p n b; pop_loop pop sz (Suc n) p' q' })
      } else Some (n, p, q))"
  by pat_completeness auto
termination
  by (relation "measure (\<lambda>(pop, sz, n, p, q). sz - n)") auto

declare push_loop.simps [simp del] pop_loop.simps [simp del]

lemma push_loop_stop [simp]: "sz \<le> n \<Longrightarrow> push_loop push p sz n q = Some (n, q)"
  by (simp add: push_loop.simps)

lemma pop_loop_stop [simp]: "sz \<le> n \<Longrightarrow> pop_loop pop sz n p q = Some (n, p, q)"
  by (simp add: pop_loop.simps)

section \<open>The contract\<close>

locale bounded_fifo =
  fixes invar :: "'q \<Rightarrow> bool"
    and content :: "'q \<Rightarrow> 'a list"
    and cap :: "'q \<Rightarrow> nat"
    and push :: "'q \<Rightarrow> 'a \<Rightarrow> (bool \<times> 'q) option"
    and pop :: "'q \<Rightarrow> ('a option \<times> 'q) option"
  assumes content_bound: "invar q \<Longrightarrow> length (content q) \<le> cap q"
    and push_room: "invar q \<Longrightarrow> length (content q) < cap q \<Longrightarrow>
      \<exists>q'. push q x = Some (True, q') \<and> invar q' \<and> content q' = content q @ [x] \<and> cap q' = cap q"
    and push_full: "invar q \<Longrightarrow> length (content q) = cap q \<Longrightarrow> push q x = Some (False, q)"
    and pop_some: "invar q \<Longrightarrow> content q \<noteq> [] \<Longrightarrow>
      \<exists>q'. pop q = Some (Some (hd (content q)), q') \<and> invar q' \<and> content q' = tl (content q) \<and> cap q' = cap q"
    and pop_empty: "invar q \<Longrightarrow> content q = [] \<Longrightarrow> pop q = Some (None, q)"
begin

text \<open>
  The write loop accepts exactly as many bytes as there is room for, appends them in
  order and never leaves the source buffer.
\<close>

lemma push_loop_spec:
  assumes "invar q" and "n \<le> sz" and "sz \<le> length p"
  defines "k \<equiv> min (sz - n) (cap q - length (content q))"
  shows "\<exists>q'. push_loop push p sz n q = Some (n + k, q') \<and> invar q' \<and> cap q' = cap q \<and>
              content q' = content q @ take k (drop n p)"
  using assms(1,2) unfolding k_def
proof (induction "sz - n" arbitrary: n q)
  case 0
  then show ?case by simp
next
  case (Suc d)
  then have n: "n < sz" "n < length p" using assms(3) by linarith+
  show ?case
  proof (cases "length (content q) < cap q")
    case True
    obtain q1 where q1: "push q (p ! n) = Some (True, q1)" "invar q1"
        "content q1 = content q @ [p ! n]" "cap q1 = cap q"
      using push_room [OF Suc.prems(1) True, of "p ! n"] by blast
    have "d = sz - Suc n" and "Suc n \<le> sz" using Suc.hyps(2) n by linarith+
    from Suc.hyps(1) [OF this(1) q1(2) this(2)] obtain q2 where
      q2: "push_loop push p sz (Suc n) q1 = Some (Suc n + min (sz - Suc n) (cap q - Suc (length (content q))), q2)"
        "invar q2" "cap q2 = cap q"
        "content q2 = content q @ p ! n # take (min (sz - Suc n) (cap q - Suc (length (content q)))) (drop (Suc n) p)"
      using q1 by auto
    have "min (sz - n) (cap q - length (content q)) = Suc (min (sz - Suc n) (cap q - Suc (length (content q))))"
      using n True by (simp add: min_def) linarith
    then show ?thesis
      using n q1 q2 by (auto simp: push_loop.simps [of push p sz n] Cons_nth_drop_Suc [symmetric])
  next
    case False
    then have "length (content q) = cap q" using content_bound [OF Suc.prems(1)] by simp
    then show ?thesis
      using n Suc.prems push_full by (auto simp: push_loop.simps [of push p sz n])
  qed
qed

text \<open>
  The read loop hands out exactly the oldest bytes, in order, and stores them in the
  destination from the start index on.
\<close>

lemma pop_loop_spec:
  assumes "invar q" and "n \<le> sz" and "sz \<le> length p"
  defines "k \<equiv> min (sz - n) (length (content q))"
  shows "\<exists>q'. pop_loop pop sz n p q = Some (n + k, take n p @ take k (content q) @ drop (n + k) p, q') \<and>
              invar q' \<and> cap q' = cap q \<and> content q' = drop k (content q)"
  using assms(1-3) unfolding k_def
proof (induction "sz - n" arbitrary: n q p)
  case 0
  then show ?case by simp
next
  case (Suc d)
  then have n: "n < sz" "n < length p" by linarith+
  show ?case
  proof (cases "content q")
    case Nil
    then show ?thesis using n Suc.prems pop_empty by (auto simp: pop_loop.simps [of pop sz n])
  next
    case (Cons x xs)
    obtain q1 where q1: "pop q = Some (Some x, q1)" "invar q1" "content q1 = xs" "cap q1 = cap q"
      using pop_some [OF Suc.prems(1)] Cons by auto
    have d: "d = sz - Suc n" "Suc n \<le> sz" "sz \<le> length (p[n := x])"
      using Suc.hyps(2) Suc.prems n by simp_all
    obtain q2 where
      q2: "pop_loop pop sz (Suc n) (p[n := x]) q1 =
             Some (Suc n + min (sz - Suc n) (length xs),
               take (Suc n) (p[n := x]) @ take (min (sz - Suc n) (length xs)) xs @
               drop (Suc n + min (sz - Suc n) (length xs)) (p[n := x]), q2)"
        "invar q2" "cap q2 = cap q" "content q2 = drop (min (sz - Suc n) (length xs)) xs"
      using Suc.hyps(1) [OF d(1) q1(2) d(2,3)] q1 by auto
    have k: "min (sz - n) (length (content q)) = Suc (min (sz - Suc n) (length xs))"
      using n Cons by (simp add: min_def) linarith
    show ?thesis
      unfolding k using n q1 q2 Cons
      by (auto simp: pop_loop.simps [of pop sz n] take_Suc_conv_app_nth)
  qed
qed

end

end
