(* ===== verification/Ringbuf.thy ===== *)
theory Ringbuf
  imports Fifo_Spec
begin

text \<open>
  The single-owner byte ring buffer of \<^verbatim>\<open>kernel/lib/ringbuf.c\<close>. A null pointer is
  \<open>None\<close>; the backing storage is a byte list that is read and written with checked
  accesses, so a fault (\<open>None\<close> result) is an access outside the storage. The buffer is
  shown to implement the bounded FIFO contract of \<open>Fifo_Spec\<close>.
\<close>

record ringbuf_t =
  data :: "bytes option"
  capacity :: usize
  head :: usize
  tail :: usize
  count :: usize

section \<open>Operations\<close>

definition ringbuf_valid :: "ringbuf_t option \<Rightarrow> bool" where
  "ringbuf_valid p = (case p of None \<Rightarrow> False | Some rb \<Rightarrow>
     data rb \<noteq> None \<and> capacity rb \<noteq> 0 \<and> count rb \<le> capacity rb \<and>
     head rb < capacity rb \<and> tail rb < capacity rb)"

definition ringbuf_init :: "ringbuf_t option \<Rightarrow> bytes option \<Rightarrow> usize \<Rightarrow> ringbuf_t option" where
  "ringbuf_init p storage cap = (case p of None \<Rightarrow> None | Some rb \<Rightarrow>
     Some (rb\<lparr>data := storage, capacity := (if storage \<noteq> None then cap else 0),
              head := 0, tail := 0, count := 0\<rparr>))"

definition ringbuf_push :: "ringbuf_t option \<Rightarrow> u8 \<Rightarrow> (bool \<times> ringbuf_t option) option" where
  "ringbuf_push p val =
     (if \<not> ringbuf_valid p then Some (False, p)
      else do {
        rb \<leftarrow> p;
        if count rb \<ge> capacity rb then Some (False, p)
        else do {
          d \<leftarrow> data rb;
          d' \<leftarrow> arr_set d (tail rb) val;
          Some (True, Some (rb\<lparr>data := Some d', tail := add64 (tail rb) 1 mod capacity rb,
                               count := add64 (count rb) 1\<rparr>))
        }
      })"

text \<open>
  \<open>ringbuf_pop\<close> returns the byte that \<^verbatim>\<open>*out\<close> receives; the flag result of the source is
  whether there is one.
\<close>

definition ringbuf_pop :: "ringbuf_t option \<Rightarrow> (u8 option \<times> ringbuf_t option) option" where
  "ringbuf_pop p =
     (if \<not> ringbuf_valid p then Some (None, p)
      else do {
        rb \<leftarrow> p;
        if count rb = 0 then Some (None, p)
        else do {
          d \<leftarrow> data rb;
          b \<leftarrow> arr_get d (head rb);
          Some (Some b, Some (rb\<lparr>head := add64 (head rb) 1 mod capacity rb,
                                 count := sub64 (count rb) 1\<rparr>))
        }
      })"

definition ringbuf_write :: "ringbuf_t option \<Rightarrow> bytes option \<Rightarrow> usize \<Rightarrow> (usize \<times> ringbuf_t option) option" where
  "ringbuf_write p src sz =
     (case (p, src) of
        (Some _, Some s) \<Rightarrow> push_loop ringbuf_push s sz 0 p
      | _ \<Rightarrow> Some (0, p))"

definition ringbuf_read :: "ringbuf_t option \<Rightarrow> bytes option \<Rightarrow> usize \<Rightarrow> (usize \<times> bytes option \<times> ringbuf_t option) option" where
  "ringbuf_read p dst sz =
     (case (p, dst) of
        (Some _, Some d) \<Rightarrow> do { (n, d', p') \<leftarrow> pop_loop ringbuf_pop sz 0 d p; Some (n, Some d', p') }
      | _ \<Rightarrow> Some (0, dst, p))"

fun peek_loop :: "bytes \<Rightarrow> usize \<Rightarrow> nat \<Rightarrow> usize \<Rightarrow> nat \<Rightarrow> bytes \<Rightarrow> bytes option" where
  "peek_loop d cap i pos 0 out = Some out"
| "peek_loop d cap i pos (Suc n) out = do {
     b \<leftarrow> arr_get d pos;
     out' \<leftarrow> arr_set out i b;
     peek_loop d cap (Suc i) (add64 pos 1 mod cap) n out' }"

definition ringbuf_peek :: "ringbuf_t option \<Rightarrow> bytes option \<Rightarrow> usize \<Rightarrow> (usize \<times> bytes option) option" where
  "ringbuf_peek p dst sz =
     (if \<not> ringbuf_valid p \<or> dst = None then Some (0, dst)
      else do {
        rb \<leftarrow> p; out \<leftarrow> dst; d \<leftarrow> data rb;
        let n = (if sz < count rb then sz else count rb);
        out' \<leftarrow> peek_loop d (capacity rb) 0 (head rb) n out;
        Some (n, Some out') })"

definition ringbuf_clear :: "ringbuf_t option \<Rightarrow> ringbuf_t option" where
  "ringbuf_clear p = map_option (\<lambda>rb. rb\<lparr>head := 0, tail := 0, count := 0\<rparr>) p"

definition ringbuf_size :: "ringbuf_t option \<Rightarrow> usize" where
  "ringbuf_size p = (if ringbuf_valid p then count (the p) else 0)"

definition ringbuf_capacity :: "ringbuf_t option \<Rightarrow> usize" where
  "ringbuf_capacity p = (if ringbuf_valid p then capacity (the p) else 0)"

definition ringbuf_space :: "ringbuf_t option \<Rightarrow> usize" where
  "ringbuf_space p = (if ringbuf_valid p then sub64 (capacity (the p)) (count (the p)) else 0)"

definition ringbuf_empty :: "ringbuf_t option \<Rightarrow> bool" where
  "ringbuf_empty p = (\<not> ringbuf_valid p \<or> count (the p) = 0)"

definition ringbuf_full :: "ringbuf_t option \<Rightarrow> bool" where
  "ringbuf_full p = (ringbuf_valid p \<and> count (the p) = capacity (the p))"

section \<open>Invariant and abstraction\<close>

definition ring_slice :: "'a list \<Rightarrow> nat \<Rightarrow> nat \<Rightarrow> nat \<Rightarrow> 'a list" where
  "ring_slice d cap h n = map (\<lambda>i. d ! ((h + i) mod cap)) [0..<n]"

definition ringbuf_inv :: "ringbuf_t option \<Rightarrow> bool" where
  "ringbuf_inv p = (case p of None \<Rightarrow> False | Some rb \<Rightarrow> (case data rb of None \<Rightarrow> False | Some d \<Rightarrow>
     0 < capacity rb \<and> capacity rb \<le> U64_MAX \<and> length d = capacity rb \<and> count rb \<le> capacity rb \<and>
     head rb < capacity rb \<and> tail rb = (head rb + count rb) mod capacity rb))"

definition ringbuf_content :: "ringbuf_t option \<Rightarrow> bytes" where
  "ringbuf_content p = (case p of None \<Rightarrow> [] | Some rb \<Rightarrow>
     ring_slice (the (data rb)) (capacity rb) (head rb) (count rb))"

definition ringbuf_cap :: "ringbuf_t option \<Rightarrow> nat" where
  "ringbuf_cap p = (case p of None \<Rightarrow> 0 | Some rb \<Rightarrow> capacity rb)"

lemma ring_slice_length [simp]: "length (ring_slice d cap h n) = n"
  by (simp add: ring_slice_def)

lemma ring_slice_push:
  assumes "n < cap" "h < cap" "length d = cap"
  shows "ring_slice (d[(h + n) mod cap := x]) cap h (Suc n) = ring_slice d cap h n @ [x]"
proof -
  have ne: "(h + i) mod cap \<noteq> (h + n) mod cap" if "i < n" for i
  proof
    assume "(h + i) mod cap = (h + n) mod cap"
    then have "cap dvd (h + n) - (h + i)" using that by (metis mod_eq_dvd_iff_nat add_left_mono less_imp_le)
    then show False using that assms(1) by (auto dest: dvd_imp_le)
  qed
  have "d[(h + n) mod cap := x] ! ((h + i) mod cap) = d ! ((h + i) mod cap)" if "i < n" for i
    using ne [OF that] by simp
  then show ?thesis
    using assms by (simp add: ring_slice_def)
qed

lemma ring_slice_pop:
  "0 < n \<Longrightarrow> h < cap \<Longrightarrow>
   ring_slice d cap h n = d ! h # ring_slice d cap (Suc h mod cap) (n - 1)"
  by (cases n) (simp_all add: ring_slice_def upt_conv_Cons map_Suc_upt [symmetric] mod_add_left_eq
      del: upt_Suc map_Suc_upt)

lemma ringbuf_inv_valid [simp]: "ringbuf_inv p \<Longrightarrow> ringbuf_valid p"
  by (auto simp: ringbuf_inv_def ringbuf_valid_def split: option.splits)

lemma ringbuf_inv_init:
  "length d = c \<Longrightarrow> 0 < c \<Longrightarrow> c \<le> U64_MAX \<Longrightarrow>
   ringbuf_inv (ringbuf_init (Some rb) (Some d) c) \<and> ringbuf_content (ringbuf_init (Some rb) (Some d) c) = []"
  by (simp add: ringbuf_inv_def ringbuf_init_def ringbuf_content_def ring_slice_def)

lemma ringbuf_push_room:
  assumes "ringbuf_inv p" "length (ringbuf_content p) < ringbuf_cap p"
  shows "\<exists>p'. ringbuf_push p x = Some (True, p') \<and> ringbuf_inv p' \<and>
              ringbuf_content p' = ringbuf_content p @ [x] \<and> ringbuf_cap p' = ringbuf_cap p"
proof -
  obtain rb d where p: "p = Some rb" "data rb = Some d" and c: "0 < capacity rb" "capacity rb \<le> U64_MAX"
      "length d = capacity rb" "head rb < capacity rb" "tail rb = (head rb + count rb) mod capacity rb"
      "count rb < capacity rb"
    using assms by (auto simp: ringbuf_inv_def ringbuf_content_def ringbuf_cap_def split: option.splits)
  have t: "tail rb < capacity rb" using c by simp
  then have "add64 (tail rb) 1 = Suc (tail rb)" using c(2) by simp
  then show ?thesis
    using assms(1) p c t ring_slice_push [of "count rb" "capacity rb" "head rb" d x]
    by (auto simp: ringbuf_push_def ringbuf_inv_def ringbuf_content_def ringbuf_cap_def mod_Suc_eq)
qed

lemma ringbuf_pop_some:
  assumes "ringbuf_inv p" "ringbuf_content p \<noteq> []"
  shows "\<exists>p'. ringbuf_pop p = Some (Some (hd (ringbuf_content p)), p') \<and> ringbuf_inv p' \<and>
              ringbuf_content p' = tl (ringbuf_content p) \<and> ringbuf_cap p' = ringbuf_cap p"
proof -
  obtain rb d where p: "p = Some rb" "data rb = Some d" and c: "0 < capacity rb" "capacity rb \<le> U64_MAX"
      "length d = capacity rb" "head rb < capacity rb" "tail rb = (head rb + count rb) mod capacity rb"
      "0 < count rb" "count rb \<le> capacity rb"
    using assms by (auto simp: ringbuf_inv_def ringbuf_content_def ring_slice_def split: option.splits)
  have t: "(Suc (head rb) mod capacity rb + (count rb - 1)) mod capacity rb = (head rb + count rb) mod capacity rb"
    using mod_add_left_eq [of "Suc (head rb)" "capacity rb" "count rb - 1"] c(6) by simp
  show ?thesis
    using assms(1) p c t ring_slice_pop [of "count rb" "head rb" "capacity rb" d]
    by (auto simp: ringbuf_pop_def ringbuf_inv_def ringbuf_content_def ringbuf_cap_def)
qed

interpretation rb: bounded_fifo ringbuf_inv ringbuf_content ringbuf_cap ringbuf_push ringbuf_pop
proof unfold_locales
  show "length (ringbuf_content p) \<le> ringbuf_cap p" if "ringbuf_inv p" for p
    using that by (auto simp: ringbuf_inv_def ringbuf_content_def ringbuf_cap_def split: option.splits)
  show "ringbuf_push p x = Some (False, p)" if "ringbuf_inv p" "length (ringbuf_content p) = ringbuf_cap p" for p x
    using that by (auto simp: ringbuf_push_def ringbuf_inv_def ringbuf_content_def ringbuf_cap_def split: option.splits)
  show "ringbuf_pop p = Some (None, p)" if "ringbuf_inv p" "ringbuf_content p = []" for p
    using that by (auto simp: ringbuf_pop_def ringbuf_inv_def ringbuf_content_def ring_slice_def split: option.splits)
qed (fact ringbuf_push_room ringbuf_pop_some)+

lemma ringbuf_inv_Some: "ringbuf_inv p \<Longrightarrow> \<exists>rb. p = Some rb"
  by (auto simp: ringbuf_inv_def split: option.splits)

lemma ringbuf_write_spec:
  assumes "ringbuf_inv p" "sz \<le> length src"
  shows "\<exists>p'. ringbuf_write p (Some src) sz = Some (min sz (ringbuf_cap p - length (ringbuf_content p)), p') \<and>
              ringbuf_inv p' \<and> ringbuf_cap p' = ringbuf_cap p \<and>
              ringbuf_content p' = ringbuf_content p @ take (min sz (ringbuf_cap p - length (ringbuf_content p))) src"
proof -
  obtain r where "p = Some r" using ringbuf_inv_Some [OF assms(1)] by blast
  then have "ringbuf_write p (Some src) sz = push_loop ringbuf_push src sz 0 p"
    by (simp add: ringbuf_write_def)
  then show ?thesis using rb.push_loop_spec [OF assms(1) le0 assms(2)] by simp
qed

lemma ringbuf_read_spec:
  assumes "ringbuf_inv p" "sz \<le> length dst"
  shows "\<exists>p'. ringbuf_read p (Some dst) sz =
                Some (min sz (length (ringbuf_content p)),
                  Some (take sz (ringbuf_content p) @ drop (min sz (length (ringbuf_content p))) dst), p') \<and>
              ringbuf_inv p' \<and> ringbuf_cap p' = ringbuf_cap p \<and> ringbuf_content p' = drop sz (ringbuf_content p)"
proof -
  obtain r where "p = Some r" using ringbuf_inv_Some [OF assms(1)] by blast
  moreover obtain p' where "pop_loop ringbuf_pop sz 0 dst p =
      Some (min sz (length (ringbuf_content p)),
        take (min sz (length (ringbuf_content p))) (ringbuf_content p) @ drop (min sz (length (ringbuf_content p))) dst, p')"
      "ringbuf_inv p'" "ringbuf_cap p' = ringbuf_cap p"
      "ringbuf_content p' = drop (min sz (length (ringbuf_content p))) (ringbuf_content p)"
    using rb.pop_loop_spec [OF assms(1) le0 assms(2)] by auto
  ultimately show ?thesis by (simp add: ringbuf_read_def take_min_length drop_min_length)
qed

lemma peek_loop_spec:
  assumes "length d = cap" "0 < cap" "cap \<le> U64_MAX" "pos < cap" "i + n \<le> length out"
  shows "peek_loop d cap i pos n out = Some (take i out @ ring_slice d cap pos n @ drop (i + n) out)"
  using assms(4,5)
proof (induction n arbitrary: i pos out)
  case 0
  then show ?case by (simp add: ring_slice_def)
next
  case (Suc n)
  then show ?case
    using assms(1-3) by (simp add: ring_slice_pop take_Suc_conv_app_nth)
qed

section \<open>Properties\<close>

text \<open>
  C8: the ring buffer is a bounded FIFO queue that never leaves its storage. On a buffer
  satisfying the invariant, a write of \<open>n\<close> bytes accepts exactly the first
  \<open>min n space\<close> of them and appends them in order, and a read of up to \<open>m\<close> bytes then
  delivers the oldest bytes in order, keeps the rest and leaves the other bytes of the
  destination alone; neither call faults and both keep the invariant.
\<close>

theorem ringbuf_write_read:
  assumes "ringbuf_inv p" and "n \<le> length src" and "m \<le> length dst"
  defines "k \<equiv> min n (ringbuf_cap p - length (ringbuf_content p))"
  defines "q \<equiv> ringbuf_content p @ take k src"
  shows "\<exists>p' p''. ringbuf_write p (Some src) n = Some (k, p') \<and> ringbuf_inv p' \<and> ringbuf_content p' = q \<and>
           ringbuf_read p' (Some dst) m = Some (min m (length q), Some (take m q @ drop (min m (length q)) dst), p'') \<and>
           ringbuf_inv p'' \<and> ringbuf_content p'' = drop m q \<and> ringbuf_cap p'' = ringbuf_cap p"
proof -
  obtain p' where p': "ringbuf_write p (Some src) n = Some (k, p')" "ringbuf_inv p'" "ringbuf_cap p' = ringbuf_cap p"
      "ringbuf_content p' = q"
    using ringbuf_write_spec [OF assms(1,2)] unfolding k_def q_def by blast
  then show ?thesis
    using ringbuf_read_spec [OF p'(2) assms(3)] by auto
qed

theorem ringbuf_write_read_witness:
  "\<exists>p' p''. ringbuf_write (Some \<lparr>data = Some [0, 0, 0], capacity = 3, head = 2, tail = 2, count = 0\<rparr>) (Some [7, 8, 9, 10]) 4
              = Some (3, p') \<and> ringbuf_content p' = [7, 8, 9] \<and>
            ringbuf_read p' (Some [1, 1]) 2 = Some (2, Some [7, 8], p'') \<and> ringbuf_content p'' = [9]"
proof -
  let ?p = "Some \<lparr>data = Some [0, 0, 0], capacity = 3, head = 2, tail = 2, count = 0\<rparr>"
  have "ringbuf_inv ?p" "ringbuf_content ?p = []" "ringbuf_cap ?p = 3"
    by (simp_all add: ringbuf_inv_def ringbuf_content_def ringbuf_cap_def ring_slice_def)
  then show ?thesis
    using ringbuf_write_read [of ?p 4 "[7, 8, 9, 10]" 2 "[1, 1]"] by auto
qed

text \<open>
  peeking copies the oldest bytes to the destination without a fault, and it agrees
  with what a read of the same size would deliver, without consuming anything.
\<close>

theorem ringbuf_peek_read:
  assumes "ringbuf_inv p" and "n \<le> length dst"
  shows "ringbuf_peek p (Some dst) n = map_option (\<lambda>(k, d, _). (k, d)) (ringbuf_read p (Some dst) n) \<and>
         (\<exists>k d. ringbuf_peek p (Some dst) n = Some (k, Some d) \<and> k = min n (length (ringbuf_content p)) \<and>
                take k d = take n (ringbuf_content p))"
proof -
  obtain rb d where p: "p = Some rb" "data rb = Some d" and c: "length d = capacity rb" "0 < capacity rb"
      "capacity rb \<le> U64_MAX" "head rb < capacity rb" "count rb \<le> capacity rb"
    using assms(1) by (auto simp: ringbuf_inv_def split: option.splits)
  let ?k = "min n (count rb)"
  have k: "(if n < count rb then n else count rb) = ?k" by (simp add: min_def)
  have sl: "ring_slice d (capacity rb) (head rb) ?k = take n (ringbuf_content p)"
    using p by (simp add: ringbuf_content_def ring_slice_def take_map take_upt_min)
  have "?k \<le> length dst" using assms(2) by simp
  then have "peek_loop d (capacity rb) 0 (head rb) ?k dst = Some (take n (ringbuf_content p) @ drop ?k dst)"
    using peek_loop_spec [OF c(1-4), of 0 ?k dst] sl by simp
  then have "ringbuf_peek p (Some dst) n = Some (?k, Some (take n (ringbuf_content p) @ drop ?k dst))"
    using p ringbuf_inv_valid [OF assms(1)] by (simp add: ringbuf_peek_def k Let_def)
  moreover have "count rb = length (ringbuf_content p)" using p by (simp add: ringbuf_content_def)
  ultimately show ?thesis
    using ringbuf_read_spec [OF assms] by (auto simp: take_min_length)
qed

theorem ringbuf_peek_read_witness:
  "ringbuf_peek (Some \<lparr>data = Some [5, 6, 4], capacity = 3, head = 2, tail = 1, count = 2\<rparr>) (Some [1, 1, 1]) 2
     = Some (2, Some [4, 5, 1])"
proof -
  let ?p = "Some \<lparr>data = Some [5, 6, 4], capacity = 3, head = 2, tail = 1, count = 2\<rparr>"
  have "ringbuf_inv ?p" by (simp add: ringbuf_inv_def)
  then have "ringbuf_peek ?p (Some [1, 1, 1]) 2 = map_option (\<lambda>(k, d, _). (k, d)) (ringbuf_read ?p (Some [1, 1, 1]) 2)"
    using ringbuf_peek_read [of ?p 2 "[1, 1, 1]"] by simp
  also have "\<dots> = Some (2, Some [4, 5, 1])"
    by (simp add: ringbuf_read_def pop_loop.simps ringbuf_pop_def ringbuf_valid_def)
  finally show ?thesis .
qed

end
