(* ===== verification/Bitmap.thy ===== *)
theory Bitmap
  imports Kernel_Prelude
begin

text \<open>
  The bitmap of \<^verbatim>\<open>kernel/lib/bitmap.c\<close>: an array of 64-bit words and a bit count. A null
  bitmap pointer is \<open>None\<close>, a null word array is \<open>words = None\<close>; words are accessed with
  checked accesses, so a \<open>None\<close> result is an access outside the word array. The word-level
  operations are shown to implement a set of bit numbers below the bit count.
\<close>

record bitmap_t =
  bwords :: "u64 list option"
  bit_count :: usize

section \<open>Operations\<close>

definition word_count_checked :: "usize \<Rightarrow> usize option" where
  "word_count_checked bits =
     (if bits > U64_MAX - 63 then None
      else let n = (bits + 63) div 64 in if n > U64_MAX div 8 then None else Some n)"

fun zero_words :: "nat \<Rightarrow> nat \<Rightarrow> u64 list \<Rightarrow> u64 list option" where
  "zero_words i 0 ws = Some ws"
| "zero_words i (Suc n) ws = do { ws' \<leftarrow> arr_set ws i 0; zero_words (Suc i) n ws' }"

definition bitmap_init :: "bitmap_t option \<Rightarrow> u64 list option \<Rightarrow> usize \<Rightarrow> bitmap_t option option" where
  "bitmap_init bm storage bits = (case bm of None \<Rightarrow> Some None | Some b \<Rightarrow>
     (case storage of
        None \<Rightarrow> Some (Some \<lparr>bwords = None, bit_count = 0\<rparr>)
      | Some ws \<Rightarrow>
          if bits = 0 then Some (Some \<lparr>bwords = Some ws, bit_count = 0\<rparr>)
          else (case word_count_checked bits of
                  None \<Rightarrow> Some (Some \<lparr>bwords = None, bit_count = 0\<rparr>)
                | Some n \<Rightarrow> do { ws' \<leftarrow> zero_words 0 n ws; Some (Some \<lparr>bwords = Some ws', bit_count = bits\<rparr>) })))"

definition bit_mask :: "nat \<Rightarrow> u64" where
  "bit_mask b = push_bit b 1"

definition bitmap_upd :: "(u64 \<Rightarrow> u64) \<Rightarrow> bitmap_t option \<Rightarrow> usize \<Rightarrow> bitmap_t option option" where
  "bitmap_upd f bm n = (case bm of None \<Rightarrow> Some None | Some b \<Rightarrow>
     (case bwords b of None \<Rightarrow> Some bm | Some ws \<Rightarrow>
        if n \<ge> bit_count b then Some bm
        else do {
          w \<leftarrow> arr_get ws (n div 64);
          ws' \<leftarrow> arr_set ws (n div 64) (f w);
          Some (Some (b\<lparr>bwords := Some ws'\<rparr>)) }))"

definition bitmap_set :: "bitmap_t option \<Rightarrow> usize \<Rightarrow> bitmap_t option option" where
  "bitmap_set bm n = bitmap_upd (\<lambda>w. w OR bit_mask (n mod 64)) bm n"

definition bitmap_clear :: "bitmap_t option \<Rightarrow> usize \<Rightarrow> bitmap_t option option" where
  "bitmap_clear bm n = bitmap_upd (\<lambda>w. w AND NOT (bit_mask (n mod 64))) bm n"

definition bitmap_test :: "bitmap_t option \<Rightarrow> usize \<Rightarrow> bool option" where
  "bitmap_test bm n = (case bm of None \<Rightarrow> Some False | Some b \<Rightarrow>
     (case bwords b of None \<Rightarrow> Some False | Some ws \<Rightarrow>
        if n \<ge> bit_count b then Some False
        else do { w \<leftarrow> arr_get ws (n div 64); Some (w AND bit_mask (n mod 64) \<noteq> 0) }))"

text \<open>
  The two searches share their loops and differ in whether a word is complemented first.
  \<open>find_bit\<close> is the inner loop over the 64 bits of one word: \<open>Inl\<close> is a return from the
  search, \<open>Inr\<close> falls through to the next word.
\<close>

function find_bit :: "u64 \<Rightarrow> nat \<Rightarrow> usize \<Rightarrow> nat \<Rightarrow> nat option + unit" where
  "find_bit w i count b =
     (if b < 64 then
        let n = i * 64 + b in
        if n \<ge> count then Inl None
        else if w AND bit_mask b \<noteq> 0 then Inl (Some n)
        else find_bit w i count (Suc b)
      else Inr ())"
  by pat_completeness auto
termination by (relation "measure (\<lambda>(w, i, count, b). 64 - b)") auto

function find_word :: "(u64 \<Rightarrow> u64) \<Rightarrow> u64 list \<Rightarrow> usize \<Rightarrow> nat \<Rightarrow> nat \<Rightarrow> nat option option" where
  "find_word f ws count nwords i =
     (if i < nwords then do {
        w0 \<leftarrow> arr_get ws i;
        let w = f w0;
        if w = 0 then find_word f ws count nwords (Suc i)
        else (case find_bit w i count 0 of
                Inl r \<Rightarrow> Some r
              | Inr _ \<Rightarrow> find_word f ws count nwords (Suc i))
      } else Some None)"
  by pat_completeness auto
termination by (relation "measure (\<lambda>(f, ws, count, nwords, i). nwords - i)") auto

declare find_bit.simps [simp del] find_word.simps [simp del]

definition bitmap_find :: "(u64 \<Rightarrow> u64) \<Rightarrow> bitmap_t option \<Rightarrow> nat option option" where
  "bitmap_find f bm = (case bm of None \<Rightarrow> Some None | Some b \<Rightarrow>
     (case bwords b of None \<Rightarrow> Some None | Some ws \<Rightarrow>
        (case word_count_checked (bit_count b) of None \<Rightarrow> Some None
         | Some n \<Rightarrow> find_word f ws (bit_count b) n 0)))"

definition bitmap_find_first_set :: "bitmap_t option \<Rightarrow> nat option option" where
  "bitmap_find_first_set bm = bitmap_find (\<lambda>w. w) bm"

definition bitmap_find_first_clear :: "bitmap_t option \<Rightarrow> nat option option" where
  "bitmap_find_first_clear bm = bitmap_find (\<lambda>w. NOT w) bm"

text \<open>
  \<^verbatim>\<open>while (w) { w &= w - 1; ++total; }\<close>: each round removes the lowest set bit, so the
  number read as a natural number decreases.
\<close>

lemma and_minus_one_less: "(w :: u64) \<noteq> 0 \<Longrightarrow> unat (w AND (w - 1)) < unat w"
proof -
  assume w: "w \<noteq> 0"
  have "unat (w AND (w - 1)) \<le> unat (w - 1)" using word_and_le1 by (metis word_le_nat_alt)
  also have "\<dots> < unat w" using w by (simp add: unat_minus_one unat_gt_0)
  finally show ?thesis .
qed

function popcount_loop :: "u64 \<Rightarrow> usize \<Rightarrow> usize" where
  "popcount_loop w tot = (if w = 0 then tot else popcount_loop (w AND (w - 1)) (add64 tot 1))"
  by pat_completeness auto
termination by (relation "measure (\<lambda>(w, tot). unat w)") (auto intro: and_minus_one_less)

declare popcount_loop.simps [simp del]

function count_loop :: "u64 list \<Rightarrow> usize \<Rightarrow> nat \<Rightarrow> nat \<Rightarrow> usize \<Rightarrow> usize option" where
  "count_loop ws count nwords i tot =
     (if i < nwords then do {
        w \<leftarrow> arr_get ws i;
        let w' = (if i + 1 = nwords \<and> count mod 64 \<noteq> 0 then w AND (bit_mask (count mod 64) - 1) else w);
        count_loop ws count nwords (Suc i) (popcount_loop w' tot)
      } else Some tot)"
  by pat_completeness auto
termination by (relation "measure (\<lambda>(ws, count, nwords, i, tot). nwords - i)") auto

declare count_loop.simps [simp del]

definition bitmap_count_set :: "bitmap_t option \<Rightarrow> usize option" where
  "bitmap_count_set bm = (case bm of None \<Rightarrow> Some 0 | Some b \<Rightarrow>
     (case bwords b of None \<Rightarrow> Some 0 | Some ws \<Rightarrow>
        (case word_count_checked (bit_count b) of None \<Rightarrow> Some 0
         | Some n \<Rightarrow> count_loop ws (bit_count b) n 0 0)))"

section \<open>The set of bits\<close>

definition bitmap_inv :: "bitmap_t option \<Rightarrow> bool" where
  "bitmap_inv bm = (case bm of None \<Rightarrow> False | Some b \<Rightarrow> (case bwords b of None \<Rightarrow> False | Some ws \<Rightarrow>
     bit_count b \<le> U64_MAX - 63 \<and> (bit_count b + 63) div 64 \<le> length ws))"

definition bitmap_bits :: "bitmap_t option \<Rightarrow> nat set" where
  "bitmap_bits bm = (case bm of None \<Rightarrow> {} | Some b \<Rightarrow> (case bwords b of None \<Rightarrow> {} | Some ws \<Rightarrow>
     {i. i < bit_count b \<and> bit (ws ! (i div 64)) (i mod 64)}))"

definition bitmap_len :: "bitmap_t option \<Rightarrow> nat" where
  "bitmap_len bm = (case bm of None \<Rightarrow> 0 | Some b \<Rightarrow> bit_count b)"

lemma bit_and_mask: "b < 64 \<Longrightarrow> (w AND bit_mask b \<noteq> 0) = bit w b"
  by (simp add: bit_mask_def bit_iff_and_push_bit_not_eq_0)

lemma bit_mask_iff: "bit (bit_mask b) i \<longleftrightarrow> i = b \<and> b < 64"
  by (auto simp: bit_mask_def bit_simps)

lemma bitmap_invE:
  assumes "bitmap_inv bm"
  obtains b ws where "bm = Some b" "bwords b = Some ws" "bit_count b \<le> U64_MAX - 63"
    "(bit_count b + 63) div 64 \<le> length ws" "\<forall>i < bit_count b. i div 64 < length ws"
proof -
  obtain b ws where *: "bm = Some b" "bwords b = Some ws" "bit_count b \<le> U64_MAX - 63"
    "(bit_count b + 63) div 64 \<le> length ws"
    using assms by (auto simp: bitmap_inv_def split: option.splits)
  have "i div 64 < length ws" if "i < bit_count b" for i
    using that *(4) by linarith
  with * that show thesis by blast
qed


lemma bitmap_upd_spec:
  assumes "bitmap_inv bm" "n < bitmap_len bm"
    and f: "\<And>w i. i < 64 \<Longrightarrow> bit (f w) i = (if i = n mod 64 then v else bit w i)"
  shows "\<exists>bm'. bitmap_upd f bm n = Some bm' \<and> bitmap_inv bm' \<and> bitmap_len bm' = bitmap_len bm \<and>
              bitmap_bits bm' = (if v then insert n (bitmap_bits bm) else bitmap_bits bm - {n})"
proof -
  obtain b ws where b: "bm = Some b" "bwords b = Some ws" "bit_count b \<le> U64_MAX - 63"
    "(bit_count b + 63) div 64 \<le> length ws" "\<forall>i < bit_count b. i div 64 < length ws"
    using assms(1) by (rule bitmap_invE)
  have n: "n < bit_count b" using assms(2) b by (simp add: bitmap_len_def)
  have eq: "bit (ws[n div 64 := f (ws ! (n div 64))] ! (i div 64)) (i mod 64) =
        (if i = n then v else bit (ws ! (i div 64)) (i mod 64))" if "i < bit_count b" for i
  proof (cases "i div 64 = n div 64")
    case True
    moreover have "(i mod 64 = n mod 64) = (i = n)" using True by (metis div_mult_mod_eq)
    ultimately show ?thesis using b(5) [rule_format, OF n] f by simp
  next
    case False
    then show ?thesis by auto
  qed
  have "{i. i < bit_count b \<and> bit (ws[n div 64 := f (ws ! (n div 64))] ! (i div 64)) (i mod 64)} =
        (if v then insert n {i. i < bit_count b \<and> bit (ws ! (i div 64)) (i mod 64)}
         else {i. i < bit_count b \<and> bit (ws ! (i div 64)) (i mod 64)} - {n})"
    using eq n by (auto split: if_splits)
  then show ?thesis
    using b n b(5) [rule_format, OF n] by (simp add: bitmap_upd_def bitmap_inv_def bitmap_len_def bitmap_bits_def)
qed

lemma bitmap_set_spec:
  "bitmap_inv bm \<Longrightarrow> n < bitmap_len bm \<Longrightarrow>
   \<exists>bm'. bitmap_set bm n = Some bm' \<and> bitmap_inv bm' \<and> bitmap_len bm' = bitmap_len bm \<and>
         bitmap_bits bm' = insert n (bitmap_bits bm)"
  unfolding bitmap_set_def
  using bitmap_upd_spec [of bm n "\<lambda>w. w OR bit_mask (n mod 64)" True]
  by (auto simp: bit_or_iff bit_mask_iff)

lemma bitmap_clear_spec:
  "bitmap_inv bm \<Longrightarrow> n < bitmap_len bm \<Longrightarrow>
   \<exists>bm'. bitmap_clear bm n = Some bm' \<and> bitmap_inv bm' \<and> bitmap_len bm' = bitmap_len bm \<and>
         bitmap_bits bm' = bitmap_bits bm - {n}"
  unfolding bitmap_clear_def
  using bitmap_upd_spec [of bm n "\<lambda>w. w AND NOT (bit_mask (n mod 64))" False]
  by (auto simp: bit_and_iff bit_not_iff bit_mask_iff)

lemma bitmap_test_spec:
  assumes "bitmap_inv bm"
  shows "bitmap_test bm n = Some (n \<in> bitmap_bits bm)"
proof -
  obtain b ws where b: "bm = Some b" "bwords b = Some ws" "\<forall>i < bit_count b. i div 64 < length ws"
    using assms by (rule bitmap_invE)
  then show ?thesis
    by (auto simp: bitmap_test_def bitmap_bits_def bit_and_mask)
qed

lemma bitmap_out_of_range:
  assumes "bitmap_inv bm" "bitmap_len bm \<le> n"
  shows "bitmap_set bm n = Some bm" "bitmap_clear bm n = Some bm"
  using assms by (auto simp: bitmap_set_def bitmap_clear_def bitmap_upd_def bitmap_len_def bitmap_inv_def split: option.splits)

lemma bitmap_bits_bound: "bitmap_bits bm \<subseteq> {..<bitmap_len bm}"
  by (auto simp: bitmap_bits_def bitmap_len_def split: option.splits)

lemma zero_words_spec:
  "i + n \<le> length ws \<Longrightarrow> \<exists>ws'. zero_words i n ws = Some ws' \<and> length ws' = length ws \<and>
     (\<forall>j < length ws. ws' ! j = (if i \<le> j \<and> j < i + n then 0 else ws ! j))"
proof (induction n arbitrary: i ws)
  case 0
  then show ?case by auto
next
  case (Suc n)
  have "Suc i + n \<le> length (ws[i := 0])" using Suc.prems by simp
  from Suc.IH [OF this] obtain ws' where
    "zero_words (Suc i) n (ws[i := 0]) = Some ws'" "length ws' = length ws"
    "\<forall>j < length ws. ws' ! j = (if Suc i \<le> j \<and> j < Suc i + n then 0 else ws[i := 0] ! j)"
    by auto
  then show ?case using Suc.prems by (auto simp: nth_list_update)
qed

lemma bitmap_init_spec:
  assumes "0 < bits" "bits \<le> U64_MAX - 63" "(bits + 63) div 64 \<le> length ws"
  shows "\<exists>bm'. bitmap_init (Some b) (Some ws) bits = Some bm' \<and> bitmap_inv bm' \<and>
               bitmap_len bm' = bits \<and> bitmap_bits bm' = {}"
proof -
  have wc: "word_count_checked bits = Some ((bits + 63) div 64)"
    using assms(2) by (simp add: word_count_checked_def Let_def)
  obtain ws' where ws': "zero_words 0 ((bits + 63) div 64) ws = Some ws'" "length ws' = length ws"
     "\<forall>j < length ws. ws' ! j = (if j < (bits + 63) div 64 then 0 else ws ! j)"
    using zero_words_spec [of 0 "(bits + 63) div 64" ws] assms(3) by auto
  have "i div 64 < (bits + 63) div 64" if "i < bits" for i using that by linarith
  then have "{i. i < bits \<and> bit (ws' ! (i div 64)) (i mod 64)} = {}"
    using ws' assms(3) by (auto dest: less_le_trans)
  then show ?thesis
    using wc ws' assms by (simp add: bitmap_init_def bitmap_inv_def bitmap_len_def bitmap_bits_def)
qed

section \<open>Searching\<close>

text \<open>\<open>first_in P lo r\<close>: \<open>r\<close> is the first index from \<open>lo\<close> on that satisfies \<open>P\<close>, if there is one.\<close>

definition first_in :: "(nat \<Rightarrow> bool) \<Rightarrow> nat \<Rightarrow> nat option \<Rightarrow> bool" where
  "first_in P lo r = (case r of None \<Rightarrow> \<forall>j \<ge> lo. \<not> P j
     | Some j \<Rightarrow> lo \<le> j \<and> P j \<and> (\<forall>k. lo \<le> k \<and> k < j \<longrightarrow> \<not> P k))"

lemma first_in_skip: "lo \<le> lo' \<Longrightarrow> \<forall>k. lo \<le> k \<and> k < lo' \<longrightarrow> \<not> P k \<Longrightarrow> first_in P lo' r \<Longrightarrow> first_in P lo r"
  by (auto simp: first_in_def split: option.splits) (meson le_trans not_le)+

lemma find_bit_spec:
  assumes "b \<le> 64"
  shows "case find_bit w i cnt b of
      Inl None \<Rightarrow> \<exists>j. b \<le> j \<and> j < 64 \<and> cnt \<le> i * 64 + j \<and> (\<forall>k. b \<le> k \<and> k < j \<longrightarrow> \<not> bit w k)
    | Inl (Some n) \<Rightarrow> \<exists>j. n = i * 64 + j \<and> b \<le> j \<and> j < 64 \<and> n < cnt \<and> bit w j \<and> (\<forall>k. b \<le> k \<and> k < j \<longrightarrow> \<not> bit w k)
    | Inr _ \<Rightarrow> \<forall>k. b \<le> k \<and> k < 64 \<longrightarrow> \<not> bit w k"
  using assms
proof (induction "64 - b" arbitrary: b)
  case 0
  then show ?case by (auto simp: find_bit.simps)
next
  case (Suc d)
  have b: "b < 64" using Suc.hyps(2) by simp
  show ?case
  proof (cases "cnt \<le> i * 64 + b \<or> bit w b")
    case True
    then show ?thesis
      using b by (auto simp: find_bit.simps [of w i cnt b] bit_and_mask Let_def)
  next
    case False
    have step: "(b \<le> k \<and> k < j \<longrightarrow> \<not> bit w k) = (Suc b \<le> k \<and> k < j \<longrightarrow> \<not> bit w k)" for k j
      using False by (auto simp: le_less Suc_le_eq)
    have "find_bit w i cnt b = find_bit w i cnt (Suc b)"
      using False b by (simp add: find_bit.simps [of w i cnt b] bit_and_mask)
    moreover have "d = 64 - Suc b" "Suc b \<le> 64" using Suc.hyps(2) b by simp_all
    ultimately show ?thesis
      using Suc.hyps(1) [of "Suc b"] unfolding step
      by (auto split: sum.splits option.splits) (meson Suc_leD)+
  qed
qed

lemma div_64: "i * 64 \<le> k \<Longrightarrow> k < i * 64 + 64 \<Longrightarrow> k div 64 = i" for k :: nat
  by linarith

lemma mod_64: "i * 64 \<le> k \<Longrightarrow> k < i * 64 + 64 \<Longrightarrow> k mod 64 = k - i * 64" for k :: nat
  using div_64 [of i k] by (simp add: modulo_nat_def)

lemma find_bit_first:
  assumes P: "\<And>j. P j \<longleftrightarrow> j < cnt \<and> bit (g (j div 64)) (j mod 64)"
  shows "case find_bit (g i) i cnt 0 of
      Inl r \<Rightarrow> first_in P (i * 64) r
    | Inr _ \<Rightarrow> \<forall>k. i * 64 \<le> k \<and> k < Suc i * 64 \<longrightarrow> \<not> P k"
proof -
  have conv: "\<not> bit (g i) (k - i * 64) \<Longrightarrow> \<not> P k" if "i * 64 \<le> k" "k < i * 64 + 64" for k
  proof -
    have "k div 64 = i" "k mod 64 = k - i * 64" using that by (simp_all add: div_64 mod_64)
    then show "\<not> bit (g i) (k - i * 64) \<Longrightarrow> \<not> P k" using P by simp
  qed
  have clear: "\<not> P k" if "\<forall>k. k < j \<longrightarrow> \<not> bit (g i) k" "i * 64 \<le> k" "k < i * 64 + j" "j \<le> 64" for j k
  proof -
    have "k - i * 64 < j" "k < i * 64 + 64" using that(2-4) by linarith+
    then show ?thesis using conv [of k] that(1,2) by blast
  qed
  note spec = find_bit_spec [where b = 0 and w = "g i" and i = i and cnt = cnt, OF le0, simplified]
  show ?thesis
  proof (cases "find_bit (g i) i cnt 0")
    case (Inl r)
    show ?thesis
    proof (cases r)
      case None
      obtain j where j: "j < 64" "cnt \<le> i * 64 + j" "\<forall>k < j. \<not> bit (g i) k"
        using spec Inl None by auto
      have "\<not> P k" if "i * 64 \<le> k" for k
        using P clear [OF j(3) that] j by (cases "k < i * 64 + j") auto
      then show ?thesis using Inl None by (simp add: first_in_def)
    next
      case (Some n)
      obtain j where j: "n = i * 64 + j" "j < 64" "n < cnt" "bit (g i) j" "\<forall>k < j. \<not> bit (g i) k"
        using spec Inl Some by auto
      have "P n" using P j by simp
      moreover have "\<not> P k" if "i * 64 \<le> k" "k < n" for k
        using clear [OF j(5) that(1)] that(2) j(1,2) by simp
      ultimately show ?thesis using Inl Some j by (simp add: first_in_def)
    qed
  next
    case (Inr u)
    then show ?thesis using spec clear [of 64] by auto
  qed
qed

lemma find_word_spec:
  assumes P: "\<And>j. P j \<longleftrightarrow> j < cnt \<and> bit (f (ws ! (j div 64))) (j mod 64)"
    and "nw = (cnt + 63) div 64" "nw \<le> length ws"
  shows "\<exists>r. find_word f ws cnt nw i = Some r \<and> first_in P (i * 64) r"
proof (induction "nw - i" arbitrary: i)
  case 0
  then have i: "nw \<le> i" by simp
  then have "cnt \<le> i * 64" using assms(2) by linarith
  then have "\<forall>j \<ge> i * 64. \<not> P j" by (simp add: P)
  then show ?case using i by (simp add: find_word.simps first_in_def)
next
  case (Suc d)
  then have i: "i < nw" "i < length ws" "d = nw - Suc i" using assms(3) by linarith+
  obtain r where r: "find_word f ws cnt nw (Suc i) = Some r" "first_in P (Suc i * 64) r"
    using Suc.hyps(1) [OF i(3)] by blast
  note fb = find_bit_first [of P cnt "\<lambda>i. f (ws ! i)" i, OF P]
  show ?case
  proof (cases "f (ws ! i) = 0 \<or> find_bit (f (ws ! i)) i cnt 0 = Inr ()")
    case True
    have "\<forall>k. i * 64 \<le> k \<and> k < Suc i * 64 \<longrightarrow> \<not> P k"
    proof (cases "f (ws ! i) = 0")
      case True
      have "k div 64 = i" if "i * 64 \<le> k \<and> k < Suc i * 64" for k using that by (simp add: div_64)
      then show ?thesis using P True by auto
    next
      case False
      then show ?thesis using fb \<open>_ \<or> _\<close> by simp
    qed
    then have "first_in P (i * 64) r" using r(2) by (rule first_in_skip [rotated]) simp
    then show ?thesis
      using True r(1) i by (auto simp: find_word.simps [of f ws cnt nw i] Let_def)
  next
    case False
    then obtain r' where "find_bit (f (ws ! i)) i cnt 0 = Inl r'"
      by (cases "find_bit (f (ws ! i)) i cnt 0") auto
    then show ?thesis
      using False fb i by (auto simp: find_word.simps [of f ws cnt nw i] Let_def)
  qed
qed

lemma word_count_inv: "bit_count b \<le> U64_MAX - 63 \<Longrightarrow> word_count_checked (bit_count b) = Some ((bit_count b + 63) div 64)"
  by (simp add: word_count_checked_def Let_def)

lemma bitmap_find_first_set_spec:
  assumes "bitmap_inv bm"
  shows "\<exists>r. bitmap_find_first_set bm = Some r \<and> first_in (\<lambda>j. j \<in> bitmap_bits bm) 0 r"
proof -
  obtain b ws where b: "bm = Some b" "bwords b = Some ws" "bit_count b \<le> U64_MAX - 63"
    "(bit_count b + 63) div 64 \<le> length ws"
    using assms by (rule bitmap_invE)
  show ?thesis
    using find_word_spec [of "\<lambda>j. j \<in> bitmap_bits bm" "bit_count b" "\<lambda>w. w" ws, OF _ refl b(4), of 0] b
    by (simp add: bitmap_find_first_set_def bitmap_find_def word_count_inv bitmap_bits_def)
qed

lemma bitmap_find_first_clear_spec:
  assumes "bitmap_inv bm"
  shows "\<exists>r. bitmap_find_first_clear bm = Some r \<and> first_in (\<lambda>j. j < bitmap_len bm \<and> j \<notin> bitmap_bits bm) 0 r"
proof -
  obtain b ws where b: "bm = Some b" "bwords b = Some ws" "bit_count b \<le> U64_MAX - 63"
    "(bit_count b + 63) div 64 \<le> length ws"
    using assms by (rule bitmap_invE)
  have "(j < bitmap_len bm \<and> j \<notin> bitmap_bits bm) = (j < bit_count b \<and> bit (NOT (ws ! (j div 64))) (j mod 64))" for j
    using b by (auto simp: bitmap_bits_def bitmap_len_def bit_not_iff)
  from find_word_spec [OF this refl b(4), of 0] b show ?thesis
    by (simp add: bitmap_find_first_clear_def bitmap_find_def word_count_inv)
qed

section \<open>Counting\<close>

lemma bits_nat_rec: "{i. bit (m :: nat) i} = (if odd m then {0} else {}) \<union> Suc ` {i. bit (m div 2) i}"
proof (rule set_eqI)
  fix i
  show "i \<in> {i. bit m i} \<longleftrightarrow> i \<in> (if odd m then {0} else {}) \<union> Suc ` {i. bit (m div 2) i}"
    by (cases i) (auto simp: bit_0 bit_Suc)
qed

lemma finite_bits_nat: "finite {i. bit (m :: nat) i}"
proof (induction m rule: less_induct)
  case (less m)
  show ?case
  proof (cases "m = 0")
    case False
    then have "finite {i. bit (m div 2) i}" by (intro less) simp
    then show ?thesis by (subst bits_nat_rec) simp
  qed simp
qed

lemma card_Suc_image: "card (Suc ` A) = card A"
  by (simp add: card_image)

text \<open>Clearing the lowest set bit removes exactly one element.\<close>

lemma card_bits_and_minus_one:
  "0 < (m :: nat) \<Longrightarrow> Suc (card ({i. bit m i} \<inter> {i. bit (m - 1) i})) = card {i. bit m i}"
proof (induction m rule: less_induct)
  case (less m)
  show ?case
  proof (cases "odd m")
    case True
    then have eq: "(m - 1) div 2 = m div 2" "even (m - 1)" by presburger+
    have B: "{i. bit m i} = insert 0 (Suc ` {i. bit (m div 2) i})"
      "{i. bit (m - 1) i} = Suc ` {i. bit (m div 2) i}"
      using True eq bits_nat_rec [of m] bits_nat_rec [of "m - 1"] by simp_all
    have "insert 0 (Suc ` {i. bit (m div 2) i}) \<inter> Suc ` {i. bit (m div 2) i} = Suc ` {i. bit (m div 2) i}" by auto
    then show ?thesis unfolding B using finite_bits_nat [of "m div 2"] by simp
  next
    case False
    then have eq: "(m - 1) div 2 = m div 2 - 1" "odd (m - 1)" "0 < m div 2" "m div 2 < m"
      using less.prems by presburger+
    have B: "{i. bit m i} = Suc ` {i. bit (m div 2) i}"
      "{i. bit (m - 1) i} = insert 0 (Suc ` {i. bit (m div 2 - 1) i})"
      using False eq less.prems bits_nat_rec [of m] bits_nat_rec [of "m - 1"] by simp_all
    have "Suc ` {i. bit (m div 2) i} \<inter> insert 0 (Suc ` {i. bit (m div 2 - 1) i}) =
          Suc ` ({i. bit (m div 2) i} \<inter> {i. bit (m div 2 - 1) i})" by auto
    then show ?thesis unfolding B using less.IH [OF eq(4,3)] by (simp add: card_Suc_image)
  qed
qed

lemma bits_word_nat: "{i. bit (w :: u64) i} = {i. bit (unat w) i}"
  by (auto simp: bit_unsigned_iff dest: bit_imp_possible_bit)

lemma card_bits_word_step:
  assumes "(w :: u64) \<noteq> 0"
  shows "Suc (card {i. bit (w AND (w - 1)) i}) = card {i. bit w i}"
proof -
  have "unat (w - 1) = unat w - 1" using assms by (simp add: unat_minus_one)
  moreover have "{i. bit (w AND (w - 1)) i} = {i. bit w i} \<inter> {i. bit (w - 1) i}"
    by (auto simp: bit_and_iff)
  ultimately show ?thesis
    using card_bits_and_minus_one [of "unat w"] assms by (simp add: bits_word_nat unat_gt_0)
qed

lemma popcount_loop_card:
  "tot + card {i. bit w i} \<le> U64_MAX \<Longrightarrow> popcount_loop w tot = tot + card {i. bit w i}"
proof (induction w tot rule: popcount_loop.induct)
  case (1 w tot)
  show ?case
  proof (cases "w = 0")
    case False
    have step: "Suc (card {i. bit (w AND (w - 1)) i}) = card {i. bit w i}"
      using False by (rule card_bits_word_step)
    then have "add64 tot 1 = Suc tot" using "1.prems" by simp
    with "1.IH" [OF False] "1.prems" step show ?thesis
      by (simp add: popcount_loop.simps [of w tot] False)
  qed (simp add: popcount_loop.simps)
qed

lemma card_bits_le: "card {i. bit (w :: u64) i} \<le> 64"
proof -
  have "{i. bit w i} \<subseteq> {..<64}" by (auto dest: bit_imp_le_length)
  from card_mono [OF _ this] show ?thesis by simp
qed

lemma bit_mask_minus_one: "m < 64 \<Longrightarrow> bit (bit_mask m - 1) k \<longleftrightarrow> k < m"
proof -
  assume "m < 64"
  moreover have "bit_mask m - 1 = mask m" by (simp add: bit_mask_def mask_eq_exp_minus_1 push_bit_eq_mult)
  ultimately show ?thesis by (auto simp: bit_mask_iff Bit_Operations.bit_mask_iff)
qed

lemma last_word_bits:
  assumes "Suc i = (cnt + 63) div 64"
  shows "cnt - i * 64 = (if cnt mod 64 = 0 then 64 else cnt mod (64 :: nat))"
proof -
  obtain q r where qr: "cnt = q * 64 + r" "r < 64" "r = cnt mod 64"
    using div_mult_mod_eq [of cnt 64] by (metis mod_less_divisor zero_less_numeral)
  show ?thesis
  proof (cases "r = 0")
    case True
    then have "Suc i = q" using assms qr(1) by simp
    then have "cnt - i * 64 = 64" using True qr(1) by auto
    then show ?thesis using True qr(3) by simp
  next
    case False
    then have "(q * 64 + r + 63) div 64 = Suc q" using qr(2) by linarith
    then have "i = q" using assms qr(1) by simp
    then have "cnt - i * 64 = r" using qr(1) by simp
    then show ?thesis using False qr(3) by simp
  qed
qed

lemma count_loop_spec:
  fixes ws :: "u64 list"
  defines "B \<equiv> \<lambda>i cnt. {j. i * 64 \<le> j \<and> j < cnt \<and> bit (ws ! (j div 64)) (j mod 64)}"
  assumes nw: "nw = (cnt + 63) div 64" and len: "nw \<le> length ws" and cnt: "cnt + 63 \<le> U64_MAX"
    and "tot \<le> i * 64"
  shows "count_loop ws cnt nw i tot = Some (tot + card (B i cnt))"
  using \<open>tot \<le> i * 64\<close>
proof (induction "nw - i" arbitrary: i tot)
  case 0
  then have i: "nw \<le> i" by simp
  then have "cnt \<le> i * 64" using nw by linarith
  then have "B i cnt = {}" by (auto simp: B_def)
  then show ?case using i by (simp add: count_loop.simps)
next
  case (Suc d)
  then have i: "i < nw" "i < length ws" "d = nw - Suc i" using len by linarith+
  let ?w = "if i + 1 = nw \<and> cnt mod 64 \<noteq> 0 then (ws ! i) AND (bit_mask (cnt mod 64) - 1) else ws ! i"
  have "k < cnt - i * 64 \<longleftrightarrow> \<not> (i + 1 = nw \<and> cnt mod 64 \<noteq> 0) \<or> k < cnt mod 64" if "k < 64" for k
  proof (cases "i + 1 = nw")
    case True
    have "cnt - i * 64 = (if cnt mod 64 = 0 then 64 else cnt mod 64)"
      by (rule last_word_bits) (use True nw in simp)
    then show ?thesis using True that by simp
  next
    case False
    then have "64 \<le> cnt - i * 64" using i(1) nw by linarith
    then show ?thesis using False that by simp
  qed
  then have bits: "bit ?w k \<longleftrightarrow> bit (ws ! i) k \<and> k < cnt - i * 64" if "k < 64" for k
    using that by (auto simp: bit_and_iff bit_mask_minus_one)
  have inj: "inj_on (\<lambda>k. i * 64 + k) A" for A by (simp add: inj_on_def)
  have split: "B i cnt = (\<lambda>k. i * 64 + k) ` {k. bit ?w k} \<union> B (Suc i) cnt"
  proof (rule set_eqI)
    fix j
    show "j \<in> B i cnt \<longleftrightarrow> j \<in> (\<lambda>k. i * 64 + k) ` {k. bit ?w k} \<union> B (Suc i) cnt"
    proof (cases "i * 64 \<le> j \<and> j < i * 64 + 64")
      case True
      then have jj: "j - i * 64 < 64" "j - i * 64 < cnt - i * 64 \<longleftrightarrow> j < cnt" by linarith+
      have "j \<in> B i cnt \<longleftrightarrow> bit ?w (j - i * 64)"
        unfolding bits [OF jj(1)] jj(2) using True by (auto simp: B_def div_64 mod_64)
      also have "\<dots> \<longleftrightarrow> j \<in> (\<lambda>k. i * 64 + k) ` {k. bit ?w k}"
        using True by (auto simp: image_iff intro!: exI [of _ "j - i * 64"])
      finally show ?thesis using True by (auto simp: B_def)
    next
      case False
      have "j \<notin> (\<lambda>k. i * 64 + k) ` {k. bit ?w k}"
        using False by (auto dest: bit_imp_le_length)
      then show ?thesis using False by (auto simp: B_def)
    qed
  qed
  have fin: "finite {k. bit ?w k}" unfolding bits_word_nat by (rule finite_bits_nat)
  have "card (B i cnt) = card ((\<lambda>k. i * 64 + k) ` {k. bit ?w k}) + card (B (Suc i) cnt)"
    unfolding split using fin
    by (intro card_Un_disjoint) (auto simp: B_def dest: bit_imp_le_length)
  then have card: "card (B i cnt) = card {k. bit ?w k} + card (B (Suc i) cnt)"
    by (simp add: card_image [OF inj])
  have b64: "card {k. bit ?w k} \<le> 64" by (rule card_bits_le)
  have "i * 64 + 64 \<le> U64_MAX" using i(1) nw cnt by linarith
  then have pc: "popcount_loop ?w tot = tot + card {k. bit ?w k}"
    using b64 Suc.prems by (intro popcount_loop_card) linarith
  have "tot + card {k. bit ?w k} \<le> Suc i * 64" using b64 Suc.prems by simp
  from Suc.hyps(1) [OF i(3) this] have
    IH: "count_loop ws cnt nw (Suc i) (tot + card {k. bit ?w k}) = Some (tot + card {k. bit ?w k} + card (B (Suc i) cnt))" .
  have "count_loop ws cnt nw i tot = count_loop ws cnt nw (Suc i) (popcount_loop ?w tot)"
    using i by (simp add: count_loop.simps [of ws cnt nw i] Let_def)
  then show ?case unfolding pc IH card by simp
qed

lemma bitmap_count_set_spec:
  assumes "bitmap_inv bm"
  shows "bitmap_count_set bm = Some (card (bitmap_bits bm))"
proof -
  obtain b ws where b: "bm = Some b" "bwords b = Some ws" "bit_count b \<le> U64_MAX - 63"
    "(bit_count b + 63) div 64 \<le> length ws"
    using assms by (rule bitmap_invE)
  have "bit_count b + 63 \<le> U64_MAX" using b(3) by simp
  from count_loop_spec [OF refl b(4) this, of 0 0] b show ?thesis
    by (simp add: bitmap_count_set_def word_count_inv bitmap_bits_def)
qed

section \<open>The bit-set contract\<close>

text \<open>Loops over a range of bits, as the physical memory manager runs them.\<close>

fun upd_range :: "('b \<Rightarrow> nat \<Rightarrow> 'b option) \<Rightarrow> nat \<Rightarrow> nat \<Rightarrow> 'b \<Rightarrow> 'b option" where
  "upd_range f lo 0 b = Some b"
| "upd_range f lo (Suc n) b = do { b' \<leftarrow> f b lo; upd_range f (Suc lo) n b' }"

text \<open>The offset of the first bit of \<open>lo ..< lo + n\<close> that tests positive: \<open>Some None\<close> if all are clear.\<close>

fun first_used :: "('b \<Rightarrow> nat \<Rightarrow> bool option) \<Rightarrow> nat \<Rightarrow> nat \<Rightarrow> nat \<Rightarrow> 'b \<Rightarrow> nat option option" where
  "first_used test lo j 0 b = Some None"
| "first_used test lo j (Suc n) b = do {
     t \<leftarrow> test b (lo + j);
     if t then Some (Some j) else first_used test lo (Suc j) n b }"

locale bit_set =
  fixes inv :: "'b \<Rightarrow> bool"
    and bits :: "'b \<Rightarrow> nat set"
    and len :: "'b \<Rightarrow> nat"
    and bset :: "'b \<Rightarrow> nat \<Rightarrow> 'b option"
    and bclear :: "'b \<Rightarrow> nat \<Rightarrow> 'b option"
    and btest :: "'b \<Rightarrow> nat \<Rightarrow> bool option"
  assumes bits_bound: "inv b \<Longrightarrow> bits b \<subseteq> {..<len b}"
    and bset_spec: "inv b \<Longrightarrow> n < len b \<Longrightarrow>
      \<exists>b'. bset b n = Some b' \<and> inv b' \<and> len b' = len b \<and> bits b' = insert n (bits b)"
    and bclear_spec: "inv b \<Longrightarrow> n < len b \<Longrightarrow>
      \<exists>b'. bclear b n = Some b' \<and> inv b' \<and> len b' = len b \<and> bits b' = bits b - {n}"
    and btest_spec: "inv b \<Longrightarrow> btest b n = Some (n \<in> bits b)"
begin

lemma finite_bits: "inv b \<Longrightarrow> finite (bits b)"
  using bits_bound finite_subset by blast

lemma set_range_spec:
  "inv b \<Longrightarrow> lo + n \<le> len b \<Longrightarrow>
   \<exists>b'. upd_range bset lo n b = Some b' \<and> inv b' \<and> len b' = len b \<and> bits b' = bits b \<union> {lo..<lo + n}"
proof (induction n arbitrary: lo b)
  case 0
  then show ?case by simp
next
  case (Suc n)
  obtain b1 where b1: "bset b lo = Some b1" "inv b1" "len b1 = len b" "bits b1 = insert lo (bits b)"
    using bset_spec [OF Suc.prems(1), of lo] Suc.prems(2) by auto
  have "Suc lo + n \<le> len b1" using Suc.prems(2) b1(3) by simp
  from Suc.IH [OF b1(2) this] obtain b2 where
    b2: "upd_range bset (Suc lo) n b1 = Some b2" "inv b2" "len b2 = len b"
      "bits b2 = insert lo (bits b) \<union> {Suc lo..<Suc lo + n}"
    using b1 by auto
  have "insert lo (bits b) \<union> {Suc lo..<Suc lo + n} = bits b \<union> {lo..<lo + Suc n}" by auto
  then show ?case using b1 b2 by simp
qed

lemma clear_range_spec:
  "inv b \<Longrightarrow> lo + n \<le> len b \<Longrightarrow>
   \<exists>b'. upd_range bclear lo n b = Some b' \<and> inv b' \<and> len b' = len b \<and> bits b' = bits b - {lo..<lo + n}"
proof (induction n arbitrary: lo b)
  case 0
  then show ?case by simp
next
  case (Suc n)
  obtain b1 where b1: "bclear b lo = Some b1" "inv b1" "len b1 = len b" "bits b1 = bits b - {lo}"
    using bclear_spec [OF Suc.prems(1), of lo] Suc.prems(2) by auto
  have "Suc lo + n \<le> len b1" using Suc.prems(2) b1(3) by simp
  from Suc.IH [OF b1(2) this] obtain b2 where
    b2: "upd_range bclear (Suc lo) n b1 = Some b2" "inv b2" "len b2 = len b"
      "bits b2 = bits b - {lo} - {Suc lo..<Suc lo + n}"
    using b1 by auto
  have "bits b - {lo} - {Suc lo..<Suc lo + n} = bits b - {lo..<lo + Suc n}" by auto
  then show ?case using b1 b2 by simp
qed

lemma first_used_spec:
  "inv b \<Longrightarrow> \<exists>r. first_used btest lo j n b = Some r \<and>
     (case r of None \<Rightarrow> bits b \<inter> {lo + j..<lo + j + n} = {}
      | Some k \<Rightarrow> j \<le> k \<and> k < j + n \<and> lo + k \<in> bits b \<and> bits b \<inter> {lo + j..<lo + k} = {})"
proof (induction n arbitrary: j)
  case 0
  then show ?case by simp
next
  case (Suc n)
  show ?case
  proof (cases "lo + j \<in> bits b")
    case True
    then show ?thesis using btest_spec [OF Suc.prems] by simp
  next
    case False
    obtain r where r: "first_used btest lo (Suc j) n b = Some r"
      "case r of None \<Rightarrow> bits b \<inter> {lo + Suc j..<lo + Suc j + n} = {}
       | Some k \<Rightarrow> Suc j \<le> k \<and> k < Suc j + n \<and> lo + k \<in> bits b \<and> bits b \<inter> {lo + Suc j..<lo + k} = {}"
      using Suc.IH [OF Suc.prems, of "Suc j"] by blast
    have "{lo + j..<m} = insert (lo + j) {lo + Suc j..<m}" if "lo + j < m" for m using that by auto
    then show ?thesis
      using r False btest_spec [OF Suc.prems] by (auto split: option.splits)
  qed
qed

end

interpretation bs: bit_set bitmap_inv bitmap_bits bitmap_len bitmap_set bitmap_clear bitmap_test
  by unfold_locales (use bitmap_bits_bound in blast, rule bitmap_set_spec, assumption+,
      rule bitmap_clear_spec, assumption+, rule bitmap_test_spec)

section \<open>Properties\<close>

text \<open>
  C27: the word-level bitmap implements a set of bit numbers. On a bitmap whose words
  cover its bit count, setting and clearing a bit in range insert and remove exactly
  that bit, out-of-range updates change nothing, a test answers membership, and none of
  the operations leaves the word array.
\<close>

theorem bitmap_refines_set:
  assumes "bitmap_inv bm"
  shows "(\<exists>bm'. bitmap_set bm n = Some bm' \<and> bitmap_inv bm' \<and> bitmap_len bm' = bitmap_len bm \<and>
            bitmap_bits bm' = (if n < bitmap_len bm then insert n (bitmap_bits bm) else bitmap_bits bm)) \<and>
         (\<exists>bm'. bitmap_clear bm n = Some bm' \<and> bitmap_inv bm' \<and> bitmap_len bm' = bitmap_len bm \<and>
            bitmap_bits bm' = bitmap_bits bm - {n}) \<and>
         bitmap_test bm n = Some (n \<in> bitmap_bits bm)"
proof (cases "n < bitmap_len bm")
  case True
  then show ?thesis
    using bitmap_set_spec bitmap_clear_spec bitmap_test_spec assms by auto
next
  case False
  then have "n \<notin> bitmap_bits bm" using bitmap_bits_bound by fastforce
  then show ?thesis
    using False bitmap_out_of_range [OF assms, of n] bitmap_test_spec [OF assms] assms by auto
qed

theorem bitmap_refines_set_witness:
  "bitmap_test (Some \<lparr>bwords = Some [5], bit_count = 3\<rparr>) 2 = Some True \<and>
   (\<exists>bm'. bitmap_set (Some \<lparr>bwords = Some [5], bit_count = 3\<rparr>) 1 = Some bm' \<and> 1 \<in> bitmap_bits bm')"
proof -
  let ?bm = "Some \<lparr>bwords = Some [5], bit_count = 3\<rparr> :: bitmap_t option"
  have inv: "bitmap_inv ?bm" by (simp add: bitmap_inv_def)
  have "2 \<in> bitmap_bits ?bm" by (simp add: bitmap_bits_def bit_numeral_rec)
  then show ?thesis
    using bitmap_refines_set [OF inv, of 2] bitmap_refines_set [OF inv, of 1]
    by (auto simp: bitmap_len_def)
qed

text \<open>
  the word-skipping searches find the lowest set and the lowest clear bit. They
  return a bit exactly when one exists below the bit count, every lower bit is then of
  the other kind, and they stay inside the word array.
\<close>

theorem bitmap_find_first_correct:
  assumes "bitmap_inv bm"
  shows "(\<exists>r. bitmap_find_first_set bm = Some r \<and> first_in (\<lambda>j. j \<in> bitmap_bits bm) 0 r) \<and>
         (\<exists>r. bitmap_find_first_clear bm = Some r \<and>
              first_in (\<lambda>j. j < bitmap_len bm \<and> j \<notin> bitmap_bits bm) 0 r)"
  using bitmap_find_first_set_spec [OF assms] bitmap_find_first_clear_spec [OF assms] by blast

theorem bitmap_find_first_correct_witness:
  "\<exists>r. bitmap_find_first_clear (Some \<lparr>bwords = Some [7, 0], bit_count = 70\<rparr>) = Some (Some r) \<and> r \<le> 3"
proof -
  let ?bm = "Some \<lparr>bwords = Some [7, 0], bit_count = 70\<rparr> :: bitmap_t option"
  have inv: "bitmap_inv ?bm" by (simp add: bitmap_inv_def)
  have "3 < bitmap_len ?bm \<and> 3 \<notin> bitmap_bits ?bm"
    by (simp add: bitmap_bits_def bitmap_len_def bit_numeral_rec)
  then show ?thesis
    using bitmap_find_first_correct [OF inv]
    by (auto simp: first_in_def not_less [symmetric] split: option.splits)
qed

text \<open>
  the population count by repeated clearing of the lowest set bit, with the last
  partial word masked, is the number of bits in the set.
\<close>

theorem bitmap_count_set_card:
  assumes "bitmap_inv bm"
  shows "bitmap_count_set bm = Some (card (bitmap_bits bm))"
  using assms by (rule bitmap_count_set_spec)

theorem bitmap_count_set_card_witness:
  "bitmap_count_set (Some \<lparr>bwords = Some [3], bit_count = 1\<rparr>) = Some 1"
proof -
  let ?bm = "Some \<lparr>bwords = Some [3], bit_count = 1\<rparr> :: bitmap_t option"
  have inv: "bitmap_inv ?bm" by (simp add: bitmap_inv_def)
  have "bitmap_bits ?bm = {0}" by (auto simp: bitmap_bits_def bit_numeral_rec)
  then show ?thesis using bitmap_count_set_card [OF inv] by simp
qed

end
