(* ===== verification/Libc_String.thy ===== *)
theory Libc_String
  imports Kernel_Prelude "HOL-Library.Sublist"
begin

text \<open>
  The kernel's string library, \<^verbatim>\<open>kernel/lib/string.c\<close>, over a block memory: a heap maps
  object numbers to their bytes, a location is an object and an offset, and a pointer is
  a location or null. Every access is checked, so \<open>None\<close> is an access outside an object
  or through a null pointer. C strings are specified by \<open>cstr\<close>: the bytes before the first
  NUL.
\<close>

type_synonym heap = "nat \<Rightarrow> bytes"
type_synonym loc = "nat \<times> nat"
type_synonym ptr = "loc option"

definition ld :: "heap \<Rightarrow> ptr \<Rightarrow> nat \<Rightarrow> u8 option" where
  "ld h p i = (case p of None \<Rightarrow> None | Some (b, off) \<Rightarrow> arr_get (h b) (off + i))"

definition st :: "heap \<Rightarrow> ptr \<Rightarrow> nat \<Rightarrow> u8 \<Rightarrow> heap option" where
  "st h p i v = (case p of None \<Rightarrow> None | Some (b, off) \<Rightarrow>
     map_option (\<lambda>o'. h(b := o')) (arr_set (h b) (off + i) v))"

definition padd :: "ptr \<Rightarrow> nat \<Rightarrow> ptr" where
  "padd p n = map_option (\<lambda>(b, off). (b, off + n)) p"

definition room :: "heap \<Rightarrow> ptr \<Rightarrow> nat" where
  "room h p = (case p of None \<Rightarrow> 0 | Some (b, off) \<Rightarrow> length (h b) - off)"

lemma ld_room: "ld h p i = Some c \<Longrightarrow> i < room h p"
  by (auto simp: ld_def room_def arr split: option.splits)

lemma st_room: "st h p i v = Some h' \<Longrightarrow> i < room h p"
  by (auto simp: st_def room_def arr split: option.splits)

lemma st_room_eq: "st h p i v = Some h' \<Longrightarrow> room h' q = room h q"
  by (auto simp: st_def room_def arr split: option.splits)

section \<open>Memory blocks\<close>

fun memset_loop :: "heap \<Rightarrow> ptr \<Rightarrow> u8 \<Rightarrow> nat \<Rightarrow> nat \<Rightarrow> heap option" where
  "memset_loop h d v i 0 = Some h"
| "memset_loop h d v i (Suc n) = do { h' \<leftarrow> st h d i v; memset_loop h' d v (Suc i) n }"

definition memset :: "heap \<Rightarrow> ptr \<Rightarrow> int \<Rightarrow> usize \<Rightarrow> heap option" where
  "memset h dst val n = memset_loop h dst (word_of_int val) 0 n"

fun copy_up :: "heap \<Rightarrow> ptr \<Rightarrow> ptr \<Rightarrow> nat \<Rightarrow> nat \<Rightarrow> heap option" where
  "copy_up h d s i 0 = Some h"
| "copy_up h d s i (Suc n) = do { c \<leftarrow> ld h s i; h' \<leftarrow> st h d i c; copy_up h' d s (Suc i) n }"

definition memcpy :: "heap \<Rightarrow> ptr \<Rightarrow> ptr \<Rightarrow> usize \<Rightarrow> heap option" where
  "memcpy h dst src n = copy_up h dst src 0 n"

fun copy_down :: "heap \<Rightarrow> ptr \<Rightarrow> ptr \<Rightarrow> nat \<Rightarrow> heap option" where
  "copy_down h d s 0 = Some h"
| "copy_down h d s (Suc i) = do { c \<leftarrow> ld h s i; h' \<leftarrow> st h d i c; copy_down h' d s i }"

text \<open>Addresses are ordered by object, then offset; null is below every object.\<close>

definition ptr_less :: "ptr \<Rightarrow> ptr \<Rightarrow> bool" where
  "ptr_less p q = (case (p, q) of
      (None, Some _) \<Rightarrow> True
    | (Some (b, i), Some (c, j)) \<Rightarrow> b < c \<or> b = c \<and> i < j
    | _ \<Rightarrow> False)"

definition memmove :: "heap \<Rightarrow> ptr \<Rightarrow> ptr \<Rightarrow> usize \<Rightarrow> heap option" where
  "memmove h dst src n =
     (if dst = src \<or> n = 0 then Some h
      else if ptr_less dst src then copy_up h dst src 0 n
      else copy_down h dst src n)"

fun memcmp_loop :: "heap \<Rightarrow> ptr \<Rightarrow> ptr \<Rightarrow> nat \<Rightarrow> nat \<Rightarrow> int option" where
  "memcmp_loop h a b i 0 = Some 0"
| "memcmp_loop h a b i (Suc n) = do {
     ca \<leftarrow> ld h a i; cb \<leftarrow> ld h b i;
     if ca \<noteq> cb then Some (uint ca - uint cb) else memcmp_loop h a b (Suc i) n }"

definition memcmp :: "heap \<Rightarrow> ptr \<Rightarrow> ptr \<Rightarrow> usize \<Rightarrow> int option" where
  "memcmp h a b n = memcmp_loop h a b 0 n"

definition bcmp :: "heap \<Rightarrow> ptr \<Rightarrow> ptr \<Rightarrow> usize \<Rightarrow> int option" where
  "bcmp h a b n = memcmp h a b n"

section \<open>Strings\<close>

function strlen_loop :: "heap \<Rightarrow> ptr \<Rightarrow> nat \<Rightarrow> usize option" where
  "strlen_loop h s n = do { c \<leftarrow> ld h s n; if c \<noteq> 0 then strlen_loop h s (Suc n) else Some n }"
  by pat_completeness auto
termination
  by (relation "measure (\<lambda>(h, s, n). room h s - n)") (auto dest: ld_room)

definition strlen :: "heap \<Rightarrow> ptr \<Rightarrow> usize option" where
  "strlen h s = (if s = None then Some 0 else strlen_loop h s 0)"

function strnlen_loop :: "heap \<Rightarrow> ptr \<Rightarrow> usize \<Rightarrow> nat \<Rightarrow> usize option" where
  "strnlen_loop h s mx n =
     (if n < mx then do { c \<leftarrow> ld h s n; if c \<noteq> 0 then strnlen_loop h s mx (Suc n) else Some n } else Some n)"
  by pat_completeness auto
termination
  by (relation "measure (\<lambda>(h, s, mx, n). room h s - n)") (auto dest: ld_room)

definition strnlen :: "heap \<Rightarrow> ptr \<Rightarrow> usize \<Rightarrow> usize option" where
  "strnlen h s mx = (if s = None then Some 0 else strnlen_loop h s mx 0)"

function strcmp_loop :: "heap \<Rightarrow> ptr \<Rightarrow> ptr \<Rightarrow> nat \<Rightarrow> int option" where
  "strcmp_loop h a b i = do {
     ca \<leftarrow> ld h a i; cb \<leftarrow> ld h b i;
     if ca \<noteq> 0 \<and> ca = cb then strcmp_loop h a b (Suc i) else Some (uint ca - uint cb) }"
  by pat_completeness auto
termination
  by (relation "measure (\<lambda>(h, a, b, i). room h a - i)") (auto dest: ld_room)

definition strcmp :: "heap \<Rightarrow> ptr \<Rightarrow> ptr \<Rightarrow> int option" where
  "strcmp h a b =
     (if a = b then Some 0 else if a = None then Some (-1) else if b = None then Some 1
      else strcmp_loop h a b 0)"

fun strncmp_loop :: "heap \<Rightarrow> ptr \<Rightarrow> ptr \<Rightarrow> nat \<Rightarrow> nat \<Rightarrow> int option" where
  "strncmp_loop h a b i 0 = Some 0"
| "strncmp_loop h a b i (Suc n) = do {
     ca \<leftarrow> ld h a i; cb \<leftarrow> ld h b i;
     if ca \<noteq> cb \<or> ca = 0 \<or> cb = 0 then Some (uint ca - uint cb) else strncmp_loop h a b (Suc i) n }"

definition strncmp :: "heap \<Rightarrow> ptr \<Rightarrow> ptr \<Rightarrow> usize \<Rightarrow> int option" where
  "strncmp h a b n =
     (if a = b \<or> n = 0 then Some 0 else if a = None then Some (-1) else if b = None then Some 1
      else strncmp_loop h a b 0 n)"

function strcpy_loop :: "heap \<Rightarrow> ptr \<Rightarrow> ptr \<Rightarrow> nat \<Rightarrow> heap option" where
  "strcpy_loop h d s i = do {
     c \<leftarrow> ld h s i; h' \<leftarrow> st h d i c;
     if c \<noteq> 0 then strcpy_loop h' d s (Suc i) else Some h' }"
  by pat_completeness auto
termination
  by (relation "measure (\<lambda>(h, d, s, i). room h d - i)") (auto dest: st_room simp: st_room_eq)

definition strcpy :: "heap \<Rightarrow> ptr \<Rightarrow> ptr \<Rightarrow> heap option" where
  "strcpy h dst src = strcpy_loop h dst src 0"

fun strncpy_pad :: "heap \<Rightarrow> ptr \<Rightarrow> nat \<Rightarrow> nat \<Rightarrow> heap option" where
  "strncpy_pad h d i 0 = Some h"
| "strncpy_pad h d i (Suc n) = do { h' \<leftarrow> st h d i 0; strncpy_pad h' d (Suc i) n }"

fun strncpy_loop :: "heap \<Rightarrow> ptr \<Rightarrow> ptr \<Rightarrow> nat \<Rightarrow> nat \<Rightarrow> heap option" where
  "strncpy_loop h d s i 0 = Some h"
| "strncpy_loop h d s i (Suc n) = do {
     c \<leftarrow> ld h s i;
     if c \<noteq> 0 then do { h' \<leftarrow> st h d i c; strncpy_loop h' d s (Suc i) n }
     else strncpy_pad h d i (Suc n) }"

definition strncpy :: "heap \<Rightarrow> ptr \<Rightarrow> ptr \<Rightarrow> usize \<Rightarrow> heap option" where
  "strncpy h dst src n = strncpy_loop h dst src 0 n"

definition strlcpy :: "heap \<Rightarrow> ptr \<Rightarrow> ptr \<Rightarrow> usize \<Rightarrow> (usize \<times> heap) option" where
  "strlcpy h dst src sz =
     (if src = None then
        (if dst \<noteq> None \<and> sz \<noteq> 0 then do { h' \<leftarrow> st h dst 0 0; Some (0, h') } else Some (0, h))
      else do {
        slen \<leftarrow> strlen h src;
        if dst = None \<or> sz = 0 then Some (slen, h)
        else do {
          let cp = (if slen \<ge> sz then sub64 sz 1 else slen);
          h1 \<leftarrow> (if cp \<noteq> 0 then memcpy h dst src cp else Some h);
          h2 \<leftarrow> st h1 dst cp 0;
          Some (slen, h2) } })"

definition strlcat :: "heap \<Rightarrow> ptr \<Rightarrow> ptr \<Rightarrow> usize \<Rightarrow> (usize \<times> heap) option" where
  "strlcat h dst src sz =
     (if src = None then
        (if dst \<noteq> None then do { n \<leftarrow> strnlen h dst sz; Some (n, h) } else Some (0, h))
      else do {
        dlen \<leftarrow> strnlen h dst sz;
        slen \<leftarrow> strlen h src;
        if dst = None \<or> dlen \<ge> sz then Some (add64 sz slen, h)
        else do {
          let rm = sub64 sz dlen;
          let cp = (if slen \<ge> rm then sub64 rm 1 else slen);
          h1 \<leftarrow> (if cp \<noteq> 0 then memcpy h (padd dst dlen) src cp else Some h);
          h2 \<leftarrow> st h1 dst (dlen + cp) 0;
          Some (add64 dlen slen, h2) } })"

definition memzero_explicit :: "heap \<Rightarrow> ptr \<Rightarrow> usize \<Rightarrow> heap option" where
  "memzero_explicit h p n = memset_loop h p 0 0 n"

function strchr_loop :: "heap \<Rightarrow> ptr \<Rightarrow> int \<Rightarrow> nat \<Rightarrow> ptr option" where
  "strchr_loop h s c i = do {
     x \<leftarrow> ld h s i;
     if x \<noteq> 0 then
       (if x = word_of_int c then Some (padd s i) else strchr_loop h s c (Suc i))
     else Some (if c = 0 then padd s i else None) }"
  by pat_completeness auto
termination
  by (relation "measure (\<lambda>(h, s, c, i). room h s - i)") (auto dest: ld_room)

definition strchr :: "heap \<Rightarrow> ptr \<Rightarrow> int \<Rightarrow> ptr option" where
  "strchr h s c = (if s = None then Some None else strchr_loop h s c 0)"

function strstr_loop :: "heap \<Rightarrow> ptr \<Rightarrow> ptr \<Rightarrow> usize \<Rightarrow> nat \<Rightarrow> ptr option" where
  "strstr_loop h p needle nl i = do {
     c \<leftarrow> ld h p i;
     if c = 0 then Some None
     else do {
       r \<leftarrow> strncmp h (padd p i) needle nl;
       if r = 0 then Some (padd p i) else strstr_loop h p needle nl (Suc i) } }"
  by pat_completeness auto
termination
  by (relation "measure (\<lambda>(h, p, needle, nl, i). room h p - i)") (auto dest: ld_room)

definition strstr :: "heap \<Rightarrow> ptr \<Rightarrow> ptr \<Rightarrow> ptr option" where
  "strstr h haystack needle =
     (if haystack = None \<or> needle = None then Some None
      else do {
        nl \<leftarrow> strlen h needle;
        if nl = 0 then Some haystack else strstr_loop h haystack needle nl 0 })"

section \<open>Numbers\<close>

definition digit_value :: "u8 \<Rightarrow> int" where
  "digit_value c =
     (if 0x30 \<le> c \<and> c \<le> 0x39 then uint c - 0x30
      else if 0x61 \<le> c \<and> c \<le> 0x66 then uint c - 0x61 + 10
      else if 0x41 \<le> c \<and> c \<le> 0x46 then uint c - 0x41 + 10
      else -1)"

function skip_space :: "heap \<Rightarrow> ptr \<Rightarrow> nat \<Rightarrow> nat option" where
  "skip_space h s i = do {
     c \<leftarrow> ld h s i;
     if c = 0x20 \<or> c = 9 \<or> c = 10 \<or> c = 13 then skip_space h s (Suc i) else Some i }"
  by pat_completeness auto
termination
  by (relation "measure (\<lambda>(h, s, i). room h s - i)") (auto dest: ld_room)

function skip_digits :: "heap \<Rightarrow> ptr \<Rightarrow> int \<Rightarrow> nat \<Rightarrow> nat option" where
  "skip_digits h s base i = do {
     c \<leftarrow> ld h s i;
     if 0 \<le> digit_value c \<and> digit_value c < base then skip_digits h s base (Suc i) else Some i }"
  by pat_completeness auto
termination
  by (relation "measure (\<lambda>(h, s, base, i). room h s - i)") (auto dest: ld_room)

text \<open>
  The digit loop of \<^verbatim>\<open>strtou64\<close>: its result is the value, whether anything was consumed
  (\<^verbatim>\<open>any || overflow\<close>) and the index where it stopped.
\<close>

function strtou64_loop :: "heap \<Rightarrow> ptr \<Rightarrow> int \<Rightarrow> nat \<Rightarrow> bool \<Rightarrow> nat \<Rightarrow> (nat \<times> bool \<times> nat) option" where
  "strtou64_loop h s base val anyd i = do {
     c \<leftarrow> ld h s i;
     let d = digit_value c;
     if d < 0 \<or> base \<le> d then Some (val, anyd, i)
     else if val > (U64_MAX - nat d) div nat base then do {
       j \<leftarrow> skip_digits h s base (Suc i);
       Some (U64_MAX, True, j) }
     else strtou64_loop h s base (add64 (mul64 val (nat base)) (nat d)) True (Suc i) }"
  by pat_completeness auto
termination
  by (relation "measure (\<lambda>(h, s, base, val, anyd, i). room h s - i)") (auto dest: ld_room)

text \<open>The prefix rule for base 0: the resolved base and the index of the first digit.\<close>

definition strtou64_prefix :: "heap \<Rightarrow> ptr \<Rightarrow> int \<Rightarrow> nat \<Rightarrow> (int \<times> nat) option" where
  "strtou64_prefix h s base i =
     (if base \<noteq> 0 then Some (base, i)
      else do {
        c \<leftarrow> ld h s i;
        if c = 0x30 then do {
          x \<leftarrow> ld h s (Suc i);
          if x = 0x78 \<or> x = 0x58 then Some (16, i + 2) else Some (8, Suc i) }
        else Some (10, i) })"

definition strtou64 :: "heap \<Rightarrow> ptr \<Rightarrow> int \<Rightarrow> (nat \<times> ptr) option" where
  "strtou64 h s base =
     (if s = None then Some (0, s)
      else if base \<noteq> 0 \<and> (base < 2 \<or> base > 16) then Some (0, s)
      else do {
        i \<leftarrow> skip_space h s 0;
        (b, i') \<leftarrow> strtou64_prefix h s base i;
        (val, consumed, j) \<leftarrow> strtou64_loop h s b 0 False i';
        Some (val, if consumed then padd s j else s) })"

declare strlen_loop.simps [simp del] strnlen_loop.simps [simp del] strcmp_loop.simps [simp del]
  strcpy_loop.simps [simp del] strchr_loop.simps [simp del] strstr_loop.simps [simp del]
  skip_space.simps [simp del] skip_digits.simps [simp del] strtou64_loop.simps [simp del]

section \<open>Block copies\<close>

text \<open>\<open>blit o' d xs\<close> is the object \<open>o'\<close> with \<open>xs\<close> written at offset \<open>d\<close>.\<close>

definition blit :: "bytes \<Rightarrow> nat \<Rightarrow> bytes \<Rightarrow> bytes" where
  "blit ob d xs = take d ob @ xs @ drop (d + length xs) ob"

text \<open>
  \<open>copy_in\<close> is \<open>memcpy\<close> into one object from bytes that lie outside it (lemma \<open>memcpy_copy_in\<close>).
\<close>

definition copy_in :: "bytes \<Rightarrow> nat \<Rightarrow> bytes \<Rightarrow> bytes option" where
  "copy_in ob d xs = (if d + length xs \<le> length ob then Some (blit ob d xs) else None)"

lemma ld_Some [simp]: "ld h (Some (b, off)) i = arr_get (h b) (off + i)"
  by (simp add: ld_def)

lemma st_Some [simp]: "off + i < length (h b) \<Longrightarrow> st h (Some (b, off)) i v = Some (h(b := (h b)[off + i := v]))"
  by (simp add: st_def)

lemma length_blit [simp]: "d + length xs \<le> length ob \<Longrightarrow> length (blit ob d xs) = length ob"
  by (simp add: blit_def)

lemma blit_nth_other:
  "d + length xs \<le> length ob \<Longrightarrow> k < d \<or> d + length xs \<le> k \<Longrightarrow> k < length ob \<Longrightarrow> blit ob d xs ! k = ob ! k"
  by (auto simp: blit_def nth_append)

lemma blit_slice: "d + length xs \<le> length ob \<Longrightarrow> take (length xs) (drop d (blit ob d xs)) = xs"
  by (simp add: blit_def)

lemma take_blit: "d \<le> length b \<Longrightarrow> take (d + length x) (blit b d x) = take d b @ x"
  by (simp add: blit_def)

lemma copy_up_spec:
  assumes "b \<noteq> c \<or> d \<le> s"
  shows "d + i + n \<le> length (h b) \<Longrightarrow> s + i + n \<le> length (h c) \<Longrightarrow>
    copy_up h (Some (b, d)) (Some (c, s)) i n = Some (h(b := blit (h b) (d + i) (take n (drop (s + i) (h c)))))"
proof (induction n arbitrary: h i)
  case 0
  then show ?case by (simp add: blit_def)
next
  case (Suc n)
  let ?h = "h(b := (h b)[d + i := h c ! (s + i)])"
  have len: "length (?h b) = length (h b)" "length (?h c) = length (h c)" by (simp_all add: fun_upd_def)
  have IH: "copy_up ?h (Some (b, d)) (Some (c, s)) (Suc i) n =
      Some (?h(b := blit (?h b) (d + Suc i) (take n (drop (s + Suc i) (?h c)))))"
    using Suc.prems len by (intro Suc.IH) (simp_all del: fun_upd_apply)
  have same: "drop (s + Suc i) (?h c) = drop (s + Suc i) (h c)"
    using assms by auto
  have cons: "take (Suc n) (drop (s + i) (h c)) = h c ! (s + i) # take n (drop (s + Suc i) (h c))"
    using Suc.prems by (simp add: Cons_nth_drop_Suc [symmetric])
  have eq: "blit (?h b) (d + Suc i) (take n (drop (s + Suc i) (h c))) = blit (h b) (d + i) (take (Suc n) (drop (s + i) (h c)))"
    using Suc.prems unfolding cons by (simp add: blit_def take_Suc_conv_app_nth)
  have "copy_up h (Some (b, d)) (Some (c, s)) i (Suc n) = copy_up ?h (Some (b, d)) (Some (c, s)) (Suc i) n"
    using Suc.prems by simp
  then show ?case unfolding IH same eq fun_upd_upd .
qed

lemma memcpy_copy_in:
  assumes "b \<noteq> c" and "s + n \<le> length (h c)" and "copy_in (h b) d (take n (drop s (h c))) = Some ob'"
  shows "memcpy h (Some (b, d)) (Some (c, s)) n = Some (h(b := ob'))"
  using assms copy_up_spec [of b c d s 0 n h] by (auto simp: memcpy_def copy_in_def split: if_splits)

lemma copy_in_Some [simp]: "d + length xs \<le> length ob \<Longrightarrow> copy_in ob d xs = Some (blit ob d xs)"
  by (simp add: copy_in_def)

lemma copy_in_eq_Some [arr]: "copy_in ob d xs = Some ob' \<longleftrightarrow> d + length xs \<le> length ob \<and> ob' = blit ob d xs"
  by (auto simp: copy_in_def)

lemma copy_down_spec:
  assumes "b \<noteq> c \<or> s \<le> d"
  shows "d + n \<le> length (h b) \<Longrightarrow> s + n \<le> length (h c) \<Longrightarrow>
    copy_down h (Some (b, d)) (Some (c, s)) n = Some (h(b := blit (h b) d (take n (drop s (h c)))))"
proof (induction n arbitrary: h)
  case 0
  then show ?case by (simp add: blit_def)
next
  case (Suc n)
  let ?h = "h(b := (h b)[d + n := h c ! (s + n)])"
  have len: "length (?h b) = length (h b)" "length (?h c) = length (h c)" by (simp_all add: fun_upd_def)
  have IH: "copy_down ?h (Some (b, d)) (Some (c, s)) n =
      Some (?h(b := blit (?h b) d (take n (drop s (?h c)))))"
    using Suc.prems len by (intro Suc.IH) (simp_all del: fun_upd_apply)
  have same: "take n (drop s (?h c)) = take n (drop s (h c))"
    using assms by (auto simp: take_drop)
  have snoc: "take (Suc n) (drop s (h c)) = take n (drop s (h c)) @ [h c ! (s + n)]"
    using Suc.prems by (simp add: take_Suc_conv_app_nth)
  have eq: "blit (?h b) d (take n (drop s (h c))) = blit (h b) d (take (Suc n) (drop s (h c)))"
    using Suc.prems unfolding snoc by (simp add: blit_def Cons_nth_drop_Suc [symmetric])
  have "copy_down h (Some (b, d)) (Some (c, s)) (Suc n) = copy_down ?h (Some (b, d)) (Some (c, s)) n"
    using Suc.prems by simp
  then show ?case unfolding IH same eq fun_upd_upd .
qed

lemma blit_self: "d + n \<le> length ob \<Longrightarrow> blit ob d (take n (drop d ob)) = ob"
  by (simp add: blit_def) (metis add.commute append_take_drop_id drop_drop)

lemma memmove_spec:
  assumes "d + n \<le> length (h b)" "s + n \<le> length (h c)"
  shows "memmove h (Some (b, d)) (Some (c, s)) n = Some (h(b := blit (h b) d (take n (drop s (h c)))))"
proof -
  consider "(b, d) = (c, s)" | "n = 0" | "(b, d) \<noteq> (c, s)" "n \<noteq> 0" by blast
  then show ?thesis
  proof cases
    case 1
    then show ?thesis using assms by (simp add: memmove_def blit_self)
  next
    case 2
    then show ?thesis by (simp add: memmove_def blit_def)
  next
    case 3
    show ?thesis
    proof (cases "ptr_less (Some (b, d)) (Some (c, s))")
      case True
      then have "b \<noteq> c \<or> d \<le> s" by (auto simp: ptr_less_def)
      from copy_up_spec [OF this, of 0 n] True 3 assms show ?thesis by (auto simp: memmove_def)
    next
      case False
      then have "b \<noteq> c \<or> s \<le> d" by (auto simp: ptr_less_def)
      from copy_down_spec [OF this, of n] False 3 assms show ?thesis by (auto simp: memmove_def)
    qed
  qed
qed

section \<open>C strings\<close>

definition cstr :: "heap \<Rightarrow> ptr \<Rightarrow> bytes \<Rightarrow> bool" where
  "cstr h p xs = (0 \<notin> set xs \<and> (\<exists>b off rest. p = Some (b, off) \<and> drop off (h b) = xs @ 0 # rest))"

lemma drop_arr_get: "drop off ob = ys \<Longrightarrow> i < length ys \<Longrightarrow> arr_get ob (off + i) = Some (ys ! i)"
  by (auto simp: arr_get_def)

lemma cstr_ld:
  assumes "cstr h p xs" "i \<le> length xs"
  shows "ld h p i = Some (if i = length xs then 0 else xs ! i)"
  using assms by (auto simp: cstr_def drop_arr_get nth_append)

lemma cstr_not_null: "cstr h p xs \<Longrightarrow> p \<noteq> None"
  by (auto simp: cstr_def)

lemma cstr_nonzero: "cstr h p xs \<Longrightarrow> i < length xs \<Longrightarrow> xs ! i \<noteq> 0"
  by (auto simp: cstr_def in_set_conv_nth)

lemma strlen_loop_cstr: "cstr h p xs \<Longrightarrow> n \<le> length xs \<Longrightarrow> strlen_loop h p n = Some (length xs)"
proof (induction "length xs - n" arbitrary: n)
  case 0
  then show ?case by (simp add: strlen_loop.simps cstr_ld)
next
  case (Suc d)
  then have "n < length xs" by simp
  then show ?case
    using Suc by (simp add: strlen_loop.simps [of h p n] cstr_ld cstr_nonzero)
qed

lemma strlen_cstr: "cstr h p xs \<Longrightarrow> strlen h p = Some (length xs)"
  by (simp add: strlen_def cstr_not_null strlen_loop_cstr)

lemma strnlen_loop_cstr: "cstr h p xs \<Longrightarrow> n \<le> min mx (length xs) \<Longrightarrow> strnlen_loop h p mx n = Some (min mx (length xs))"
proof (induction "min mx (length xs) - n" arbitrary: n)
  case 0
  then have "n = min mx (length xs)" by simp
  then show ?case using "0.prems"(1)
    by (subst strnlen_loop.simps) (auto simp: cstr_ld min_def)
next
  case (Suc d)
  then have "n < length xs" "n < mx" by simp_all
  then show ?case
    using Suc by (simp add: strnlen_loop.simps [of h p mx n] cstr_ld cstr_nonzero)
qed

lemma strnlen_cstr: "cstr h p xs \<Longrightarrow> strnlen h p mx = Some (min mx (length xs))"
  by (simp add: strnlen_def cstr_not_null strnlen_loop_cstr)

lemma strcmp_loop_cstr:
  assumes "cstr h a xs" "cstr h b ys"
  shows "n \<le> length xs \<Longrightarrow> n \<le> length ys \<Longrightarrow> take n xs = take n ys \<Longrightarrow>
    \<exists>r. strcmp_loop h a b n = Some r \<and> (r = 0 \<longleftrightarrow> xs = ys)"
proof (induction "length xs - n" arbitrary: n)
  case 0
  then have n: "n = length xs" by simp
  have "ys ! n \<noteq> 0" if "n < length ys" using cstr_nonzero [OF assms(2) that] .
  moreover have "n < length ys" if "n \<noteq> length ys" using that 0 by simp
  ultimately show ?case
    using 0 n assms by (auto simp: strcmp_loop.simps [of h a b "length xs"] cstr_ld uint_0_iff)
next
  case (Suc d)
  then have n: "n < length xs" by simp
  show ?case
  proof (cases "n < length ys \<and> xs ! n = ys ! n")
    case True
    then have "take (Suc n) xs = take (Suc n) ys" using Suc.prems n by (simp add: take_Suc_conv_app_nth)
    then show ?thesis
      using Suc.hyps Suc.prems n True assms
      by (simp add: strcmp_loop.simps [of h a b n] cstr_ld cstr_nonzero)
  next
    case False
    then have "xs \<noteq> ys" "n = length ys \<or> ys ! n \<noteq> xs ! n" using n Suc.prems by auto
    then show ?thesis
      using n Suc.prems assms cstr_nonzero [OF assms(1) n]
      by (auto simp: strcmp_loop.simps [of h a b n] cstr_ld uint_0_iff word_uint_eq_iff [symmetric])
  qed
qed

lemma cstr_unique: "cstr h p xs \<Longrightarrow> cstr h p ys \<Longrightarrow> xs = ys"
  using strlen_cstr [of h p xs] strlen_cstr [of h p ys] by (auto simp: cstr_def append_eq_append_conv)

lemma strcmp_cstr:
  assumes "cstr h a xs" "cstr h b ys"
  shows "\<exists>r. strcmp h a b = Some r \<and> (r = 0 \<longleftrightarrow> xs = ys)"
proof (cases "a = b")
  case True
  then show ?thesis using cstr_unique assms by (auto simp: strcmp_def)
next
  case False
  then show ?thesis
    using strcmp_loop_cstr [OF assms, of 0] cstr_not_null assms by (auto simp: strcmp_def)
qed

lemma strncmp_loop_cstr:
  assumes "cstr h a xs" "cstr h b ys"
  shows "i \<le> length xs \<Longrightarrow> i \<le> length ys \<Longrightarrow> take i xs = take i ys \<Longrightarrow>
    \<exists>r. strncmp_loop h a b i n = Some r \<and> (r = 0 \<longleftrightarrow> take (i + n) xs = take (i + n) ys)"
proof (induction n arbitrary: i)
  case (Suc n)
  note ld = cstr_ld [OF assms(1) Suc.prems(1)] cstr_ld [OF assms(2) Suc.prems(2)]
  consider (step) "i < length xs" "i < length ys" "xs ! i = ys ! i" | (both) "i = length xs" "i = length ys"
    | (diff) "(i = length xs) \<noteq> (i = length ys) \<or> i < length xs \<and> i < length ys \<and> xs ! i \<noteq> ys ! i"
    using Suc.prems(1,2) by linarith
  then show ?case
  proof cases
    case step
    then have "take (Suc i) xs = take (Suc i) ys" using Suc.prems(3) by (simp add: take_Suc_conv_app_nth)
    then show ?thesis using Suc.IH [of "Suc i"] step ld cstr_nonzero [OF assms(1) step(1)] by auto
  next
    case both
    then show ?thesis using ld Suc.prems(3) by simp
  next
    case diff
    have "(take (i + Suc n) xs ! i = take (i + Suc n) ys ! i) = (xs ! i = ys ! i)" by simp
    moreover have "i < length (take (i + Suc n) xs) \<longleftrightarrow> i < length xs" "i < length (take (i + Suc n) ys) \<longleftrightarrow> i < length ys" by auto
    ultimately have ne: "take (i + Suc n) xs \<noteq> take (i + Suc n) ys" using diff Suc.prems(1,2) by (metis le_neq_implies_less less_irrefl)
    have "(if i = length xs then 0 else xs ! i) \<noteq> (if i = length ys then 0 else ys ! i)"
      using diff Suc.prems(1,2) cstr_nonzero [OF assms(1), of i] cstr_nonzero [OF assms(2), of i]
      by (auto simp: le_less)
    then have "strncmp_loop h a b i (Suc n) =
        Some (uint (if i = length xs then 0 else xs ! i) - uint (if i = length ys then 0 else ys ! i))"
      by (simp only: strncmp_loop.simps ld bind.bind_lunit) simp
    moreover have "uint (if i = length xs then 0 else xs ! i) - uint (if i = length ys then 0 else ys ! i) \<noteq> 0"
      using \<open>(if i = length xs then 0 else xs ! i) \<noteq> (if i = length ys then 0 else ys ! i)\<close>
      by (simp only: word_uint_eq_iff right_minus_eq not_False_eq_True)
    ultimately show ?thesis using ne by blast
  qed
qed simp

lemma strncmp_cstr:
  assumes "cstr h a xs" "cstr h b ys"
  shows "\<exists>r. strncmp h a b n = Some r \<and> (r = 0 \<longleftrightarrow> take n xs = take n ys)"
proof (cases "a = b \<or> n = 0")
  case True
  then show ?thesis using cstr_unique assms by (auto simp: strncmp_def)
next
  case False
  then show ?thesis
    using strncmp_loop_cstr [OF assms, of 0 n] cstr_not_null assms by (auto simp: strncmp_def)
qed

lemma cstr_padd: "cstr h p xs \<Longrightarrow> i \<le> length xs \<Longrightarrow> cstr h (padd p i) (drop i xs)"
  by (auto simp: cstr_def padd_def add.commute [of _ i] drop_drop [symmetric] simp del: drop_drop dest: in_set_dropD)

text \<open>The position \<open>r\<close> is the first one, from \<open>i\<close> on, where \<open>ys\<close> begins.\<close>

definition first_match :: "bytes \<Rightarrow> bytes \<Rightarrow> nat \<Rightarrow> nat option \<Rightarrow> bool" where
  "first_match xs ys i r \<longleftrightarrow> (case r of
     None \<Rightarrow> \<forall>k \<ge> i. k \<le> length xs \<longrightarrow> \<not> prefix ys (drop k xs)
   | Some j \<Rightarrow> i \<le> j \<and> j \<le> length xs \<and> prefix ys (drop j xs) \<and> (\<forall>k. i \<le> k \<and> k < j \<longrightarrow> \<not> prefix ys (drop k xs)))"

lemma first_match_Suc:
  assumes "first_match xs ys (Suc i) r" and "\<not> prefix ys (drop i xs)"
  shows "first_match xs ys i r"
proof -
  have "k = i \<or> Suc i \<le> k" if "i \<le> k" for k using that by linarith
  then show ?thesis using assms unfolding first_match_def
    by (cases r) (simp, blast, simp, metis Suc_leD)
qed

lemma strstr_loop_cstr:
  assumes "cstr h p xs" "cstr h q ys" "ys \<noteq> []"
  shows "i \<le> length xs \<Longrightarrow>
    \<exists>r. strstr_loop h p q (length ys) i = Some (Option.bind r (padd p)) \<and> first_match xs ys i r"
proof (induction "length xs - i" arbitrary: i)
  case 0
  then have "strstr_loop h p q (length ys) i = Some None"
    using cstr_ld [OF assms(1), of i] by (subst strstr_loop.simps) simp
  then show ?case using 0 assms(3) by (intro exI [of _ None]) (simp add: first_match_def)
next
  case (Suc d)
  then have i: "i < length xs" by simp
  have c: "ld h p i = Some (xs ! i)" "xs ! i \<noteq> 0"
    using cstr_ld [OF assms(1), of i] cstr_nonzero [OF assms(1) i] i by auto
  obtain r where r: "strncmp h (padd p i) q (length ys) = Some r"
      "r = 0 \<longleftrightarrow> take (length ys) (drop i xs) = take (length ys) ys"
    using strncmp_cstr [OF cstr_padd [OF assms(1) Suc.prems] assms(2)] by blast
  have pf: "take (length ys) (drop i xs) = take (length ys) ys \<longleftrightarrow> prefix ys (drop i xs)"
    by (auto simp: prefix_def) (metis append_take_drop_id)
  show ?case
  proof (cases "r = 0")
    case True
    then show ?thesis using c r pf i
      by (subst strstr_loop.simps) (intro exI [of _ "Some i"], auto simp: first_match_def)
  next
    case False
    obtain r' where r': "strstr_loop h p q (length ys) (Suc i) = Some (Option.bind r' (padd p))" "first_match xs ys (Suc i) r'"
      using Suc.hyps(1) [of "Suc i"] Suc.hyps(2) i by (metis Suc_diff_Suc Suc_leI nat.inject)
    have "first_match xs ys i r'" using first_match_Suc [OF r'(2)] False r(2) pf by blast
    then show ?thesis using c r(1) False r'(1) by (subst strstr_loop.simps) auto
  qed
qed

lemma strstr_cstr:
  assumes "cstr h p xs" "cstr h q ys"
  shows "\<exists>r. strstr h p q = Some (Option.bind r (padd p)) \<and> first_match xs ys 0 r"
proof (cases "ys = []")
  case True
  have "padd p 0 = p" by (cases p) (auto simp: padd_def)
  then show ?thesis using True assms cstr_not_null strlen_cstr [OF assms(2)]
    by (intro exI [of _ "Some 0"]) (auto simp: strstr_def first_match_def)
next
  case False
  then show ?thesis using strstr_loop_cstr [OF assms False, of 0] assms cstr_not_null strlen_cstr [OF assms(2)]
    by (auto simp: strstr_def)
qed

lemma strstr_sublist:
  assumes "cstr h p xs" "cstr h q ys"
  shows "\<exists>r. strstr h p q = Some r \<and> (r \<noteq> None \<longleftrightarrow> sublist ys xs)"
proof -
  obtain r where r: "strstr h p q = Some (Option.bind r (padd p))" "first_match xs ys 0 r"
    using strstr_cstr [OF assms] by blast
  have "sublist ys xs \<longleftrightarrow> (\<exists>k \<le> length xs. prefix ys (drop k xs))"
  proof
    assume "sublist ys xs"
    then obtain ps ss where "xs = ps @ ys @ ss" by (auto simp: sublist_def)
    then show "\<exists>k \<le> length xs. prefix ys (drop k xs)" by (intro exI [of _ "length ps"]) simp
  next
    assume "\<exists>k \<le> length xs. prefix ys (drop k xs)"
    then show "sublist ys xs" using prefix_imp_sublist sublist_drop sublist_order.order_trans by blast
  qed
  then have "sublist ys xs \<longleftrightarrow> r \<noteq> None"
    using r(2) by (cases r) (auto simp: first_match_def)
  moreover obtain b off where "p = Some (b, off)" using assms(1) by (auto simp: cstr_def)
  ultimately show ?thesis using r(1) by (cases r) (auto simp: padd_def)
qed

lemma strlcpy_spec:
  assumes "cstr h (Some (c, s)) xs" "b \<noteq> c" "d + sz \<le> length (h b)" "0 < sz" "sz \<le> U64_MAX"
  shows "strlcpy h (Some (b, d)) (Some (c, s)) sz = Some (length xs, h(b := blit (h b) d (take (sz - 1) xs @ [0])))"
proof -
  obtain rest where rest: "drop s (h c) = xs @ 0 # rest" using assms(1) by (auto simp: cstr_def)
  let ?n = "min (sz - 1) (length xs)"
  have n: "(if length xs \<ge> sz then sub64 sz 1 else length xs) = ?n"
    using assms(4,5) by (simp add: min_def) linarith
  have "length (drop s (h c)) = length xs + Suc (length rest)" using rest by simp
  then have bnd: "d + ?n < length (h b)" "s + ?n \<le> length (h c)" using assms(3,4) by auto
  let ?h1 = "h(b := blit (h b) d (take ?n xs))"
  have t: "take ?n (drop s (h c)) = take ?n xs" using rest by simp
  have mc: "(if ?n \<noteq> 0 then memcpy h (Some (b, d)) (Some (c, s)) ?n else Some h) = Some ?h1"
  proof (cases "?n = 0")
    case True
    then show ?thesis unfolding True by (simp add: blit_def)
  next
    case False
    then show ?thesis
      using copy_up_spec [of b c d s 0 ?n h] assms(2) bnd t by (simp add: memcpy_def del: min_0R)
  qed
  have "st ?h1 (Some (b, d)) ?n 0 = Some (?h1(b := (blit (h b) d (take ?n xs))[d + ?n := 0]))"
    using bnd by simp
  moreover have "(blit (h b) d (take ?n xs))[d + ?n := 0] = blit (h b) d (take (sz - 1) xs @ [0])"
    using bnd unfolding take_min_length
    by (simp add: blit_def list_update_append min.commute Cons_nth_drop_Suc [symmetric])
  moreover have "strlcpy h (Some (b, d)) (Some (c, s)) sz =
      Option.bind (if ?n \<noteq> 0 then memcpy h (Some (b, d)) (Some (c, s)) ?n else Some h)
        (\<lambda>h1. Option.bind (st h1 (Some (b, d)) ?n 0) (\<lambda>h2. Some (length xs, h2)))"
    using strlen_cstr [OF assms(1)] assms(4) by (simp add: strlcpy_def Let_def n del: One_nat_def)
  ultimately show ?thesis unfolding mc by simp
qed

section \<open>Number parsing\<close>

definition is_digit :: "int \<Rightarrow> u8 \<Rightarrow> bool" where
  "is_digit base c = (0 \<le> digit_value c \<and> digit_value c < base)"

definition is_space :: "u8 \<Rightarrow> bool" where
  "is_space c = (c = 0x20 \<or> c = 9 \<or> c = 10 \<or> c = 13)"

fun digits_value :: "nat \<Rightarrow> nat \<Rightarrow> bytes \<Rightarrow> nat" where
  "digits_value base v [] = v"
| "digits_value base v (c # cs) = digits_value base (v * base + nat (digit_value c)) cs"

text \<open>\<open>at h p i xs\<close>: the bytes \<open>xs\<close> are stored from index \<open>i\<close> of the object at \<open>p\<close>.\<close>

definition bytes_at :: "heap \<Rightarrow> ptr \<Rightarrow> nat \<Rightarrow> bytes \<Rightarrow> bool" where
  "bytes_at h p i xs = (\<forall>k < length xs. ld h p (i + k) = Some (xs ! k))"

lemma bytes_at_Cons [simp]: "bytes_at h p i (x # xs) \<longleftrightarrow> ld h p i = Some x \<and> bytes_at h p (Suc i) xs"
  by (auto simp: bytes_at_def nth_Cons split: nat.splits)

lemma bytes_at_Nil [simp]: "bytes_at h p i []"
  by (simp add: bytes_at_def)

lemma bytes_at_append: "bytes_at h p i (xs @ ys) \<longleftrightarrow> bytes_at h p i xs \<and> bytes_at h p (i + length xs) ys"
  by (induction xs arbitrary: i) simp_all

lemma skip_space_spec:
  "bytes_at h p i (ws @ [c]) \<Longrightarrow> \<forall>w \<in> set ws. is_space w \<Longrightarrow> \<not> is_space c \<Longrightarrow> skip_space h p i = Some (i + length ws)"
  by (induction ws arbitrary: i) (auto simp: skip_space.simps [of h p] is_space_def)

lemma skip_digits_spec:
  "bytes_at h p i (ds @ [c]) \<Longrightarrow> \<forall>d \<in> set ds. is_digit b d \<Longrightarrow> \<not> is_digit b c \<Longrightarrow> skip_digits h p b i = Some (i + length ds)"
  by (induction ds arbitrary: i) (auto simp: skip_digits.simps [of h p b] is_digit_def)

lemma digits_value_mono: "0 < base \<Longrightarrow> v \<le> digits_value base v cs"
proof (induction cs arbitrary: v)
  case (Cons c cs)
  have "v \<le> v * base + nat (digit_value c)" using Cons.prems by (simp add: trans_le_add1)
  also have "\<dots> \<le> digits_value base (v * base + nat (digit_value c)) cs" using Cons by blast
  finally show ?case by simp
qed simp

lemma overflow_test:
  assumes "0 < base" "d \<le> U64_MAX"
  shows "(U64_MAX - d) div base < v \<longleftrightarrow> U64_MAX < v * base + d"
proof -
  have "v \<le> (U64_MAX - d) div base \<longleftrightarrow> v * base \<le> U64_MAX - d"
    using assms(1) by (rule less_eq_div_iff_mult_less_eq)
  then show ?thesis using assms(2) by (simp add: not_le [symmetric]) linarith
qed

lemma strtou64_loop_spec:
  assumes "2 \<le> b" "b \<le> 16" "\<not> is_digit b c"
  shows "bytes_at h p i (ds @ [c]) \<Longrightarrow> \<forall>d \<in> set ds. is_digit b d \<Longrightarrow> v \<le> U64_MAX \<Longrightarrow>
    strtou64_loop h p b v a i =
      Some (min (digits_value (nat b) v ds) U64_MAX, a \<or> ds \<noteq> [], i + length ds)"
proof (induction ds arbitrary: i v a)
  case Nil
  then show ?case
    using assms(3) by (auto simp: strtou64_loop.simps [of h p b] is_digit_def Let_def)
next
  case (Cons x ds)
  have x: "0 \<le> digit_value x" "digit_value x < b" "ld h p i = Some x"
    using Cons.prems by (simp_all add: is_digit_def)
  have d: "nat (digit_value x) \<le> U64_MAX" "0 < nat b" using x assms by auto
  let ?v = "v * nat b + nat (digit_value x)"
  note test = overflow_test [OF d(2,1), of v]
  show ?case
  proof (cases "U64_MAX < ?v")
    case True
    then have "U64_MAX \<le> digits_value (nat b) v (x # ds)"
      using digits_value_mono [OF d(2), of ?v ds] by simp
    moreover have "skip_digits h p b (Suc i) = Some (Suc i + length ds)"
      using Cons.prems assms(3) by (intro skip_digits_spec) auto
    ultimately show ?thesis
      using True test x by (simp add: strtou64_loop.simps [of h p b v a i] Let_def min_def)
  next
    case False
    then have "add64 (mul64 v (nat b)) (nat (digit_value x)) = ?v" by simp
    moreover have "strtou64_loop h p b ?v True (Suc i) =
        Some (min (digits_value (nat b) ?v ds) U64_MAX, True, Suc i + length ds)"
      using Cons.IH [of "Suc i" ?v True] Cons.prems False by simp
    ultimately show ?thesis
      using False test x by (simp add: strtou64_loop.simps [of h p b v a i] Let_def)
  qed
qed

lemma digit_not_space: "is_digit b c \<Longrightarrow> b \<le> 16 \<Longrightarrow> \<not> is_space c"
  by (auto simp: is_digit_def is_space_def digit_value_def)

lemma strtou64_spec:
  assumes "2 \<le> base" and "base \<le> 16"
    and "bytes_at h (Some p) 0 (ws @ ds @ [c])"
    and "\<forall>w \<in> set ws. is_space w" and "ds \<noteq> []" and "\<forall>d \<in> set ds. is_digit base d" and "\<not> is_digit base c"
  shows "strtou64 h (Some p) base =
     Some (min (digits_value (nat base) 0 ds) U64_MAX, padd (Some p) (length ws + length ds))"
proof -
  obtain d ds' where ds: "ds = d # ds'" using assms(5) by (cases ds) auto
  have at: "bytes_at h (Some p) 0 (ws @ [d])" "bytes_at h (Some p) (length ws) (ds @ [c])"
    using assms(3) ds by (simp_all add: bytes_at_append)
  have "\<not> is_space d" using assms(2,6) ds digit_not_space by auto
  then have "skip_space h (Some p) 0 = Some (length ws)"
    using skip_space_spec [OF at(1) assms(4)] by simp
  moreover have "strtou64_loop h (Some p) base 0 False (length ws) =
      Some (min (digits_value (nat base) 0 ds) U64_MAX, True, length ws + length ds)"
    using strtou64_loop_spec [OF assms(1,2,7) at(2) assms(6), of 0 False] ds by simp
  ultimately show ?thesis
    using assms(1,2) by (simp add: strtou64_def strtou64_prefix_def)
qed

section \<open>Properties\<close>

text \<open>
  C28: \<^verbatim>\<open>memmove\<close> is overlap-safe. For any two ranges inside their objects, also when they
  overlap in one object, the destination range receives the bytes the source range held
  before the call, every other byte of the heap is unchanged, and no access leaves an object.
\<close>

theorem memmove_overlap_safe:
  assumes "d + n \<le> length (h b)" and "s + n \<le> length (h c)"
  shows "\<exists>h'. memmove h (Some (b, d)) (Some (c, s)) n = Some h' \<and>
           take n (drop d (h' b)) = take n (drop s (h c)) \<and>
           (\<forall>k < length (h b). k < d \<or> d + n \<le> k \<longrightarrow> h' b ! k = h b ! k) \<and> length (h' b) = length (h b) \<and>
           (\<forall>e. e \<noteq> b \<longrightarrow> h' e = h e)"
proof -
  let ?xs = "take n (drop s (h c))"
  have "length ?xs = n" using assms(2) by simp
  then show ?thesis
    using memmove_spec [OF assms] assms(1) blit_slice [of d ?xs "h b"] blit_nth_other [of d ?xs "h b"]
      length_blit [of d ?xs "h b"] by simp
qed

theorem memmove_overlap_safe_witness:
  "\<exists>h'. memmove (\<lambda>_. [1, 2, 3, 4, 5]) (Some (0, 1)) (Some (0, 0)) 3 = Some h' \<and> take 3 (drop 1 (h' 0)) = [1, 2, 3]"
  using memmove_overlap_safe [of 1 3 "\<lambda>_. [1, 2, 3, 4, 5]" 0 0 0] by auto

text \<open>
  \<^verbatim>\<open>strlcpy\<close> truncates safely. Copying a C string into a distinct buffer of \<open>sz\<close> bytes
  returns the source length, stores its first \<open>sz - 1\<close> bytes and a terminating NUL, changes
  nothing after that NUL or outside the buffer, and never leaves either object.
\<close>

theorem strlcpy_truncates:
  assumes "cstr h (Some (c, s)) xs" and "b \<noteq> c" and "d + sz \<le> length (h b)" and "0 < sz" and "sz \<le> U64_MAX"
  shows "\<exists>h'. strlcpy h (Some (b, d)) (Some (c, s)) sz = Some (length xs, h') \<and>
           cstr h' (Some (b, d)) (take (sz - 1) xs) \<and>
           (\<forall>k < length (h b). k < d \<or> d + min sz (length xs + 1) \<le> k \<longrightarrow> h' b ! k = h b ! k) \<and>
           (\<forall>e. e \<noteq> b \<longrightarrow> h' e = h e)"
proof -
  let ?h = "h(b := blit (h b) d (take (sz - 1) xs @ [0]))"
  let ?n = "min (sz - 1) (length xs)"
  have "drop d (?h b) = take (sz - 1) xs @ 0 # drop (d + ?n + 1) (h b)"
    using assms(3,4) by (simp add: blit_def min.commute)
  moreover have "0 \<notin> set (take (sz - 1) xs)"
    using assms(1) by (auto simp: cstr_def dest: in_set_takeD)
  ultimately have "cstr ?h (Some (b, d)) (take (sz - 1) xs)" by (auto simp: cstr_def)
  moreover have "?h b ! k = h b ! k" if "k < length (h b)" "k < d \<or> d + min sz (length xs + 1) \<le> k" for k
  proof -
    have len: "length (take (sz - 1) xs @ [0]) = min sz (length xs + 1)" using assms(4) by simp
    then have "d + length (take (sz - 1) xs @ [0]) \<le> length (h b)" using assms(3) by simp
    from blit_nth_other [OF this, of k] that show ?thesis unfolding len by (simp only: fun_upd_same)
  qed
  ultimately show ?thesis using strlcpy_spec [OF assms] by auto
qed

theorem strlcpy_truncates_witness:
  "\<exists>h'. strlcpy (\<lambda>b. if b = 0 then [9, 9, 9, 9] else [65, 66, 67, 0]) (Some (0, 0)) (Some (1, 0)) 3 = Some (3, h') \<and>
        cstr h' (Some (0, 0)) [65, 66]"
proof -
  let ?h = "\<lambda>b :: nat. if b = 0 then [9, 9, 9, 9] else [65, 66, 67, 0] :: bytes"
  have "cstr ?h (Some (1, 0)) [65, 66, 67]" by (auto simp: cstr_def)
  from strlcpy_truncates [OF this, of 0 0 3] show ?thesis by auto
qed



text \<open>
  string comparison and search. On two C strings \<^verbatim>\<open>strcmp\<close>, \<^verbatim>\<open>strncmp\<close> and \<^verbatim>\<open>strstr\<close>
  return without leaving either object: the first returns zero exactly when the strings are
  equal, the second exactly when their first \<open>n\<close> bytes are, and the third returns the first
  position at which the needle occurs, or null when it occurs nowhere.
\<close>

theorem compare_and_search:
  assumes "cstr h a xs" and "cstr h b ys"
  shows "(\<exists>r. strcmp h a b = Some r \<and> (r = 0 \<longleftrightarrow> xs = ys)) \<and>
         (\<exists>r. strncmp h a b n = Some r \<and> (r = 0 \<longleftrightarrow> take n xs = take n ys)) \<and>
         (\<exists>r. strstr h a b = Some (Option.bind r (padd a)) \<and> first_match xs ys 0 r)"
  using strcmp_cstr [OF assms] strncmp_cstr [OF assms] strstr_cstr [OF assms] by blast

theorem compare_and_search_witness:
  "(\<exists>r. strcmp (\<lambda>_. [65, 66, 65, 67, 0, 65, 67, 0]) (Some (0, 0)) (Some (0, 5)) = Some r \<and> r \<noteq> 0) \<and>
   (\<exists>r. strncmp (\<lambda>_. [65, 66, 65, 67, 0, 65, 67, 0]) (Some (0, 0)) (Some (0, 5)) 1 = Some r \<and> r = 0) \<and>
   (\<exists>r. first_match [65, 66, 65, 67] [65, 67] 0 r)"
proof -
  let ?h = "\<lambda>_. [65, 66, 65, 67, 0, 65, 67, 0]"
  have "cstr ?h (Some (0, 0)) [65, 66, 65, 67]" "cstr ?h (Some (0, 5)) [65, 67]"
    by (simp_all add: cstr_def)
  from compare_and_search [OF this, of 1] show ?thesis by auto
qed

end
