(* ===== verification/Kernel_Math.thy ===== *)
theory Kernel_Math
  imports Bitmap
begin

text \<open>
  The arithmetic helpers of \<^verbatim>\<open>kernel/include/rabbitbone/types.h\<close> and
  \<^verbatim>\<open>kernel/include/rabbitbone/math64.h\<close> and the checksum of \<^verbatim>\<open>kernel/lib/crc32.c\<close>. Values that
  are masked are 64-bit or 32-bit words, values that are only counted are natural numbers.
\<close>

section \<open>Alignment\<close>

definition rabbitbone_is_power_of_two_u64 :: "u64 \<Rightarrow> bool" where
  "rabbitbone_is_power_of_two_u64 v = (v \<noteq> 0 \<and> v AND (v - 1) = 0)"

definition rabbitbone_align_up_u64_checked :: "u64 \<Rightarrow> u64 \<Rightarrow> u64 option" where
  "rabbitbone_align_up_u64_checked v alignment =
     (if \<not> rabbitbone_is_power_of_two_u64 alignment then None
      else let addend = alignment - 1; tmp = v + addend in
        if unat v + unat addend > U64_MAX then None else Some (tmp AND NOT addend))"

definition rabbitbone_align_up_usize_checked :: "u64 \<Rightarrow> u64 \<Rightarrow> u64 option" where
  "rabbitbone_align_up_usize_checked v alignment =
     (if alignment = 0 \<or> alignment AND (alignment - 1) \<noteq> 0 then None
      else let addend = alignment - 1; tmp = v + addend in
        if unat v + unat addend > U64_MAX then None else Some (tmp AND NOT addend))"

definition RABBITBONE_ALIGN_DOWN :: "u64 \<Rightarrow> u64 \<Rightarrow> u64" where
  "RABBITBONE_ALIGN_DOWN v a = v AND NOT (a - 1)"

lemma is_power_of_two_iff: "rabbitbone_is_power_of_two_u64 v \<longleftrightarrow> (\<exists>k < 64. v = push_bit k 1)"
proof
  assume v: "rabbitbone_is_power_of_two_u64 v"
  then have "v \<noteq> 0" "v AND (v - 1) = 0" by (auto simp: rabbitbone_is_power_of_two_u64_def)
  then have "card {i. bit v i} = 1" using card_bits_word_step [of v] by simp
  then obtain k where k: "{i. bit v i} = {k}" by (auto simp: card_1_singleton_iff)
  then have "bit v k" by blast
  then have "k < 64" by (auto dest: bit_imp_le_length)
  moreover have "v = push_bit k 1"
    using k \<open>k < 64\<close> by (intro bit_word_eqI) (auto simp: bit_simps)
  ultimately show "\<exists>k < 64. v = push_bit k 1" by blast
next
  assume "\<exists>k < 64. v = push_bit k 1"
  then obtain k where k: "k < 64" "v = push_bit k 1" by blast
  have v: "v = bit_mask k" by (simp add: k bit_mask_def)
  have "bit v k" using k by (simp add: bit_simps)
  then have "v \<noteq> 0" by auto
  moreover have "v AND (v - 1) = 0"
    unfolding v using k(1) by (intro bit_word_eqI) (auto simp: bit_and_iff bit_mask_minus_one bit_mask_iff)
  ultimately show "rabbitbone_is_power_of_two_u64 v" by (simp add: rabbitbone_is_power_of_two_u64_def)
qed

lemma unat_and_not_mask:
  assumes "k < 64"
  shows "unat (t AND NOT (push_bit k 1 - 1 :: u64)) = unat t div 2 ^ k * 2 ^ k"
proof -
  have "t AND NOT (bit_mask k - 1) = push_bit k (drop_bit k t)"
    by (intro bit_word_eqI)
      (auto simp: bit_and_iff bit_not_iff bit_mask_minus_one [OF assms] bit_push_bit_iff bit_drop_bit_eq)
  then have "t AND NOT (push_bit k 1 - 1) = push_bit k (drop_bit k t)" by (simp only: bit_mask_def)
  moreover have "take_bit 64 (unat t) = unat t"
    using unsigned_less [of t] by (intro take_bit_nat_eq_self) simp
  ultimately have "unat (t AND NOT (push_bit k 1 - 1)) = take_bit 64 (push_bit k (drop_bit k (unat t)))"
    by (simp add: unsigned_push_bit_eq unsigned_drop_bit_eq)
  also have "\<dots> = unat t div 2 ^ k * 2 ^ k"
  proof -
    have "unat t div 2 ^ k * 2 ^ k \<le> unat t" by simp
    also have "unat t < 2 ^ 64" using unsigned_less [of t] by simp
    finally show ?thesis by (simp add: push_bit_eq_mult drop_bit_eq_div take_bit_eq_mod)
  qed
  finally show ?thesis .
qed

lemma unat_push_bit_1: "k < 64 \<Longrightarrow> unat (push_bit k 1 :: u64) = 2 ^ k"
  using power_strict_increasing [of k 64 "2 :: nat"]
  unfolding unsigned_push_bit_eq by (simp add: push_bit_eq_mult take_bit_eq_mod)

lemma of_nat_unat_self: "of_nat (unat (w :: u64)) = w"
  by simp

lemma align_up_spec:
  assumes "k < 64"
  shows "rabbitbone_align_up_u64_checked v (push_bit k 1) =
     (if unat v + (2 ^ k - 1) \<le> U64_MAX
      then Some (of_nat ((unat v + (2 ^ k - 1)) div 2 ^ k * 2 ^ k)) else None)"
proof -
  let ?a = "push_bit k 1 :: u64"
  have p: "rabbitbone_is_power_of_two_u64 ?a" using assms is_power_of_two_iff by blast
  have a1: "unat (?a - 1) = 2 ^ k - 1"
    using p unat_push_bit_1 [OF assms] by (simp add: rabbitbone_is_power_of_two_u64_def unat_minus_one)
  have "unat (v + (?a - 1)) = unat v + (2 ^ k - 1)" if "unat v + (2 ^ k - 1) \<le> U64_MAX"
    using that a1 by (simp add: unat_word_ariths)
  then have "(v + (?a - 1)) AND NOT (?a - 1) = of_nat ((unat v + (2 ^ k - 1)) div 2 ^ k * 2 ^ k)"
    if "unat v + (2 ^ k - 1) \<le> U64_MAX"
    using that unat_and_not_mask [OF assms, of "v + (?a - 1)"] by (metis of_nat_unat_self)
  then show ?thesis using p a1 by (simp add: rabbitbone_align_up_u64_checked_def Let_def)
qed

section \<open>Saturating arithmetic\<close>

definition rabbitbone_u64_add_saturating :: "nat \<Rightarrow> nat \<Rightarrow> nat" where
  "rabbitbone_u64_add_saturating a b = (case add_overflow a b of None \<Rightarrow> U64_MAX | Some out \<Rightarrow> out)"

text \<open>
  One round per bit of the 128-bit product, from the top: \<^verbatim>\<open>(rem << 1) | next\<close> is
  \<open>2 * rem + next\<close> at 128 bits.
\<close>

fun mul_div_loop :: "nat \<Rightarrow> nat \<Rightarrow> nat \<Rightarrow> nat \<Rightarrow> nat \<Rightarrow> nat \<Rightarrow> nat" where
  "mul_div_loop hi lo divisor 0 rem q = q"
| "mul_div_loop hi lo divisor (Suc n) rem q =
     (let nxt = (if n \<ge> 64 then drop_bit (n - 64) hi AND 1 else drop_bit n lo AND 1);
          rem' = (2 * rem + nxt) mod 2 ^ 128
      in if rem' \<ge> divisor
         then (if n \<ge> 64 then U64_MAX
               else mul_div_loop hi lo divisor n (rem' - divisor) (q OR push_bit n 1))
         else mul_div_loop hi lo divisor n rem' q)"

definition rabbitbone_u64_mul_div_saturating :: "nat \<Rightarrow> nat \<Rightarrow> nat \<Rightarrow> nat" where
  "rabbitbone_u64_mul_div_saturating a b divisor =
     (if divisor = 0 then U64_MAX
      else let product = (a * b) mod 2 ^ 128
           in mul_div_loop (drop_bit 64 product) (take_bit 64 product) divisor 128 0 0)"

lemma or_push_bit_nat: "(2 ^ Suc n * m) OR push_bit n 1 = 2 ^ Suc n * m + 2 ^ (n :: nat)" for m :: nat
proof -
  have eq: "2 ^ Suc n * m = push_bit (Suc n) m" by (simp add: push_bit_eq_mult)
  have "push_bit (Suc n) m AND push_bit n 1 = 0"
    by (rule bit_eqI) (auto simp: bit_simps bit_0)
  then have "push_bit (Suc n) m + push_bit n 1 = push_bit (Suc n) m OR push_bit n 1"
    by (simp add: disjunctive_add_eq_or)
  then show ?thesis unfolding eq by (simp add: push_bit_eq_mult)
qed

lemma div_mod_double:
  fixes x D m :: nat
  shows "2 * x + m = D * (2 * (x div D)) + (2 * (x mod D) + m)"
proof -
  have "2 * x = 2 * (D * (x div D) + x mod D)" by (simp only: mult_div_mod_eq)
  then show ?thesis by (simp only: distrib_left)
qed

lemma div_two_step:
  fixes P D n :: nat
  assumes "0 < D"
  defines "r \<equiv> 2 * (P div 2 ^ Suc n mod D) + P div 2 ^ n mod 2"
  shows "P div 2 ^ n = D * (2 * (P div 2 ^ Suc n div D)) + r"
    and "r < 2 * D"
    and "P div 2 ^ n div D = 2 * (P div 2 ^ Suc n div D) + (if D \<le> r then 1 else 0)"
    and "P div 2 ^ n mod D = (if D \<le> r then r - D else r)"
proof -
  let ?x = "P div 2 ^ Suc n"
  have half: "?x = P div 2 ^ n div 2" by (metis div_mult2_eq power_Suc2)
  then have "P div 2 ^ n = 2 * ?x + P div 2 ^ n mod 2" by simp
  then show 1: "P div 2 ^ n = D * (2 * (?x div D)) + r"
    unfolding r_def using div_mod_double [of ?x "P div 2 ^ n mod 2" D] by (simp only:)
  have "?x mod D < D" using assms by simp
  moreover have "P div 2 ^ n mod 2 < 2" by simp
  ultimately show 2: "r < 2 * D" unfolding r_def by linarith
  have "(D * (2 * (?x div D)) + r) div D = 2 * (?x div D) + r div D" using assms by simp
  moreover have "r div D = (if D \<le> r then 1 else 0)"
    using 2 assms by (auto simp: div_nat_eqI)
  ultimately show "P div 2 ^ n div D = 2 * (?x div D) + (if D \<le> r then 1 else 0)" using 1 by presburger
  have "(D * (2 * (?x div D)) + r) mod D = r mod D" by simp
  moreover have "r mod D = (if D \<le> r then r - D else r)" using 2 by (simp add: mod_if)
  ultimately show "P div 2 ^ n mod D = (if D \<le> r then r - D else r)" using 1 by presburger
qed

lemma drop_bit_and_1: "drop_bit n a AND 1 = of_bool (bit a n)" for a :: nat
  by (simp add: and_one_eq mod_2_eq_odd bit_iff_odd_drop_bit)

lemma product_bit:
  "(if n \<ge> 64 then drop_bit (n - 64) (drop_bit 64 P) AND 1 else drop_bit n (take_bit 64 P) AND 1) = P div 2 ^ n mod 2"
  for P :: nat
proof -
  have "P div 2 ^ n mod 2 = of_bool (bit P n)" by (simp add: mod_2_eq_odd bit_iff_odd)
  then show ?thesis unfolding drop_bit_and_1 by (simp add: bit_take_bit_iff bit_drop_bit_eq)
qed

lemma mul_div_loop_spec:
  assumes "0 < D" "D \<le> U64_MAX" "P < 2 ^ 128"
  shows "b \<le> 128 \<Longrightarrow> (64 \<le> b \<longrightarrow> P div 2 ^ b div D = 0) \<Longrightarrow>
    mul_div_loop (drop_bit 64 P) (take_bit 64 P) D b (P div 2 ^ b mod D) (2 ^ b * (P div 2 ^ b div D)) =
    (if 64 < b \<and> U64_MAX < P div D then U64_MAX else P div D)"
proof (induction b)
  case 0
  then show ?case by simp
next
  case (Suc n)
  let ?r = "2 * (P div 2 ^ Suc n mod D) + P div 2 ^ n mod 2"
  note step = div_two_step [OF assms(1), of P n]
  have nxt: "(if n \<ge> 64 then drop_bit (n - 64) (drop_bit 64 P) AND 1 else drop_bit n (take_bit 64 P) AND 1) = P div 2 ^ n mod 2"
    by (rule product_bit)
  have small: "?r mod 2 ^ 128 = ?r" using step(2) assms(2) by simp
  have Q: "P div 2 ^ b div D = P div D div 2 ^ b" for b
    by (simp add: div_mult2_eq [symmetric] mult.commute)
  have unf: "mul_div_loop (drop_bit 64 P) (take_bit 64 P) D (Suc n) (P div 2 ^ Suc n mod D) q =
      (if D \<le> ?r then (if n \<ge> 64 then U64_MAX
          else mul_div_loop (drop_bit 64 P) (take_bit 64 P) D n (P div 2 ^ n mod D) (q OR push_bit n 1))
       else mul_div_loop (drop_bit 64 P) (take_bit 64 P) D n (P div 2 ^ n mod D) q)" for q
    unfolding mul_div_loop.simps nxt Let_def small step(4) by simp
  consider (top) "D \<le> ?r" "64 \<le> n" | (one) "D \<le> ?r" "n < 64" | (zero) "?r < D" by linarith
  then show ?case
  proof cases
    case top
    then have "P div D div 2 ^ n \<noteq> 0" using step(3) Q [of n] by simp
    then have "2 ^ n \<le> P div D" by (simp add: div_eq_0_iff not_less)
    moreover have "(2 :: nat) ^ 64 \<le> 2 ^ n" using top(2) by (intro power_increasing) simp_all
    ultimately have "U64_MAX < P div D" by simp
    then show ?thesis unfolding unf using top by simp
  next
    case one
    have "2 ^ Suc n * (P div 2 ^ Suc n div D) OR push_bit n 1 = 2 ^ n * (P div 2 ^ n div D)"
      unfolding or_push_bit_nat step(3) using one by (simp add: algebra_simps)
    then show ?thesis unfolding unf using one Suc.IH by simp
  next
    case zero
    have q: "2 ^ Suc n * (P div 2 ^ Suc n div D) = 2 ^ n * (P div 2 ^ n div D)"
      using step(3) zero by simp
    have z: "64 \<le> n \<longrightarrow> P div 2 ^ n div D = 0" using step(3) zero Suc.prems(2) by simp
    have "P div D \<le> U64_MAX" if "n = 64"
    proof -
      have "P div D div 2 ^ 64 = 0" using z that Q [of 64] by simp
      then have "P div D < 2 ^ 64" by (simp only: div_eq_0_iff) simp
      then show ?thesis by simp
    qed
    then show ?thesis unfolding unf q using zero Suc.IH Suc.prems(1) z by auto
  qed
qed

lemma mul_div_saturating_spec:
  assumes "a \<le> U64_MAX" "b \<le> U64_MAX" "D \<le> U64_MAX"
  shows "rabbitbone_u64_mul_div_saturating a b D =
     (if D = 0 then U64_MAX else min (a * b div D) U64_MAX)"
proof (cases "D = 0")
  case False
  have "a * b \<le> U64_MAX * U64_MAX" using assms by (intro mult_le_mono)
  also have "\<dots> < 2 ^ 128" by simp
  finally have P: "a * b < 2 ^ 128" .
  then have "a * b div 2 ^ 128 = 0" by (simp only: div_less)
  then have "mul_div_loop (drop_bit 64 (a * b)) (take_bit 64 (a * b)) D 128 0 0 =
      (if U64_MAX < a * b div D then U64_MAX else a * b div D)"
    using mul_div_loop_spec [of D "a * b" 128] assms(3) False P by simp
  then show ?thesis
    using False P by (simp add: rabbitbone_u64_mul_div_saturating_def Let_def min_def)
qed (simp add: rabbitbone_u64_mul_div_saturating_def)

section \<open>CRC-32\<close>

definition crc32_bit :: "u32 \<Rightarrow> u32" where
  "crc32_bit crc = (let msk = 0 - (crc AND 1) in drop_bit 1 crc XOR (0xedb88320 AND msk))"

definition crc32_byte :: "u32 \<Rightarrow> u8 \<Rightarrow> u32" where
  "crc32_byte crc b = (crc32_bit ^^ 8) (crc XOR ucast b)"

fun crc32_loop :: "u32 \<Rightarrow> bytes \<Rightarrow> nat \<Rightarrow> nat \<Rightarrow> u32 option" where
  "crc32_loop crc p i 0 = Some crc"
| "crc32_loop crc p i (Suc n) = do { b \<leftarrow> arr_get p i; crc32_loop (crc32_byte crc b) p (Suc i) n }"

definition crc32_update :: "u32 \<Rightarrow> bytes option \<Rightarrow> usize \<Rightarrow> u32 option" where
  "crc32_update crc data sz = (case data of
      None \<Rightarrow> Some (if sz \<noteq> 0 then crc else NOT (NOT crc))
    | Some p \<Rightarrow> map_option (\<lambda>c. NOT c) (crc32_loop (NOT crc) p 0 sz))"

definition crc32 :: "bytes option \<Rightarrow> usize \<Rightarrow> u32 option" where
  "crc32 data sz = crc32_update 0 data sz"

lemma crc32_loop_foldl: "i + n \<le> length p \<Longrightarrow> crc32_loop c p i n = Some (foldl crc32_byte c (take n (drop i p)))"
proof (induction n arbitrary: c i)
  case (Suc n)
  then have "take (Suc n) (drop i p) = p ! i # take n (drop (Suc i) p)"
    by (simp add: Cons_nth_drop_Suc [symmetric])
  then show ?case using Suc by simp
qed simp

lemma crc32_update_spec:
  "sz \<le> length p \<Longrightarrow> crc32_update c (Some p) sz = Some (NOT (foldl crc32_byte (NOT c) (take sz p)))"
  by (simp add: crc32_update_def crc32_loop_foldl)

lemma crc32_bit_eq: "crc32_bit c = drop_bit 1 c XOR (if bit c 0 then 0xedb88320 else 0)"
proof -
  have "c AND 1 = (if bit c 0 then 1 else 0)" by (simp add: and_one_eq mod_2_eq_odd bit_0)
  then show ?thesis by (simp add: crc32_bit_def Let_def)
qed

lemma xor_right_cancel: "a XOR k = b XOR k \<longleftrightarrow> a = b" for a b k :: "'a::len word"
proof
  assume "a XOR k = b XOR k"
  then have "(a XOR k) XOR k = (b XOR k) XOR k" by (simp only:)
  then show "a = b" by (simp add: xor.assoc)
qed simp

lemma crc32_bit_top: "bit (crc32_bit c) 31 = bit c 0"
proof -
  have "bit (0xedb88320 :: u32) 31" by simp
  then show ?thesis by (auto simp: crc32_bit_eq bit_xor_iff bit_drop_bit_eq dest: bit_imp_le_length)
qed

lemma inj_crc32_bit: "inj crc32_bit"
proof (rule injI)
  fix c d :: u32
  assume eq: "crc32_bit c = crc32_bit d"
  then have b0: "bit c 0 = bit d 0" using crc32_bit_top by metis
  then have "drop_bit 1 c = drop_bit 1 d" using eq by (simp add: crc32_bit_eq xor_right_cancel split: if_splits)
  then have "bit c (Suc n) = bit d (Suc n)" for n
    using bit_drop_bit_eq [of 1 c] bit_drop_bit_eq [of 1 d] by (metis comp_apply plus_1_eq_Suc)
  then show "c = d" using b0 by (metis bit_word_eqI old.nat.exhaust)
qed

lemma crc32_byte_inj: "crc32_byte c b = crc32_byte d e \<longleftrightarrow> c XOR ucast b = d XOR ucast e"
  unfolding crc32_byte_def by (rule inj_eq [OF inj_fn [OF inj_crc32_bit]])

lemma crc32_byte_inj_crc: "crc32_byte c b = crc32_byte d b \<longleftrightarrow> c = d"
  by (simp add: crc32_byte_inj xor_right_cancel)

lemma crc32_byte_inj_data: "crc32_byte c b = crc32_byte c e \<longleftrightarrow> b = e"
proof
  assume "crc32_byte c b = crc32_byte c e"
  then have "ucast b = (ucast e :: u32)"
    by (simp add: crc32_byte_inj xor.commute [of c] xor_right_cancel)
  then have "unat (ucast b :: u32) = unat (ucast e :: u32)" by simp
  moreover have "take_bit 32 (unat w) = unat w" for w :: u8
    using unsigned_less [of w, where 'a = nat] by (intro take_bit_nat_eq_self) simp
  ultimately show "b = e" by (simp add: unsigned_ucast_eq word_unat_eq_iff)
qed simp

lemma foldl_crc32_inj: "foldl crc32_byte c ys = foldl crc32_byte d ys \<longleftrightarrow> c = d"
  by (induction ys arbitrary: c d) (auto simp: crc32_byte_inj_crc)


section \<open>Properties\<close>

text \<open>
  C30: checked alignment rounds up. For a power-of-two alignment the result, when there is
  one, is the least multiple of the alignment that is not below the value; there is none
  exactly when adding the alignment minus one overflows 64 bits. Any other alignment is rejected.
\<close>

theorem align_up_least_multiple:
  "rabbitbone_align_up_u64_checked v a =
     (if (\<exists>k < 64. unat a = 2 ^ k) \<and> unat v + (unat a - 1) \<le> U64_MAX
      then Some (of_nat ((unat v + (unat a - 1)) div unat a * unat a)) else None)"
proof (cases "rabbitbone_is_power_of_two_u64 a")
  case True
  then obtain k where k: "k < 64" "a = push_bit k 1" using is_power_of_two_iff by blast
  then have "unat a = 2 ^ k" using unat_push_bit_1 [OF k(1)] by (simp only: k(2))
  moreover have "\<exists>k < 64. unat a = 2 ^ k" using k calculation by blast
  ultimately show ?thesis using align_up_spec [OF k(1), of v] k(2) by simp
next
  case False
  have "\<not> (\<exists>k < 64. unat a = 2 ^ k)"
  proof
    assume "\<exists>k < 64. unat a = 2 ^ k"
    then obtain k where k: "k < 64" "unat a = 2 ^ k" by blast
    then have "a = push_bit k 1" by (simp add: unat_push_bit_1 [symmetric] word_unat_eq_iff)
    then show False using False k(1) is_power_of_two_iff by blast
  qed
  then show ?thesis using False by (simp add: rabbitbone_align_up_u64_checked_def)
qed

text \<open>
  C29: the 128-bit shift-and-subtract division computes the product divided by the
  divisor, saturating at the largest 64-bit value (also for divisor zero).
\<close>

theorem mul_div_saturating_correct:
  assumes "a \<le> U64_MAX" and "b \<le> U64_MAX" and "D \<le> U64_MAX"
  shows "rabbitbone_u64_mul_div_saturating a b D = (if D = 0 then U64_MAX else min (a * b div D) U64_MAX)"
  using assms by (rule mul_div_saturating_spec)

theorem mul_div_saturating_correct_witness:
  "rabbitbone_u64_mul_div_saturating U64_MAX 1000 1000 = U64_MAX \<and> rabbitbone_u64_mul_div_saturating 7 9 2 = 31"
  using mul_div_saturating_correct [of U64_MAX 1000 1000] mul_div_saturating_correct [of 7 9 2] by simp

text \<open>
  the checksum chains and detects every corrupted byte. Updating a checksum over two
  adjacent pieces of a buffer equals one update over the whole, and two messages that differ
  in exactly one byte never have the same checksum.
\<close>

theorem crc32_chains:
  "(crc32_update c (Some xs) (length xs) = Some c' \<longrightarrow>
      crc32_update c' (Some ys) (length ys) = crc32_update c (Some (xs @ ys)) (length (xs @ ys))) \<and>
   (b \<noteq> e \<longrightarrow>
      crc32 (Some (xs @ b # ys)) (length xs + 1 + length ys) \<noteq> crc32 (Some (xs @ e # ys)) (length xs + 1 + length ys))"
  by (auto simp: crc32_update_spec crc32_def foldl_crc32_inj crc32_byte_inj_data)

theorem crc32_chains_witness:
  "crc32_update 0 (Some [97]) 1 = Some 0xe8b7be43 \<and>
   crc32_update 0xe8b7be43 (Some [98]) 1 = crc32_update 0 (Some [97, 98]) 2 \<and>
   crc32 (Some [97, 1, 98]) 3 \<noteq> crc32 (Some [97, 2, 98]) 3"
proof -
  have "crc32_update 0 (Some [97]) (length [97 :: u8]) = Some 0xe8b7be43" by code_simp
  then show ?thesis
    using crc32_chains [of 0 "[97]" "0xe8b7be43" "[98]" 1 2]
    by (simp add: numeral_eq_Suc [of "num.Bit0 _"] numeral_eq_Suc [of "num.Bit1 _"])
qed

end
