(* ===== verification/Printf.thy ===== *)
theory Printf
  imports Libc_String
begin

text \<open>
  Formatted output: \<^verbatim>\<open>kernel/core/printf.c\<close> and the growing buffer of \<^verbatim>\<open>kernel/lib/format.c\<close>.
  The format string is the object it lies in, read with checked accesses; the variable
  arguments are the list of values still to be fetched, a number as the 64-bit register
  it is passed in. An output callback is modelled by the list of chunks it has been called
  with. The formatter is proved once against the contract of a sink (locale \<open>sink\<close>), of
  which the memory buffer and the chunked callback are the two instances the code has.
\<close>

section \<open>Output buffers\<close>

record outbuf_t =
  obuf :: "bytes option"
  ocap :: usize
  olen :: usize
  oused :: usize
  oemit :: bool
  oemitted :: "bytes list"

definition len_add :: "usize \<Rightarrow> usize \<Rightarrow> usize" where
  "len_add l n = (if n \<le> U64_MAX \<and> l \<le> U64_MAX - n then l + n else U64_MAX)"

definition out_flush :: "outbuf_t \<Rightarrow> outbuf_t option" where
  "out_flush out =
     (if \<not> oemit out \<or> oused out = 0 then Some out
      else do {
        b \<leftarrow> obuf out;
        if oused out \<le> length b
        then Some (out\<lparr>oemitted := oemitted out @ [take (oused out) b], oused := 0\<rparr>) else None })"

text \<open>The copy loop of the chunked mode. A round that copies nothing would repeat forever.\<close>

function chunk_loop :: "outbuf_t \<Rightarrow> bytes \<Rightarrow> usize \<Rightarrow> usize \<Rightarrow> outbuf_t option" where
  "chunk_loop out s n off =
     (if off < n then do {
        (out, avail) \<leftarrow> (let avail = sub64 (ocap out) (oused out) in
           if avail = 0 then map_option (\<lambda>o'. (o', ocap o')) (out_flush out) else Some (out, avail));
        let tk = min (n - off) avail;
        b \<leftarrow> obuf out;
        b' \<leftarrow> (if off + tk \<le> length s then copy_in b (oused out) (take tk (drop off s)) else None);
        let out = out\<lparr>obuf := Some b', oused := oused out + tk\<rparr>;
        out \<leftarrow> (if oused out = ocap out then out_flush out else Some out);
        if tk = 0 then None else chunk_loop out s n (off + tk) }
      else Some out)"
  by pat_completeness auto
termination
  by (relation "measure (\<lambda>(out, s, n, off). n - off)") auto

definition out_emit_bytes :: "outbuf_t \<Rightarrow> bytes \<Rightarrow> usize \<Rightarrow> outbuf_t option" where
  "out_emit_bytes out s n =
     (if n = 0 then Some out
      else if \<not> oemit out then do {
        b \<leftarrow> (if ocap out \<noteq> 0 \<and> olen out < ocap out - 1 then do {
                let r = ocap out - 1 - olen out;
                let tk = (if n < r then n else r);
                ob \<leftarrow> obuf out;
                ob' \<leftarrow> (if tk \<le> length s then copy_in ob (olen out) (take tk s) else None);
                Some (Some ob') }
              else Some (obuf out));
        Some (out\<lparr>obuf := b, olen := len_add (olen out) n\<rparr>) }
      else if obuf out = None \<or> ocap out = 0 then
        (if n \<le> length s then Some (out\<lparr>oemitted := oemitted out @ [take n s], olen := len_add (olen out) n\<rparr>) else None)
      else do {
        out' \<leftarrow> chunk_loop out s n 0;
        Some (out'\<lparr>olen := len_add (olen out') n\<rparr>) })"

definition out_char :: "outbuf_t \<Rightarrow> u8 \<Rightarrow> outbuf_t option" where
  "out_char out c = out_emit_bytes out [c] 1"

definition null_text :: bytes where
  "null_text = [0x28, 0x6e, 0x75, 0x6c, 0x6c, 0x29, 0]"

definition out_str :: "outbuf_t \<Rightarrow> bytes option \<Rightarrow> outbuf_t option" where
  "out_str out s = do {
     let s = (case s of None \<Rightarrow> null_text | Some b \<Rightarrow> b);
     n \<leftarrow> strlen (\<lambda>_. s) (Some (0, 0));
     out_emit_bytes out s n }"

fun repeat_loop :: "outbuf_t \<Rightarrow> u8 \<Rightarrow> nat \<Rightarrow> outbuf_t option" where
  "repeat_loop out c 0 = Some out"
| "repeat_loop out c (Suc n) = do { out' \<leftarrow> out_char out c; repeat_loop out' c n }"

definition out_repeat :: "outbuf_t \<Rightarrow> u8 \<Rightarrow> int \<Rightarrow> outbuf_t option" where
  "out_repeat out c cnt = repeat_loop out c (nat cnt)"

section \<open>Numbers\<close>

definition digit_map :: "bool \<Rightarrow> bytes" where
  "digit_map upper =
     [0x30, 0x31, 0x32, 0x33, 0x34, 0x35, 0x36, 0x37, 0x38, 0x39] @
     (if upper then [0x41, 0x42, 0x43, 0x44, 0x45, 0x46] else [0x61, 0x62, 0x63, 0x64, 0x65, 0x66])"

text \<open>The digit array has 65 elements; \<open>ds\<close> are the ones written, least significant first.\<close>

function digits_loop :: "nat \<Rightarrow> nat \<Rightarrow> bool \<Rightarrow> bytes \<Rightarrow> bytes option" where
  "digits_loop v base upper ds =
     (if length ds < 65 then do {
        m \<leftarrow> arr_get (digit_map upper) (v mod base);
        if v div base \<noteq> 0 then digits_loop (v div base) base upper (ds @ [m]) else Some (ds @ [m]) }
      else None)"
  by pat_completeness auto
termination
  by (relation "measure (\<lambda>(v, base, upper, ds). 65 - length ds)") auto

fun emit_digits :: "outbuf_t \<Rightarrow> bytes \<Rightarrow> nat \<Rightarrow> outbuf_t option" where
  "emit_digits out ds 0 = Some out"
| "emit_digits out ds (Suc n) = do { c \<leftarrow> arr_get ds n; out' \<leftarrow> out_char out c; emit_digits out' ds n }"

definition out_uint :: "outbuf_t \<Rightarrow> nat \<Rightarrow> nat \<Rightarrow> bool \<Rightarrow> int \<Rightarrow> bool \<Rightarrow> outbuf_t option" where
  "out_uint out v base upper width pad_zero = do {
     ds \<leftarrow> digits_loop v base upper [];
     let pad = width - int (length ds);
     out \<leftarrow> out_repeat out (if pad_zero then 0x30 else 0x20) pad;
     emit_digits out ds (length ds) }"

definition out_int :: "outbuf_t \<Rightarrow> int \<Rightarrow> int \<Rightarrow> bool \<Rightarrow> outbuf_t option" where
  "out_int out v width pad_zero =
     (if v < 0 then do {
        out \<leftarrow> out_char out 0x2d;
        out_uint out (nat (- (v + 1)) + 1) 10 False (if width > 0 then width - 1 else 0) pad_zero }
      else out_uint out (nat v) 10 False width pad_zero)"

section \<open>The format interpreter\<close>

datatype varg = VNum u64 | VStr "bytes option"

fun va_signed :: "bool \<Rightarrow> varg list \<Rightarrow> (int \<times> varg list) option" where
  "va_signed wide (VNum w # args) = Some (if wide then sint w else sint (ucast w :: u32), args)"
| "va_signed wide _ = None"

fun va_unsigned :: "bool \<Rightarrow> varg list \<Rightarrow> (nat \<times> varg list) option" where
  "va_unsigned wide (VNum w # args) = Some (if wide then unat w else unat (ucast w :: u32), args)"
| "va_unsigned wide _ = None"

fun va_str :: "varg list \<Rightarrow> (bytes option \<times> varg list) option" where
  "va_str (VStr s # args) = Some (s, args)"
| "va_str _ = None"

definition PRINTF_MAX_WIDTH :: nat where
  "PRINTF_MAX_WIDTH = 4096"

function width_loop :: "bytes \<Rightarrow> nat \<Rightarrow> nat \<Rightarrow> (nat \<times> nat) option" where
  "width_loop fmt p width = do {
     c \<leftarrow> arr_get fmt p;
     if 0x30 \<le> c \<and> c \<le> 0x39 then
       (let digit = unat c - 0x30;
            width = (if width > (PRINTF_MAX_WIDTH - digit) div 10 then PRINTF_MAX_WIDTH else width * 10 + digit)
        in width_loop fmt (Suc p) width)
     else Some (width, p) }"
  by pat_completeness auto
termination
  by (relation "measure (\<lambda>(fmt, p, width). length fmt - p)") (auto simp: arr)

record fmt_spec =
  pad_zero :: bool
  width :: nat
  long_flag :: bool
  long_long_flag :: bool

definition parse_spec :: "bytes \<Rightarrow> nat \<Rightarrow> (fmt_spec \<times> nat) option" where
  "parse_spec fmt p = do {
     c \<leftarrow> arr_get fmt p;
     let (pz, p) = (if c = 0x30 then (True, Suc p) else (False, p));
     (w, p) \<leftarrow> width_loop fmt p 0;
     c \<leftarrow> arr_get fmt p;
     if c = 0x6c then do {
       c \<leftarrow> arr_get fmt (Suc p);
       if c = 0x6c then Some (\<lparr>pad_zero = pz, width = w, long_flag = True, long_long_flag = True\<rparr>, p + 2)
       else Some (\<lparr>pad_zero = pz, width = w, long_flag = True, long_long_flag = False\<rparr>, Suc p) }
     else Some (\<lparr>pad_zero = pz, width = w, long_flag = False, long_long_flag = False\<rparr>, p) }"

definition convert :: "outbuf_t \<Rightarrow> fmt_spec \<Rightarrow> u8 \<Rightarrow> varg list \<Rightarrow> (outbuf_t \<times> varg list) option" where
  "convert out sp c args =
     (let wide = (long_flag sp \<or> long_long_flag sp) in
      if c = 0x25 then map_option (\<lambda>o'. (o', args)) (out_char out 0x25)
      else if c = 0x63 then do {
        (v, args) \<leftarrow> va_signed False args;
        out \<leftarrow> out_char out (word_of_int v);
        Some (out, args) }
      else if c = 0x73 then do {
        (s, args) \<leftarrow> va_str args;
        out \<leftarrow> out_str out s;
        Some (out, args) }
      else if c = 0x64 \<or> c = 0x69 then do {
        (v, args) \<leftarrow> va_signed wide args;
        out \<leftarrow> out_int out v (int (width sp)) (pad_zero sp);
        Some (out, args) }
      else if c = 0x75 then do {
        (v, args) \<leftarrow> va_unsigned wide args;
        out \<leftarrow> out_uint out v 10 False (int (width sp)) (pad_zero sp);
        Some (out, args) }
      else if c = 0x78 \<or> c = 0x58 then do {
        (v, args) \<leftarrow> va_unsigned wide args;
        out \<leftarrow> out_uint out v 16 (c = 0x58) (int (width sp)) (pad_zero sp);
        Some (out, args) }
      else if c = 0x70 then do {
        (v, args) \<leftarrow> va_unsigned True args;
        out \<leftarrow> out_str out (Some [0x30, 0x78, 0]);
        out \<leftarrow> out_uint out v 16 False 16 True;
        Some (out, args) }
      else do {
        out \<leftarrow> out_char out 0x25;
        out \<leftarrow> (if c \<noteq> 0 then out_char out c else Some out);
        Some (out, args) })"

declare chunk_loop.simps [simp del] digits_loop.simps [simp del] width_loop.simps [simp del]

lemma width_loop_mono: "width_loop fmt p w = Some (w', q) \<Longrightarrow> p \<le> q \<and> q < length fmt"
proof (induction fmt p w rule: width_loop.induct)
  case (1 fmt p width)
  then show ?case
    by (subst (asm) width_loop.simps) (fastforce simp: arr Let_def split: if_splits)
qed

lemma parse_spec_mono: "parse_spec fmt p = Some (sp, q) \<Longrightarrow> p \<le> q"
  by (auto simp: parse_spec_def arr Let_def split: if_splits dest!: width_loop_mono)

function kvformat_loop :: "outbuf_t \<Rightarrow> bytes \<Rightarrow> varg list \<Rightarrow> nat \<Rightarrow> outbuf_t option" where
  "kvformat_loop out fmt args p = do {
     c \<leftarrow> arr_get fmt p;
     if c = 0 then Some out
     else if c \<noteq> 0x25 then do { out \<leftarrow> out_char out c; kvformat_loop out fmt args (Suc p) }
     else do {
       (sp, q) \<leftarrow> parse_spec fmt (Suc p);
       c \<leftarrow> arr_get fmt q;
       (out, args) \<leftarrow> convert out sp c args;
       kvformat_loop out fmt args (Suc q) } }"
  by pat_completeness auto
termination
  by (relation "measure (\<lambda>(out, fmt, args, p). length fmt - p)") (auto simp: arr dest!: parse_spec_mono)

declare kvformat_loop.simps [simp del]

definition kvformat :: "outbuf_t \<Rightarrow> bytes option \<Rightarrow> varg list \<Rightarrow> (int \<times> outbuf_t) option" where
  "kvformat out fmt args = do {
     out \<leftarrow> (case fmt of None \<Rightarrow> Some out | Some f \<Rightarrow> kvformat_loop out f args 0);
     Some (if olen out > 2147483647 then 2147483647 else int (olen out), out) }"

definition kvsnprintf :: "bytes option \<Rightarrow> usize \<Rightarrow> bytes option \<Rightarrow> varg list \<Rightarrow> (int \<times> bytes option) option" where
  "kvsnprintf buf cap fmt args = do {
     let cap = (if buf = None then 0 else cap);
     (n, out) \<leftarrow> kvformat \<lparr>obuf = buf, ocap = cap, olen = 0, oused = 0, oemit = False, oemitted = []\<rparr> fmt args;
     if cap \<noteq> 0 then do {
       b \<leftarrow> obuf out;
       b' \<leftarrow> arr_set b (if olen out < cap then olen out else cap - 1) 0;
       Some (n, Some b') }
     else Some (n, obuf out) }"

text \<open>
  \<open>kvprintf_emit_buffered\<close> returns the chunks its callback received, in order; \<open>emit\<close> says
  whether the callback pointer is nonnull.
\<close>

definition kvprintf_emit_buffered :: "bool \<Rightarrow> bytes option \<Rightarrow> usize \<Rightarrow> bytes option \<Rightarrow> varg list \<Rightarrow> (int \<times> bytes list) option" where
  "kvprintf_emit_buffered emit chunk chunk_cap fmt args =
     (if \<not> emit \<or> fmt = None then Some (0, [])
      else do {
        (n, out) \<leftarrow> kvformat \<lparr>obuf = chunk, ocap = chunk_cap, olen = 0, oused = 0, oemit = emit, oemitted = []\<rparr> fmt args;
        out \<leftarrow> out_flush out;
        Some (n, oemitted out) })"

definition KPRINTF_CHUNK_SIZE :: nat where
  "KPRINTF_CHUNK_SIZE = 256"

text \<open>
  \<open>kprintf\<close> with the uninitialised stack buffer it formats through; its result is the list of
  calls of \<^verbatim>\<open>console_write_n\<close> (a zero-length chunk is dropped by \<^verbatim>\<open>console_emit\<close>).
\<close>

definition kprintf :: "bytes \<Rightarrow> bytes option \<Rightarrow> varg list \<Rightarrow> (int \<times> bytes list) option" where
  "kprintf chunk fmt args =
     map_option (map_prod id (filter (\<lambda>k. k \<noteq> [])))
       (kvprintf_emit_buffered True (Some chunk) KPRINTF_CHUNK_SIZE fmt args)"

section \<open>Growing buffers\<close>

record rabbitbone_buf_out_t =
  bo_buf :: "bytes option"
  bo_cap :: usize
  bo_used :: usize

definition rabbitbone_buf_init :: "rabbitbone_buf_out_t option \<Rightarrow> bytes option \<Rightarrow> usize \<Rightarrow> rabbitbone_buf_out_t option option" where
  "rabbitbone_buf_init out b c = (case out of None \<Rightarrow> Some None | Some _ \<Rightarrow>
     (if b \<noteq> None \<and> c \<noteq> 0
      then do { b0 \<leftarrow> b; b' \<leftarrow> arr_set b0 0 0; Some (Some \<lparr>bo_buf = Some b', bo_cap = c, bo_used = 0\<rparr>) }
      else Some (Some \<lparr>bo_buf = b, bo_cap = c, bo_used = 0\<rparr>)))"

function append_loop :: "bytes \<Rightarrow> usize \<Rightarrow> usize \<Rightarrow> bytes \<Rightarrow> nat \<Rightarrow> (bytes \<times> usize) option" where
  "append_loop b c u s i = do {
     x \<leftarrow> arr_get s i;
     if x \<noteq> 0 \<and> u < c - 1 then do { b' \<leftarrow> arr_set b u x; append_loop b' c (Suc u) s (Suc i) }
     else Some (b, u) }"
  by pat_completeness auto
termination
  by (relation "measure (\<lambda>(b, c, u, s, i). length s - i)") (auto simp: arr)

declare append_loop.simps [simp del]

definition rabbitbone_buf_append_raw :: "rabbitbone_buf_out_t option \<Rightarrow> bytes option \<Rightarrow> rabbitbone_buf_out_t option option" where
  "rabbitbone_buf_append_raw out s = (case (out, s) of
      (Some o', Some str) \<Rightarrow>
        (if bo_buf o' = None \<or> bo_cap o' = 0 then Some out
         else do {
           b \<leftarrow> bo_buf o';
           let u = (if bo_used o' \<ge> bo_cap o' then bo_cap o' - 1 else bo_used o');
           (b, u) \<leftarrow> append_loop b (bo_cap o') u str 0;
           b \<leftarrow> arr_set b (if u < bo_cap o' then u else bo_cap o' - 1) 0;
           Some (Some (o'\<lparr>bo_buf := Some b, bo_used := u\<rparr>)) })
    | _ \<Rightarrow> Some out)"

text \<open>
  The formatter writes into the object from offset \<^verbatim>\<open>used\<close> on, here its tail; \<open>buf_advance\<close>
  is the bookkeeping after the call.
\<close>

definition buf_advance :: "rabbitbone_buf_out_t \<Rightarrow> bytes \<Rightarrow> usize \<Rightarrow> usize \<Rightarrow> int \<Rightarrow> rabbitbone_buf_out_t option" where
  "buf_advance o' b u rm wrote =
     (if wrote \<le> 0 then Some (o'\<lparr>bo_buf := Some b, bo_used := u\<rparr>)
      else do {
        let add = (if nat wrote > rm - 1 then rm - 1 else nat wrote);
        let u = u + add;
        b \<leftarrow> arr_set b (if u < bo_cap o' then u else bo_cap o' - 1) 0;
        Some (o'\<lparr>bo_buf := Some b, bo_used := u\<rparr>) })"

definition rabbitbone_buf_vappendf :: "rabbitbone_buf_out_t option \<Rightarrow> bytes option \<Rightarrow> varg list \<Rightarrow> rabbitbone_buf_out_t option option" where
  "rabbitbone_buf_vappendf out fmt args = (case out of None \<Rightarrow> Some None | Some o' \<Rightarrow>
     (if bo_buf o' = None \<or> bo_cap o' = 0 \<or> fmt = None then Some out
      else do {
        b \<leftarrow> bo_buf o';
        let u = (if bo_used o' \<ge> bo_cap o' then bo_cap o' - 1 else bo_used o');
        let rm = bo_cap o' - u;
        (wrote, t) \<leftarrow> kvsnprintf (Some (drop u b)) rm fmt args;
        t \<leftarrow> t;
        o' \<leftarrow> buf_advance o' (take u b @ t) u rm wrote;
        Some (Some o') }))"

section \<open>Reference semantics of a format\<close>

text \<open>
  The text a format denotes, with no buffer: numerals most significant digit first by the
  usual recursion, conversions as lists of bytes, and \<open>render\<close> as their concatenation.
\<close>

function nat_text :: "nat \<Rightarrow> bool \<Rightarrow> nat \<Rightarrow> bytes" where
  "nat_text base upper v =
     (if v < base \<or> base < 2 then [digit_map upper ! (v mod base)]
      else nat_text base upper (v div base) @ [digit_map upper ! (v mod base)])"
  by pat_completeness auto
termination
  by (relation "measure (\<lambda>(base, upper, v). v)") auto

declare nat_text.simps [simp del]

definition uint_text :: "nat \<Rightarrow> nat \<Rightarrow> bool \<Rightarrow> nat \<Rightarrow> bool \<Rightarrow> bytes" where
  "uint_text v base upper w pz =
     (let t = nat_text base upper v in replicate (w - length t) (if pz then 0x30 else 0x20) @ t)"

definition int_text :: "int \<Rightarrow> nat \<Rightarrow> bool \<Rightarrow> bytes" where
  "int_text v w pz =
     (if v < 0 then 0x2d # uint_text (nat (- v)) 10 False (w - 1) pz else uint_text (nat v) 10 False w pz)"

definition str_text :: "bytes option \<Rightarrow> bytes option" where
  "str_text s = (case s of None \<Rightarrow> Some (butlast null_text)
     | Some b \<Rightarrow> if 0 \<in> set b then Some (takeWhile (\<lambda>c. c \<noteq> 0) b) else None)"

definition conv_text :: "fmt_spec \<Rightarrow> u8 \<Rightarrow> varg list \<Rightarrow> (bytes \<times> varg list) option" where
  "conv_text sp c args =
     (let wide = (long_flag sp \<or> long_long_flag sp) in
      if c = 0x25 then Some ([0x25], args)
      else if c = 0x63 then map_option (map_prod (\<lambda>v. [word_of_int v]) id) (va_signed False args)
      else if c = 0x73 then do { (s, args) \<leftarrow> va_str args; t \<leftarrow> str_text s; Some (t, args) }
      else if c = 0x64 \<or> c = 0x69 then
        map_option (map_prod (\<lambda>v. int_text v (width sp) (pad_zero sp)) id) (va_signed wide args)
      else if c = 0x75 then
        map_option (map_prod (\<lambda>v. uint_text v 10 False (width sp) (pad_zero sp)) id) (va_unsigned wide args)
      else if c = 0x78 \<or> c = 0x58 then
        map_option (map_prod (\<lambda>v. uint_text v 16 (c = 0x58) (width sp) (pad_zero sp)) id) (va_unsigned wide args)
      else if c = 0x70 then
        map_option (map_prod (\<lambda>v. [0x30, 0x78] @ uint_text v 16 False 16 True) id) (va_unsigned True args)
      else Some ([0x25] @ (if c \<noteq> 0 then [c] else []), args))"

function render :: "bytes \<Rightarrow> varg list \<Rightarrow> nat \<Rightarrow> bytes option" where
  "render fmt args p = do {
     c \<leftarrow> arr_get fmt p;
     if c = 0 then Some []
     else if c \<noteq> 0x25 then map_option (\<lambda>t. c # t) (render fmt args (Suc p))
     else do {
       (sp, q) \<leftarrow> parse_spec fmt (Suc p);
       c \<leftarrow> arr_get fmt q;
       (t, args) \<leftarrow> conv_text sp c args;
       map_option (\<lambda>u. t @ u) (render fmt args (Suc q)) } }"
  by pat_completeness auto
termination
  by (relation "measure (\<lambda>(fmt, args, p). length fmt - p)") (auto simp: arr dest!: parse_spec_mono)

declare render.simps [simp del]

section \<open>Digits\<close>

lemma length_digit_map [simp]: "length (digit_map upper) = 16"
  by (simp add: digit_map_def)

lemma nat_text_nonempty [simp]: "nat_text base upper v \<noteq> []"
  by (subst nat_text.simps) simp

lemma digits_loop_spec:
  "2 \<le> base \<Longrightarrow> base \<le> 16 \<Longrightarrow> v < base ^ k \<Longrightarrow> 0 < k \<Longrightarrow> length ds + k \<le> 65 \<Longrightarrow>
   digits_loop v base upper ds = Some (ds @ rev (nat_text base upper v))"
proof (induction k arbitrary: v ds)
  case (Suc k)
  have m: "v mod base < 16" using Suc.prems mod_less_divisor [of base v] by linarith
  show ?case
  proof (cases "v < base")
    case True
    then show ?thesis
      using m Suc.prems by (subst digits_loop.simps, subst nat_text.simps) (simp add: arr_get_def)
  next
    case False
    then have k: "0 < k" using Suc.prems by (cases k) auto
    have q: "v div base \<noteq> 0" "v div base < base ^ k"
      using False Suc.prems by (auto simp: div_greater_zero_iff less_mult_imp_div_less mult.commute div_eq_0_iff)
    have "digits_loop v base upper ds = digits_loop (v div base) base upper (ds @ [digit_map upper ! (v mod base)])"
      using m q Suc.prems by (subst digits_loop.simps) simp
    also have "\<dots> = Some ((ds @ [digit_map upper ! (v mod base)]) @ rev (nat_text base upper (v div base)))"
      using Suc.prems k q by (intro Suc.IH) auto
    also have "\<dots> = Some (ds @ rev (nat_text base upper v))"
      using False Suc.prems by (subst nat_text.simps [of base upper v]) simp
    finally show ?thesis .
  qed
qed simp

lemma digits_u64:
  assumes "2 \<le> base" and "base \<le> 16" and "v \<le> U64_MAX"
  shows "digits_loop v base upper [] = Some (rev (nat_text base upper v))"
proof -
  have "v < 2 ^ 64" using assms(3) by simp
  also have "(2 :: nat) ^ 64 \<le> base ^ 64" using assms(1) by (rule power_mono) simp
  finally show ?thesis using digits_loop_spec [of base v 64 "[]" upper] assms by simp
qed


lemma va_signed_bounds:
  assumes "va_signed wide args = Some (v, args')"
  shows "- (2 ^ 63) \<le> v" and "v < 2 ^ 63"
proof -
  obtain w where "args = VNum w # args'"
    using assms by (cases "(wide, args)" rule: va_signed.cases) auto
  then have v: "v = (if wide then sint w else sint (ucast w :: u32))" using assms by simp
  show "- (2 ^ 63) \<le> v" "v < 2 ^ 63"
    using v sint_ge [of w] sint_less [of w] sint_ge [of "ucast w :: u32"] sint_less [of "ucast w :: u32"]
    by (auto split: if_splits)
qed

lemma va_unsigned_bound:
  assumes "va_unsigned wide args = Some (v, args')"
  shows "v \<le> U64_MAX"
proof -
  obtain w where "args = VNum w # args'"
    using assms by (cases "(wide, args)" rule: va_unsigned.cases) auto
  then have "v = (if wide then unat w else unat (ucast w :: u32))" using assms by simp
  then show ?thesis
    using unsigned_less [of w, where 'a = nat] unsigned_less [of "ucast w :: u32", where 'a = nat]
    by (simp split: if_splits)
qed

section \<open>The sink contract\<close>

text \<open>
  What the formatter needs of an output buffer: \<open>rep out r\<close> says that \<open>out\<close> has received the
  bytes \<open>r\<close>, and emitting bytes from an object that has them never faults and appends them.
\<close>

locale sink =
  fixes rep :: "outbuf_t \<Rightarrow> bytes \<Rightarrow> bool"
  assumes emit: "rep out r \<Longrightarrow> n \<le> length s \<Longrightarrow> \<exists>out'. out_emit_bytes out s n = Some out' \<and> rep out' (r @ take n s)"
begin

lemma emit_char: "rep out r \<Longrightarrow> \<exists>out'. out_char out c = Some out' \<and> rep out' (r @ [c])"
  using emit [of out r 1 "[c]"] by (simp add: out_char_def)

lemma emit_repeat: "rep out r \<Longrightarrow> \<exists>out'. repeat_loop out c n = Some out' \<and> rep out' (r @ replicate n c)"
proof (induction n arbitrary: out r)
  case (Suc n)
  then obtain out1 where 1: "out_char out c = Some out1" "rep out1 (r @ [c])" using emit_char by blast
  show ?case using Suc.IH [OF 1(2)] 1(1) by simp
qed simp

lemma emit_digits:
  "rep out r \<Longrightarrow> n \<le> length ds \<Longrightarrow> \<exists>out'. emit_digits out ds n = Some out' \<and> rep out' (r @ rev (take n ds))"
proof (induction n arbitrary: out r)
  case (Suc n)
  obtain out1 where 1: "out_char out (ds ! n) = Some out1" "rep out1 (r @ [ds ! n])"
    using emit_char Suc.prems(1) by blast
  show ?case using Suc.IH [OF 1(2)] 1(1) Suc.prems(2) by (simp add: take_Suc_conv_app_nth)
qed simp

lemma emit_uint:
  assumes "rep out r" and "2 \<le> base" and "base \<le> 16" and "v \<le> U64_MAX"
  shows "\<exists>out'. out_uint out v base upper (int w) pz = Some out' \<and> rep out' (r @ uint_text v base upper w pz)"
proof -
  let ?t = "nat_text base upper v"
  obtain out1 where 1: "repeat_loop out (if pz then 0x30 else 0x20) (w - length ?t) = Some out1"
      "rep out1 (r @ replicate (w - length ?t) (if pz then 0x30 else 0x20))"
    using emit_repeat [OF assms(1)] by blast
  have "nat (int w - int (length ?t)) = w - length ?t" by simp
  with 1 show ?thesis
    using emit_digits [OF 1(2), of "length ?t" "rev ?t"] digits_u64 [OF assms(2-4), of upper]
    by (simp add: out_uint_def out_repeat_def uint_text_def Let_def)
qed

lemma emit_int:
  assumes "rep out r" and "- (2 ^ 63) \<le> v" and "v < 2 ^ 63"
  shows "\<exists>out'. out_int out v (int w) pz = Some out' \<and> rep out' (r @ int_text v w pz)"
proof (cases "v < 0")
  case True
  obtain out1 where 1: "out_char out 0x2d = Some out1" "rep out1 (r @ [0x2d])"
    using emit_char [OF assms(1)] by blast
  have "nat (- (v + 1)) + 1 = nat (- v)" "nat (- v) \<le> U64_MAX" using True assms(2) by simp_all
  moreover have "(if 0 < int w then int w - 1 else 0) = int (w - 1)" by simp
  ultimately show ?thesis
    using emit_uint [OF 1(2), of 10 "nat (- v)" False "w - 1" pz] 1(1) True
    by (simp add: out_int_def int_text_def)
next
  case False
  then show ?thesis
    using emit_uint [OF assms(1), of 10 "nat v" False w pz] assms(3) by (simp add: out_int_def int_text_def)
qed

lemma emit_str:
  assumes "rep out r" and "str_text s = Some t"
  shows "\<exists>out'. out_str out s = Some out' \<and> rep out' (r @ t)"
proof -
  define b where "b = (case s of None \<Rightarrow> null_text | Some b \<Rightarrow> b)"
  have z: "0 \<in> set b" and t: "t = takeWhile (\<lambda>c. c \<noteq> 0) b"
    using assms(2) by (auto simp: b_def str_text_def null_text_def split: option.splits if_splits)
  obtain k where k: "dropWhile (\<lambda>c. c \<noteq> 0) b = 0 # k"
    using z by (cases "dropWhile (\<lambda>c. c \<noteq> 0) b") (auto dest: hd_dropWhile simp: dropWhile_eq_Cons_conv)
  have bt: "b = t @ 0 # k" using takeWhile_dropWhile_id [of "\<lambda>c. c \<noteq> 0" b] k t by simp
  moreover have "0 \<notin> set t" by (auto simp: t dest: set_takeWhileD)
  ultimately have "strlen (\<lambda>_. b) (Some (0, 0)) = Some (length t)"
    by (intro strlen_cstr) (auto simp: cstr_def)
  then show ?thesis
    using emit [OF assms(1), of "length t" b] bt by (simp add: out_str_def b_def [symmetric])
qed

lemma emit_conv:
  assumes "rep out r" and "conv_text sp c args = Some (t, args')"
  shows "\<exists>out'. convert out sp c args = Some (out', args') \<and> rep out' (r @ t)"
proof -
  let ?wide = "long_flag sp \<or> long_long_flag sp"
  consider "c = 0x25" | "c = 0x63" | "c = 0x73" | "c = 0x64 \<or> c = 0x69" | "c = 0x75" | "c = 0x78 \<or> c = 0x58" | "c = 0x70"
    | "c \<notin> {0x25, 0x63, 0x73, 0x64, 0x69, 0x75, 0x78, 0x58, 0x70}" by blast
  then show ?thesis
  proof cases
    case 1
    then show ?thesis using assms(2) emit_char [OF assms(1), of "0x25"] by (auto simp: conv_text_def convert_def)
  next
    case 2
    then obtain v where v: "va_signed False args = Some (v, args')" "t = [word_of_int v]"
      using assms(2) by (auto simp: conv_text_def)
    then show ?thesis using 2 emit_char [OF assms(1), of "word_of_int v"] by (auto simp: convert_def)
  next
    case 3
    then obtain s where s: "va_str args = Some (s, args')" "str_text s = Some t"
      using assms(2) by (auto simp: conv_text_def arr)
    then show ?thesis using 3 emit_str [OF assms(1)] by (fastforce simp: convert_def)
  next
    case 4
    then obtain v where v: "va_signed ?wide args = Some (v, args')" "t = int_text v (width sp) (pad_zero sp)"
      using assms(2) by (auto simp: conv_text_def)
    then show ?thesis
      using 4 emit_int [OF assms(1) va_signed_bounds [OF v(1)], of "width sp" "pad_zero sp"]
      by (auto simp: convert_def Let_def)
  next
    case 5
    then obtain v where v: "va_unsigned ?wide args = Some (v, args')" "t = uint_text v 10 False (width sp) (pad_zero sp)"
      using assms(2) by (auto simp: conv_text_def)
    then show ?thesis
      using 5 emit_uint [OF assms(1) _ _ va_unsigned_bound [OF v(1)], of 10 False "width sp" "pad_zero sp"]
      by (auto simp: convert_def Let_def)
  next
    case 6
    then obtain v where v: "va_unsigned ?wide args = Some (v, args')" "t = uint_text v 16 (c = 0x58) (width sp) (pad_zero sp)"
      using assms(2) by (auto simp: conv_text_def)
    then show ?thesis
      using 6 emit_uint [OF assms(1) _ _ va_unsigned_bound [OF v(1)], of 16 "c = 0x58" "width sp" "pad_zero sp"]
      by (auto simp: convert_def Let_def)
  next
    case 7
    then obtain v where v: "va_unsigned True args = Some (v, args')" "t = [0x30, 0x78] @ uint_text v 16 False 16 True"
      using assms(2) by (auto simp: conv_text_def)
    obtain out1 where 1: "out_str out (Some [0x30, 0x78, 0]) = Some out1" "rep out1 (r @ [0x30, 0x78])"
      using emit_str [OF assms(1), of "Some [0x30, 0x78, 0]"] by (auto simp: str_text_def)
    show ?thesis
      using 7 1(1) v emit_uint [OF 1(2) _ _ va_unsigned_bound [OF v(1)], of 16 False 16 True]
      by (auto simp: convert_def Let_def)
  next
    case 8
    obtain out1 where 1: "out_char out 0x25 = Some out1" "rep out1 (r @ [0x25])"
      using emit_char [OF assms(1)] by blast
    show ?thesis
      using 8 1 assms(2) emit_char [OF 1(2), of c] by (auto simp: conv_text_def convert_def Let_def)
  qed
qed

lemma emit_format:
  "rep out r \<Longrightarrow> render fmt args p = Some t \<Longrightarrow> \<exists>out'. kvformat_loop out fmt args p = Some out' \<and> rep out' (r @ t)"
proof (induction fmt args p arbitrary: out r t rule: render.induct)
  case (1 fmt args p)
  then obtain c where c: "arr_get fmt p = Some c" by (auto simp: render.simps [of fmt args p] arr)
  consider "c = 0" | "c \<noteq> 0" "c \<noteq> 0x25" | "c = 0x25" by blast
  then show ?case
  proof cases
    case 1
    then show ?thesis using "1.prems" c by (simp add: render.simps [of fmt args p] kvformat_loop.simps [of _ fmt args p])
  next
    case 2
    then obtain t' where t': "render fmt args (Suc p) = Some t'" "t = c # t'"
      using "1.prems" c by (auto simp: render.simps [of fmt args p])
    obtain out1 where 1: "out_char out c = Some out1" "rep out1 (r @ [c])"
      using emit_char [OF "1.prems"(1)] by blast
    then show ?thesis
      using "1.IH"(1) [OF c 2 1(2) t'(1)] 2 c t'(2) by (simp add: kvformat_loop.simps [of _ fmt args p])
  next
    case 3
    then obtain sp q d t1 args' t2 where 2: "parse_spec fmt (Suc p) = Some (sp, q)" "arr_get fmt q = Some d"
        "conv_text sp d args = Some (t1, args')" "render fmt args' (Suc q) = Some t2" "t = t1 @ t2"
      using "1.prems" c by (auto simp: render.simps [of fmt args p] arr)
    obtain out1 where 1: "convert out sp d args = Some (out1, args')" "rep out1 (r @ t1)"
      using emit_conv [OF "1.prems"(1) 2(3)] by blast
    have "\<exists>out'. kvformat_loop out1 fmt args' (Suc q) = Some out' \<and> rep out' ((r @ t1) @ t2)"
      using "1.IH"(2) [OF c _ _ 2(1) refl 2(2) 2(3) refl 1(2) 2(4)] 3 by simp
    then show ?thesis using c 3 1(1) 2 by (simp add: kvformat_loop.simps [of _ fmt args p])
  qed
qed

end


section \<open>The two sinks of the code\<close>

lemma len_add_min: "len_add (min (length r) U64_MAX) (length s) = min (length (r @ s)) U64_MAX"
  by (auto simp: len_add_def min_def simp flip: length_0_conv)

lemma blit_blit: "d + length r + length x \<le> length b \<Longrightarrow> blit (blit b d r) (d + length r) x = blit b d (r @ x)"
  by (simp add: blit_def add.commute add.left_commute)

definition mem_rep :: "bytes option \<Rightarrow> usize \<Rightarrow> outbuf_t \<Rightarrow> bytes \<Rightarrow> bool" where
  "mem_rep buf0 cap out r \<longleftrightarrow>
     \<not> oemit out \<and> ocap out = cap \<and> cap \<le> U64_MAX \<and> olen out = min (length r) U64_MAX \<and>
     obuf out = map_option (\<lambda>b. blit b 0 (take (cap - 1) r)) buf0 \<and>
     (cap \<noteq> 0 \<longrightarrow> (\<exists>b. buf0 = Some b \<and> cap \<le> length b))"

lemma mem_rep_emit:
  assumes "mem_rep buf0 cap out r" and "n \<le> length s"
  shows "\<exists>out'. out_emit_bytes out s n = Some out' \<and> mem_rep buf0 cap out' (r @ take n s)"
proof (cases "cap \<noteq> 0 \<and> olen out < cap - 1 \<and> n \<noteq> 0")
  case True
  note m = assms(1) [unfolded mem_rep_def]
  from True m obtain b where b: "buf0 = Some b" "cap \<le> length b" by blast
  have lr: "olen out = length r" "length r < cap - 1" using True m by (auto simp: min_def split: if_splits)
  have ob: "obuf out = Some (blit b 0 r)" using m b lr by simp
  define tk where "tk = (if n < cap - 1 - length r then n else cap - 1 - length r)"
  have tk: "tk \<le> n" "length r + tk \<le> length b" using lr b by (auto simp: tk_def)
  have eq: "take (cap - 1) (r @ take n s) = r @ take tk s" using lr by (simp add: tk_def min_def)
  have "copy_in (blit b 0 r) (length r) (take tk s) = Some (blit b 0 (take (cap - 1) (r @ take n s)))"
    using tk assms(2) blit_blit [of 0 r "take tk s" b] unfolding eq by simp
  moreover have "len_add (length r) n = min (length (r @ take n s)) U64_MAX"
    using len_add_min [of r "take n s"] lr m assms(2) by simp
  ultimately show ?thesis
    using True m b lr tk assms(2) ob
    by (auto simp: out_emit_bytes_def mem_rep_def tk_def Let_def)
next
  case False
  note m = assms(1) [unfolded mem_rep_def]
  show ?thesis
  proof (cases "n = 0")
    case True
    then show ?thesis using assms(1) by (simp add: out_emit_bytes_def)
  next
    case n: False
    then have "take (cap - 1) (r @ take n s) = take (cap - 1) r"
      using False m by (auto simp: min_def split: if_splits)
    then show ?thesis
      using n False m len_add_min [of r "take n s"] assms(2) by (auto simp: out_emit_bytes_def mem_rep_def)
  qed
qed

interpretation mem: sink "mem_rep buf0 cap" for buf0 cap
  by unfold_locales (rule mem_rep_emit)

text \<open>
  The chunked callback: what has been received is what was emitted followed by the part of
  the chunk in use, and every emitted chunk is nonempty and fits in the chunk.
\<close>

definition chunk_st :: "usize \<Rightarrow> outbuf_t \<Rightarrow> bytes \<Rightarrow> bool" where
  "chunk_st c out r \<longleftrightarrow>
     oemit out \<and> ocap out = c \<and> 0 < c \<and> c \<le> U64_MAX \<and> oused out < c \<and>
     (\<forall>k \<in> set (oemitted out). k \<noteq> [] \<and> length k \<le> c) \<and>
     (\<exists>b. obuf out = Some b \<and> c \<le> length b \<and> concat (oemitted out) @ take (oused out) b = r)"

definition chunk_rep :: "usize \<Rightarrow> outbuf_t \<Rightarrow> bytes \<Rightarrow> bool" where
  "chunk_rep c out r \<longleftrightarrow> chunk_st c out r \<and> olen out = min (length r) U64_MAX"

lemma chunk_loop_spec:
  "chunk_st c out r \<Longrightarrow> n \<le> length s \<Longrightarrow>
   \<exists>out'. chunk_loop out s n off = Some out' \<and> chunk_st c out' (r @ take (n - off) (drop off s)) \<and> olen out' = olen out"
proof (induction "n - off" arbitrary: out r off rule: less_induct)
  case less
  show ?case
  proof (cases "off < n")
    case False
    then show ?thesis using less.prems by (subst chunk_loop.simps) simp
  next
    case True
    from less.prems obtain b where b: "obuf out = Some b" "c \<le> length b" "concat (oemitted out) @ take (oused out) b = r"
      "oused out < c" "c \<le> U64_MAX" "ocap out = c" "oemit out" "\<forall>k \<in> set (oemitted out). k \<noteq> [] \<and> length k \<le> c"
      by (auto simp: chunk_st_def)
    define tk where "tk = min (n - off) (c - oused out)"
    let ?x = "take tk (drop off s)"
    let ?b = "blit b (oused out) ?x"
    let ?o = "out\<lparr>obuf := Some ?b, oused := oused out + tk\<rparr>"
    have tk: "0 < tk" "off + tk \<le> n" "oused out + tk \<le> c" "length ?x = tk"
      using True b less.prems(2) by (auto simp: tk_def)
    have lb: "length ?b = length b" using tk b by (intro length_blit) simp
    have pre: "take (oused out + tk) ?b = take (oused out) b @ ?x" using tk b by (simp add: blit_def)
    define o1 where "o1 = (if oused out + tk = c then ?o\<lparr>oemitted := oemitted out @ [take c ?b], oused := 0\<rparr> else ?o)"
    have st: "chunk_st c o1 (r @ ?x)"
      using b tk lb pre by (auto simp: o1_def chunk_st_def)
    have fl: "(if oused ?o = ocap ?o then out_flush ?o else Some ?o) = Some o1"
      using b tk lb by (auto simp: o1_def out_flush_def)
    have "chunk_loop out s n off = chunk_loop o1 s n (off + tk)"
      using True b tk fl less.prems(2)
      by (subst chunk_loop.simps) (simp add: tk_def [symmetric])
    moreover have "?x @ take (n - (off + tk)) (drop (off + tk) s) = take (n - off) (drop off s)"
      using take_add [of tk "n - (off + tk)" "drop off s"] tk by (simp add: add.commute)
    moreover have "olen o1 = olen out" by (simp add: o1_def)
    ultimately show ?thesis
      using less.hyps [OF _ st less.prems(2), of "off + tk"] tk True by simp
  qed
qed

lemma chunk_rep_emit:
  assumes "chunk_rep c out r" and "n \<le> length s"
  shows "\<exists>out'. out_emit_bytes out s n = Some out' \<and> chunk_rep c out' (r @ take n s)"
proof (cases "n = 0")
  case False
  obtain out' where o: "chunk_loop out s n 0 = Some out'" "chunk_st c out' (r @ take n s)" "olen out' = olen out"
    using chunk_loop_spec [OF _ assms(2), of c out r 0] assms(1) by (auto simp: chunk_rep_def)
  then show ?thesis
    using False assms len_add_min [of r "take n s"]
    by (auto simp: out_emit_bytes_def chunk_rep_def chunk_st_def)
qed (use assms in \<open>simp add: out_emit_bytes_def\<close>)

interpretation chunk: sink "chunk_rep c" for c
  by unfold_locales (rule chunk_rep_emit)

section \<open>The arguments a format takes\<close>

text \<open>How a conversion and a whole format consume the arguments of a call.\<close>

definition conv_args :: "fmt_spec \<Rightarrow> u8 \<Rightarrow> varg list \<Rightarrow> varg list option" where
  "conv_args sp c args =
     (let wide = (long_flag sp \<or> long_long_flag sp) in
      if c = 0x63 then map_option snd (va_signed False args)
      else if c = 0x73 then map_option snd (va_str args)
      else if c = 0x64 \<or> c = 0x69 then map_option snd (va_signed wide args)
      else if c = 0x75 \<or> c = 0x78 \<or> c = 0x58 then map_option snd (va_unsigned wide args)
      else if c = 0x70 then map_option snd (va_unsigned True args)
      else Some args)"

function fetch_args :: "bytes \<Rightarrow> varg list \<Rightarrow> nat \<Rightarrow> varg list option" where
  "fetch_args fmt args p = do {
     c \<leftarrow> arr_get fmt p;
     if c = 0 then Some args
     else if c \<noteq> 0x25 then fetch_args fmt args (Suc p)
     else do {
       (sp, q) \<leftarrow> parse_spec fmt (Suc p);
       c \<leftarrow> arr_get fmt q;
       args \<leftarrow> conv_args sp c args;
       fetch_args fmt args (Suc q) } }"
  by pat_completeness auto
termination
  by (relation "measure (\<lambda>(fmt, args, p). length fmt - p)") (auto simp: arr dest!: parse_spec_mono)

declare fetch_args.simps [simp del]

lemma convert_fetch: "convert out sp c args = Some (out', args') \<Longrightarrow> conv_args sp c args = Some args'"
  by (auto simp: convert_def conv_args_def Let_def bind_eq_Some split: if_splits)

lemma format_fetch: "kvformat_loop out fmt args p = Some out' \<Longrightarrow> fetch_args fmt args p \<noteq> None"
proof (induction out fmt args p arbitrary: out' rule: kvformat_loop.induct)
  case (1 out fmt args p)
  then obtain c where c: "arr_get fmt p = Some c" by (auto simp: kvformat_loop.simps [of out fmt args p] arr)
  consider "c = 0" | "c \<noteq> 0" "c \<noteq> 0x25" | "c = 0x25" by blast
  then show ?case
  proof cases
    case 1
    then show ?thesis using c by (simp add: fetch_args.simps [of fmt args p])
  next
    case 2
    then obtain o1 where "out_char out c = Some o1" "kvformat_loop o1 fmt args (Suc p) = Some out'"
      using "1.prems" c by (auto simp: kvformat_loop.simps [of out fmt args p] bind_eq_Some)
    then show ?thesis using "1.IH"(1) [OF c 2] c 2 by (simp add: fetch_args.simps [of fmt args p])
  next
    case 3
    then obtain sp q d o1 args' where 2: "parse_spec fmt (Suc p) = Some (sp, q)" "arr_get fmt q = Some d"
        "convert out sp d args = Some (o1, args')" "kvformat_loop o1 fmt args' (Suc q) = Some out'"
      using "1.prems" c by (auto simp: kvformat_loop.simps [of out fmt args p] bind_eq_Some)
    have "fetch_args fmt args' (Suc q) \<noteq> None"
      using "1.IH"(2) [OF c _ _ 2(1) refl 2(2) 2(3) refl 2(4)] 3 by simp
    then show ?thesis using c 3 2 convert_fetch [OF 2(3)] by (simp add: fetch_args.simps [of fmt args p])
  qed
qed

text \<open>Simplification runs \<open>fetch_args\<close> on a literal format by these steps.\<close>

named_theorems fetch

declare parse_spec_def [fetch] conv_args_def [fetch] PRINTF_MAX_WIDTH_def [fetch]

lemma fetch_end [fetch]: "arr_get fmt p = Some 0 \<Longrightarrow> fetch_args fmt args p = Some args"
  by (simp add: fetch_args.simps [of fmt args p])

lemma fetch_char [fetch]: "arr_get fmt p = Some c \<Longrightarrow> c \<noteq> 0 \<Longrightarrow> c \<noteq> 0x25 \<Longrightarrow> fetch_args fmt args p = fetch_args fmt args (Suc p)"
  by (simp add: fetch_args.simps [of fmt args p])

lemma fetch_conv [fetch]: "arr_get fmt p = Some 0x25 \<Longrightarrow> parse_spec fmt (Suc p) = Some (sp, q) \<Longrightarrow> arr_get fmt q = Some c \<Longrightarrow>
    conv_args sp c args = Some args' \<Longrightarrow> fetch_args fmt args p = fetch_args fmt args' (Suc q)"
  by (simp add: fetch_args.simps [of fmt args p])

lemma width_stop [fetch]: "arr_get fmt p = Some c \<Longrightarrow> \<not> (0x30 \<le> c \<and> c \<le> 0x39) \<Longrightarrow> width_loop fmt p w = Some (w, p)"
  by (auto simp: width_loop.simps [of fmt p w])

lemma width_digit [fetch]: "arr_get fmt p = Some c \<Longrightarrow> 0x30 \<le> c \<Longrightarrow> c \<le> 0x39 \<Longrightarrow> width_loop fmt p w =
    width_loop fmt (Suc p) (if w > (PRINTF_MAX_WIDTH - (unat c - 0x30)) div 10 then PRINTF_MAX_WIDTH else w * 10 + (unat c - 0x30))"
  by (simp add: width_loop.simps [of fmt p w] Let_def)

text \<open>A format whose arguments fit, with terminated strings, denotes a text.\<close>

definition strings_ok :: "varg list \<Rightarrow> bool" where
  "strings_ok args = (\<forall>s. VStr (Some s) \<in> set args \<longrightarrow> 0 \<in> set s)"

lemma va_subset:
  "va_signed w args = Some (v, args') \<Longrightarrow> set args' \<subseteq> set args"
  "va_unsigned w args = Some (u, args') \<Longrightarrow> set args' \<subseteq> set args"
  "va_str args = Some (s, args') \<Longrightarrow> set args' \<subseteq> set args"
  by (cases args; cases "hd args"; auto)+

lemma va_str_ok: "va_str args = Some (s, args') \<Longrightarrow> strings_ok args \<Longrightarrow> \<exists>t. str_text s = Some t"
  by (cases args; cases "hd args") (auto simp: strings_ok_def str_text_def split: option.splits)

lemma conv_args_text:
  assumes "conv_args sp c args = Some args'" "strings_ok args"
  shows "\<exists>t. conv_text sp c args = Some (t, args')" "strings_ok args'"
proof -
  show "\<exists>t. conv_text sp c args = Some (t, args')"
    using assms va_str_ok [of args] by (auto simp: conv_args_def conv_text_def Let_def split: if_splits)
  have "set args' \<subseteq> set args"
    using assms(1) va_subset by (fastforce simp: conv_args_def Let_def split: if_splits)
  then show "strings_ok args'" using assms(2) by (auto simp: strings_ok_def)
qed

lemma render_total: "fetch_args fmt args p = Some rest \<Longrightarrow> strings_ok args \<Longrightarrow> \<exists>t. render fmt args p = Some t"
proof (induction fmt args p rule: fetch_args.induct)
  case (1 fmt args p)
  then obtain c where c: "arr_get fmt p = Some c" by (auto simp: fetch_args.simps [of fmt args p] arr)
  consider "c = 0" | "c \<noteq> 0" "c \<noteq> 0x25" | "c = 0x25" by blast
  then show ?case
  proof cases
    case 1
    then show ?thesis using c by (simp add: render.simps [of fmt args p])
  next
    case 2
    then show ?thesis using "1.IH"(1) [OF c 2] "1.prems" c by (auto simp: fetch_args.simps [of fmt args p] render.simps [of fmt args p])
  next
    case 3
    then obtain sp q d args' where 2: "parse_spec fmt (Suc p) = Some (sp, q)" "arr_get fmt q = Some d"
        "conv_args sp d args = Some args'" "fetch_args fmt args' (Suc q) = Some rest"
      using "1.prems" c by (auto simp: fetch_args.simps [of fmt args p] bind_eq_Some)
    obtain t where t: "conv_text sp d args = Some (t, args')" using conv_args_text(1) [OF 2(3) "1.prems"(2)] by blast
    have "\<exists>u. render fmt args' (Suc q) = Some u"
      using "1.IH"(2) [OF c _ _ 2(1) refl 2(2) 2(3) 2(4) conv_args_text(2) [OF 2(3) "1.prems"(2)]] 3 by simp
    then show ?thesis using c 3 2 t by (auto simp: render.simps [of fmt args p])
  qed
qed

section \<open>Formatting into memory\<close>

lemma blit_set: "d + length x < length b \<Longrightarrow> (blit b d x)[d + length x := v] = blit b d (x @ [v])"
  by (simp add: blit_def list_update_append list_update_beyond Cons_nth_drop_Suc [symmetric] del: list_update.simps)
    (simp add: list_update.simps)

lemma kvsnprintf_spec:
  assumes "render f args 0 = Some r" and "0 < c" and "c \<le> length b" and "c \<le> U64_MAX"
  shows "kvsnprintf (Some b) c (Some f) args =
     Some (int (min (length r) 2147483647), Some (blit b 0 (take (c - 1) r @ [0])))"
proof -
  let ?o = "\<lparr>obuf = Some b, ocap = c, olen = 0, oused = 0, oemit = False, oemitted = []\<rparr>"
  have "mem_rep (Some b) c ?o []" using assms by (simp add: mem_rep_def blit_def)
  then obtain out where out: "kvformat_loop ?o f args 0 = Some out" "mem_rep (Some b) c out r"
    using mem.emit_format [OF _ assms(1)] by fastforce
  let ?k = "if olen out < c then olen out else c - 1"
  have k: "?k = 0 + length (take (c - 1) r)"
    using out(2) assms(2,4) by (auto simp: mem_rep_def min_def split: if_splits)
  have "obuf out = Some (blit b 0 (take (c - 1) r))" using out(2) by (simp add: mem_rep_def)
  moreover have "arr_set (blit b 0 (take (c - 1) r)) ?k 0 = Some (blit b 0 (take (c - 1) r @ [0]))"
    unfolding k using assms(2,3) blit_set [of 0 "take (c - 1) r" b 0] by (subst arr_set_Some) auto
  moreover have "(if olen out > 2147483647 then 2147483647 else int (olen out)) = int (min (length r) 2147483647)"
    using out(2) by (auto simp: mem_rep_def min_def split: if_splits)
  ultimately show ?thesis using out(1) assms(2) by (simp add: kvsnprintf_def kvformat_def Let_def)
qed

lemma kvsnprintf_total:
  assumes "fetch_args f args 0 = Some rest" "strings_ok args" "0 < c" "c \<le> length b" "c \<le> U64_MAX"
  shows "\<exists>n b'. kvsnprintf (Some b) c (Some f) args = Some (n, Some b') \<and> length b' = length b"
proof -
  obtain r where "render f args 0 = Some r" using render_total [OF assms(1,2)] by blast
  then show ?thesis using kvsnprintf_spec [of f args r c b] assms(3-5) by simp
qed

lemma kvprintf_emit_spec:
  assumes "render f args 0 = Some r" and "0 < c" and "c \<le> length b" and "c \<le> U64_MAX"
  shows "\<exists>ks. kvprintf_emit_buffered True (Some b) c (Some f) args = Some (int (min (length r) 2147483647), ks) \<and>
     concat ks = r \<and> (\<forall>k \<in> set ks. k \<noteq> [] \<and> length k \<le> c)"
proof -
  let ?o = "\<lparr>obuf = Some b, ocap = c, olen = 0, oused = 0, oemit = True, oemitted = []\<rparr>"
  have "chunk_rep c ?o []" using assms by (simp add: chunk_rep_def chunk_st_def)
  then obtain out where out: "kvformat_loop ?o f args 0 = Some out" "chunk_rep c out r"
    using chunk.emit_format [OF _ assms(1)] by fastforce
  obtain b' where b': "obuf out = Some b'" "c \<le> length b'" "concat (oemitted out) @ take (oused out) b' = r"
      "oused out < c" "oemit out" "\<forall>k \<in> set (oemitted out). k \<noteq> [] \<and> length k \<le> c"
    using out(2) by (auto simp: chunk_rep_def chunk_st_def)
  have "(if olen out > 2147483647 then 2147483647 else int (olen out)) = int (min (length r) 2147483647)"
    using out(2) by (auto simp: chunk_rep_def min_def split: if_splits)
  then show ?thesis
    using out(1) b' by (auto simp: kvprintf_emit_buffered_def kvformat_def out_flush_def)
qed

lemma append_loop_spec:
  "0 \<notin> set xs \<Longrightarrow> s = ps @ xs @ 0 # k \<Longrightarrow> u < c \<Longrightarrow> c \<le> length b \<Longrightarrow>
   append_loop b c u s (length ps) = Some (blit b u (take (c - 1 - u) xs), u + length (take (c - 1 - u) xs))"
proof (induction xs arbitrary: b u ps)
  case Nil
  then show ?case by (subst append_loop.simps) (simp add: arr_get_def nth_append blit_def)
next
  case (Cons x xs)
  have x: "arr_get s (length ps) = Some x" "x \<noteq> 0" using Cons.prems by auto
  show ?case
  proof (cases "u < c - 1")
    case False
    then show ?thesis using x by (subst append_loop.simps) (simp add: blit_def)
  next
    case True
    have "append_loop (b[u := x]) c (Suc u) s (length (ps @ [x])) =
        Some (blit (b[u := x]) (Suc u) (take (c - 1 - Suc u) xs), Suc u + length (take (c - 1 - Suc u) xs))"
      using Cons.prems True by (intro Cons.IH) auto
    moreover have "blit (b[u := x]) (Suc u) (take (c - 1 - Suc u) xs) = blit b u (x # take (c - 1 - Suc u) xs)"
      using True Cons.prems by (simp add: blit_def take_Suc_conv_app_nth)
    moreover have "take (c - 1 - u) (x # xs) = x # take (c - 1 - Suc u) xs"
      using True by (simp add: take_Cons')
    ultimately show ?thesis using x True Cons.prems by (subst append_loop.simps) simp
  qed
qed

definition buf_text :: "rabbitbone_buf_out_t \<Rightarrow> bytes \<Rightarrow> bool" where
  "buf_text out t \<longleftrightarrow> (\<exists>b. bo_buf out = Some b \<and> bo_cap out \<le> length b \<and> bo_cap out \<le> U64_MAX \<and>
     bo_used out < bo_cap out \<and> take (bo_used out) b = t \<and> b ! bo_used out = 0)"

lemma append_raw_spec:
  assumes "buf_text out t" and "0 \<notin> set xs"
  shows "\<exists>out'. rabbitbone_buf_append_raw (Some out) (Some (xs @ [0])) = Some (Some out') \<and>
     bo_cap out' = bo_cap out \<and> buf_text out' (t @ take (bo_cap out - 1 - length t) xs)"
proof -
  obtain b where b: "bo_buf out = Some b" "bo_cap out \<le> length b" "bo_cap out \<le> U64_MAX"
      "bo_used out < bo_cap out" "take (bo_used out) b = t"
    using assms(1) by (auto simp: buf_text_def)
  let ?u = "bo_used out" let ?x = "take (bo_cap out - 1 - ?u) xs"
  have u: "length t = ?u" using b by auto
  have "append_loop b (bo_cap out) ?u (xs @ [0]) 0 = Some (blit b ?u ?x, ?u + length ?x)"
    using append_loop_spec [OF assms(2), of "xs @ [0]" "[]" "[]"] b by simp
  moreover have "?u + length ?x < bo_cap out" using b by auto
  moreover have "take (?u + length ?x) (blit b ?u ?x) = t @ ?x" using b by (simp only: take_blit)
  moreover have "length (blit b ?u ?x) = length b" using b by (intro length_blit) auto
  ultimately show ?thesis
    using b u by (auto simp: rabbitbone_buf_append_raw_def buf_text_def)
qed

lemma vappendf_spec:
  assumes "buf_text out t" and "render f args 0 = Some r"
  shows "\<exists>out'. rabbitbone_buf_vappendf (Some out) (Some f) args = Some (Some out') \<and>
     bo_cap out' = bo_cap out \<and> buf_text out' (t @ take (min (bo_cap out - 1 - length t) 2147483647) r)"
proof -
  obtain b where b: "bo_buf out = Some b" "bo_cap out \<le> length b" "bo_cap out \<le> U64_MAX"
      "bo_used out < bo_cap out" "take (bo_used out) b = t"
    using assms(1) by (auto simp: buf_text_def)
  let ?u = "bo_used out" let ?m = "bo_cap out - ?u"
  have u: "length t = ?u" using b by auto
  define x where "x = take (?m - 1) r"
  define n where "n = min (length r) 2147483647"
  have pf: "kvsnprintf (Some (drop ?u b)) ?m (Some f) args = Some (int n, Some (blit (drop ?u b) 0 (x @ [0])))"
    unfolding n_def x_def using b by (intro kvsnprintf_spec [OF assms(2)]) auto
  define b1 where "b1 = take ?u b @ blit (drop ?u b) 0 (x @ [0])"
  have b1: "b1 = t @ x @ 0 # drop (?u + length x + 1) b"
    using b by (simp add: b1_def blit_def add.commute add.left_commute)
  have lx: "?u + length x < bo_cap out" using b by (auto simp: x_def)
  have lb1: "length b1 = length b" using b1 u lx b by simp
  define k where "k = (if n > ?m - 1 then ?m - 1 else n)"
  have k: "k \<le> length x" "take k x = take (min (?m - 1) 2147483647) r"
    by (auto simp: k_def n_def x_def min_def)
  have adv: "rabbitbone_buf_vappendf (Some out) (Some f) args = map_option Some (buf_advance out b1 ?u ?m (int n))"
    using b(1,4) pf
    by (simp add: rabbitbone_buf_vappendf_def b1_def map_option_case split: option.splits)
  show ?thesis
  proof (cases "n = 0")
    case True
    then have "r = []" by (simp add: n_def min_def split: if_splits)
    then have "b1 ! ?u = 0" "take ?u b1 = t" using b1 u by (simp_all add: x_def nth_append)
    moreover have "buf_advance out b1 ?u ?m (int n) = Some (out\<lparr>bo_buf := Some b1, bo_used := ?u\<rparr>)"
      using True by (simp add: buf_advance_def)
    ultimately show ?thesis
      using \<open>r = []\<close> b(2-4) lb1 adv by (simp add: buf_text_def)
  next
    case False
    have "buf_advance out b1 ?u ?m (int n) = Some (out\<lparr>bo_buf := Some (b1[?u + k := 0]), bo_used := ?u + k\<rparr>)"
      using False b lb1 lx k(1) by (simp add: buf_advance_def k_def Let_def)
    moreover have "take (?u + k) (b1[?u + k := 0]) = t @ take k x" using b1 u k(1) by simp
    ultimately show ?thesis
      using b lb1 lx k u adv by (auto simp: buf_text_def)
  qed
qed

lemma digits_value_append: "digits_value b v (xs @ ys) = digits_value b (digits_value b v xs) ys"
  by (induction xs arbitrary: v) auto

lemma digit_value_map:
  assumes "k < 16"
  shows "digit_value (digit_map upper ! k) = int k"
proof -
  have "list_all (\<lambda>k. digit_value (digit_map upper ! k) = int k) [0..<16]"
    by (cases upper) (simp_all add: upt_rec digit_map_def digit_value_def)
  then show ?thesis using assms by (simp add: list_all_iff)
qed

lemma nat_text_value:
  assumes "2 \<le> base" and "base \<le> 16"
  shows "digits_value base 0 (nat_text base upper v) = v \<and> (\<forall>d \<in> set (nat_text base upper v). is_digit (int base) d)"
proof (induction v rule: less_induct)
  case (less v)
  have m: "v mod base < base" using assms by simp
  then have d: "digit_value (digit_map upper ! (v mod base)) = int (v mod base)"
    using assms by (intro digit_value_map) linarith
  then have dig: "is_digit (int base) (digit_map upper ! (v mod base))" using m by (simp add: is_digit_def)
  show ?case
  proof (cases "v < base")
    case True
    then show ?thesis using d dig assms by (subst (1 2) nat_text.simps) simp
  next
    case False
    then have "v div base < v" using assms by simp
    then have "digits_value base 0 (nat_text base upper (v div base)) = v div base"
      "\<forall>d \<in> set (nat_text base upper (v div base)). is_digit (int base) d" using less by auto
    then show ?thesis
      using False d dig assms by (subst (1 2) nat_text.simps) (simp add: digits_value_append)
  qed
qed


section \<open>Properties\<close>

text \<open>
  C9: \<^verbatim>\<open>kvsnprintf\<close> writes the text its format denotes, truncated. For a format whose
  conversions have their arguments, the call does not fault, the buffer holds the first
  \<^verbatim>\<open>cap - 1\<close> bytes of the text and a terminating NUL, bytes after it are unchanged, and the
  result is the length of the whole text, capped at the largest \<^verbatim>\<open>int\<close>.
\<close>

theorem kvsnprintf_truncates:
  assumes "render f args 0 = Some r" and "0 < c" and "c \<le> length b" and "c \<le> U64_MAX"
  shows "\<exists>b'. kvsnprintf (Some b) c (Some f) args = Some (int (min (length r) 2147483647), Some b') \<and>
     b' = take (c - 1) r @ [0] @ drop (length (take (c - 1) r) + 1) b"
  using kvsnprintf_spec [OF assms] by (simp add: blit_def)

theorem kvsnprintf_truncates_witness:
  "kvsnprintf (Some [1, 1, 1, 1]) 3 (Some [0x25, 0x78, 0x21, 0]) [VNum 0x4af] = Some (4, Some [0x34, 0x61, 0, 1])"
proof -
  have "render [0x25, 0x78, 0x21, 0] [VNum 0x4af] 0 = Some [0x34, 0x61, 0x66, 0x21]" by code_simp
  from kvsnprintf_truncates [OF this, of 3 "[1, 1, 1, 1]"] show ?thesis by simp
qed

text \<open>
  \<^verbatim>\<open>kprintf\<close> loses and reorders nothing: the pieces handed to the console, each nonempty
  and no longer than the 256-byte stack chunk, concatenate to the text of the format.
\<close>

theorem kprintf_emits_text:
  assumes "render f args 0 = Some r" and "length chunk = KPRINTF_CHUNK_SIZE"
  shows "\<exists>ks. kprintf chunk (Some f) args = Some (int (min (length r) 2147483647), ks) \<and>
     concat ks = r \<and> (\<forall>k \<in> set ks. k \<noteq> [] \<and> length k \<le> KPRINTF_CHUNK_SIZE)"
proof -
  obtain ks where ks: "kvprintf_emit_buffered True (Some chunk) KPRINTF_CHUNK_SIZE (Some f) args =
        Some (int (min (length r) 2147483647), ks)"
      "concat ks = r" "\<forall>k \<in> set ks. k \<noteq> [] \<and> length k \<le> KPRINTF_CHUNK_SIZE"
    using kvprintf_emit_spec [OF assms(1), of KPRINTF_CHUNK_SIZE chunk] assms(2)
    by (auto simp: KPRINTF_CHUNK_SIZE_def)
  then have "filter (\<lambda>k. k \<noteq> []) ks = ks" by (simp add: filter_id_conv)
  then show ?thesis using ks by (simp add: kprintf_def)
qed

theorem kprintf_emits_text_witness:
  "\<exists>ks. kprintf (replicate 256 0) (Some [0x25, 0x35, 0x64, 0]) [VNum (- 7)] = Some (5, ks) \<and>
     concat ks = [0x2d, 0x20, 0x20, 0x20, 0x37]"
proof -
  have "render [0x25, 0x35, 0x64, 0] [VNum (- 7)] 0 = Some [0x2d, 0x20, 0x20, 0x20, 0x37]" by code_simp
  from kprintf_emits_text [OF this, of "replicate 256 0"] show ?thesis
    by (auto simp: KPRINTF_CHUNK_SIZE_def)
qed

text \<open>
  C32: printing and parsing numbers are inverse: what the kernel prints for a 64-bit value
  with \<^verbatim>\<open>%lu\<close> into a large enough buffer, \<^verbatim>\<open>strtou64\<close> reads back as that value, stopping at
  the terminating NUL.
\<close>

theorem printf_strtou64_roundtrip:
  assumes "length (nat_text 10 False (unat w)) < c" and "c \<le> length b" and "c \<le> U64_MAX"
  shows "\<exists>b'. kvsnprintf (Some b) c (Some [0x25, 0x6c, 0x75, 0]) [VNum w] =
             Some (int (min (length (nat_text 10 False (unat w))) 2147483647), Some b') \<and>
           strtou64 (\<lambda>_. b') (Some (0, 0)) 10 = Some (unat w, Some (0, length (nat_text 10 False (unat w))))"
proof -
  let ?t = "nat_text 10 False (unat w)"
  have "parse_spec [0x25, 0x6c, 0x75, 0] 1 = Some (\<lparr>pad_zero = False, width = 0, long_flag = True, long_long_flag = False\<rparr>, 2)"
    by code_simp
  then have r: "render [0x25, 0x6c, 0x75, 0] [VNum w] 0 = Some ?t"
    by (subst render.simps) (simp add: conv_text_def uint_text_def render.simps [of _ "[]"] Let_def)
  have tc: "take (c - 1) ?t = ?t" using assms(1) by simp
  define b' where "b' = ?t @ [0] @ drop (length ?t + 1) b"
  have pf: "kvsnprintf (Some b) c (Some [0x25, 0x6c, 0x75, 0]) [VNum w] = Some (int (min (length ?t) 2147483647), Some b')"
    using kvsnprintf_spec [OF r _ assms(2,3)] assms(1) tc by (simp add: blit_def b'_def)
  have "bytes_at (\<lambda>_. b') (Some (0, 0)) 0 ([] @ ?t @ [0])"
    by (auto simp: bytes_at_def b'_def nth_append arr_get_def)
  then have "strtou64 (\<lambda>_. b') (Some (0, 0)) 10 =
      Some (min (digits_value (nat 10) 0 ?t) U64_MAX, padd (Some (0, 0)) (length ([] :: bytes) + length ?t))"
    using nat_text_value [of 10 False "unat w"]
    by (intro strtou64_spec) (auto simp: is_digit_def digit_value_def)
  moreover have "unat w \<le> U64_MAX" using unsigned_less [of w, where 'a = nat] by simp
  ultimately show ?thesis using pf nat_text_value [of 10 False "unat w"] by (auto simp: padd_def)
qed

theorem printf_strtou64_roundtrip_witness:
  "\<exists>b'. kvsnprintf (Some [0, 0, 0, 0]) 4 (Some [0x25, 0x6c, 0x75, 0]) [VNum 257] = Some (3, Some b') \<and>
     strtou64 (\<lambda>_. b') (Some (0, 0)) 10 = Some (257, Some (0, 3))"
proof -
  have "nat_text 10 False (unat (257 :: u64)) = [0x32, 0x35, 0x37]" by code_simp
  then show ?thesis using printf_strtou64_roundtrip [of 257 4 "[0, 0, 0, 0]"] by (simp add: numeral_3_eq_3)
qed

text \<open>
  appending to a growing buffer appends: with the buffer holding the NUL-terminated text
  \<open>t\<close>, both append routines leave \<open>t\<close> followed by as much of the new text as fits, again
  terminated inside the capacity.
\<close>

theorem buf_append_appends:
  assumes "buf_text out t" and "0 \<notin> set xs" and "render f args 0 = Some r"
  shows "(\<exists>out'. rabbitbone_buf_append_raw (Some out) (Some (xs @ [0])) = Some (Some out') \<and>
            bo_cap out' = bo_cap out \<and> buf_text out' (t @ take (bo_cap out - 1 - length t) xs)) \<and>
         (\<exists>out'. rabbitbone_buf_vappendf (Some out) (Some f) args = Some (Some out') \<and>
            bo_cap out' = bo_cap out \<and> buf_text out' (t @ take (min (bo_cap out - 1 - length t) 2147483647) r))"
  using append_raw_spec [OF assms(1,2)] vappendf_spec [OF assms(1,3)] by blast

theorem buf_append_appends_witness:
  "\<exists>out'. rabbitbone_buf_append_raw (Some \<lparr>bo_buf = Some [65, 0, 0, 0], bo_cap = 4, bo_used = 1\<rparr>) (Some ([66, 67, 68] @ [0])) =
     Some (Some out') \<and> buf_text out' [65, 66, 67]"
proof -
  have "buf_text \<lparr>bo_buf = Some [65, 0, 0, 0], bo_cap = 4, bo_used = 1\<rparr> [65]" by (simp add: buf_text_def)
  moreover have "render [65, 0] [] 0 = Some [65]" by code_simp
  ultimately show ?thesis
    using buf_append_appends [of "\<lparr>bo_buf = Some [65, 0, 0, 0], bo_cap = 4, bo_used = 1\<rparr>" "[65]" "[66, 67, 68]" "[65, 0]" "[]" "[65]"]
    by auto
qed

text \<open>
  C39: a format that ends in a lone percent sign is read past its end. After handling the
  conversion character, here the terminating NUL, the loop steps over it and reads the
  byte behind the string, a fault when the string fills its object.
\<close>

theorem kvformat_trailing_percent_overread:
  assumes "\<forall>c \<in> set xs. c \<noteq> 0 \<and> c \<noteq> 0x25" and "0 < c" and "c \<le> length b" and "c \<le> U64_MAX"
  shows "kvsnprintf (Some b) c (Some (xs @ [0x25, 0])) args = None"
proof -
  have "kvformat_loop out (ys @ xs @ [0x25, 0]) args (length ys) = None"
    if "mem_rep (Some b) c out r" "\<forall>c \<in> set xs. c \<noteq> 0 \<and> c \<noteq> 0x25" for out r ys xs
    using that
  proof (induction xs arbitrary: ys out r)
    case Nil
    let ?f = "ys @ [0x25, 0]"
    have z: "arr_get ?f (Suc (length ys)) = Some 0" by (simp add: arr_get_def nth_append)
    then have "parse_spec ?f (Suc (length ys)) =
        Some (\<lparr>pad_zero = False, width = 0, long_flag = False, long_long_flag = False\<rparr>, Suc (length ys))"
      by (simp add: parse_spec_def width_loop.simps [of ?f])
    moreover obtain out' where "out_char out 0x25 = Some out'" using mem.emit_char [OF Nil(1)] by blast
    ultimately show ?case
      using z by (subst kvformat_loop.simps) (simp add: convert_def kvformat_loop.simps [of _ _ _ "Suc (Suc _)"])
  next
    case (Cons x xs)
    obtain out' where o: "out_char out x = Some out'" "mem_rep (Some b) c out' (r @ [x])"
      using mem.emit_char [OF Cons.prems(1)] by blast
    show ?case
      using Cons.IH [OF o(2), of "ys @ [x]"] Cons.prems(2) o(1) by (subst kvformat_loop.simps) simp
  qed
  moreover have "mem_rep (Some b) c \<lparr>obuf = Some b, ocap = c, olen = 0, oused = 0, oemit = False, oemitted = []\<rparr> []"
    using assms by (simp add: mem_rep_def blit_def)
  ultimately have "kvformat_loop \<lparr>obuf = Some b, ocap = c, olen = 0, oused = 0, oemit = False, oemitted = []\<rparr>
      ([] @ xs @ [0x25, 0]) args (length ([] :: bytes)) = None" using assms(1) by blast
  then show ?thesis by (simp add: kvsnprintf_def kvformat_def)
qed

theorem kvformat_trailing_percent_overread_witness:
  "kvsnprintf (Some (replicate 8 0)) 8 (Some [0x31, 0x30, 0x30, 0x25, 0]) [] = None"
  using kvformat_trailing_percent_overread [of "[0x31, 0x30, 0x30]" 8 "replicate 8 0" "[]"] by simp


end
