(* ===== verification/Path.thy ===== *)
theory Path
  imports Libc_String
begin

text \<open>
  Path names: \<^verbatim>\<open>kernel/vfs/path.c\<close>. Caller memory is the block memory of \<open>Libc_String\<close>, so that
  an input that overlaps the output is covered; local arrays are byte lists. The routines
  that work on the output buffer take the bytes of its object from the output pointer on.
  The reference semantics splits a path at its slashes and folds the components over a
  stack.
\<close>

definition VFS_PATH_MAX :: nat where
  "VFS_PATH_MAX = 256"

definition VFS_NAME_MAX :: nat where
  "VFS_NAME_MAX = 64"

section \<open>Operations\<close>

definition path_is_absolute :: "heap \<Rightarrow> ptr \<Rightarrow> bool option" where
  "path_is_absolute h path = (if path = None then Some False else map_option (\<lambda>c. c = 0x2f) (ld h path 0))"

definition path_fail :: "bytes \<Rightarrow> usize \<Rightarrow> (bool \<times> bytes) option" where
  "path_fail out out_size =
     (if out_size \<noteq> 0 then map_option (\<lambda>o'. (False, o')) (arr_set out 0 0) else Some (False, out))"

text \<open>The snapshot: the bytes of the input, or \<open>None\<close> inside when it is refused.\<close>

definition path_snapshot_input :: "heap \<Rightarrow> ptr \<Rightarrow> bytes option option" where
  "path_snapshot_input h inp =
     (if inp = None then Some None
      else do {
        in_len \<leftarrow> strnlen h inp VFS_PATH_MAX;
        if in_len = 0 \<or> in_len \<ge> VFS_PATH_MAX then Some None
        else do {
          c \<leftarrow> ld h inp 0;
          if c \<noteq> 0x2f then Some None
          else do {
            (b, off) \<leftarrow> inp;
            Some (Some (take in_len (drop off (h b)))) } } })"

fun pop_scan :: "bytes \<Rightarrow> nat \<Rightarrow> nat option" where
  "pop_scan out 0 = Some 0"
| "pop_scan out (Suc p) =
     (if 0 < p then do { c \<leftarrow> arr_get out p; if c \<noteq> 0x2f then pop_scan out p else Some (Suc p) } else Some (Suc p))"

definition path_pop_component :: "bytes \<Rightarrow> nat \<Rightarrow> (bool \<times> bytes \<times> nat) option" where
  "path_pop_component out pos =
     (if pos \<le> 1 then Some (False, out, pos)
      else do {
        p \<leftarrow> pop_scan out pos;
        p \<leftarrow> (if p > 1 then do { c \<leftarrow> arr_get out (p - 1); Some (if c = 0x2f then p - 1 else p) } else Some p);
        out \<leftarrow> arr_set out p 0;
        Some (True, out, p) })"

definition path_component_byte_allowed :: "u8 \<Rightarrow> bool" where
  "path_component_byte_allowed c = (c \<ge> 0x20 \<and> c \<noteq> 0x7f \<and> c \<noteq> 0x5c)"

definition path_append_component :: "bytes \<Rightarrow> usize \<Rightarrow> nat \<Rightarrow> bytes \<Rightarrow> (bool \<times> bytes \<times> nat) option" where
  "path_append_component out out_size pos nm =
     (let len = length nm in
      if len = 0 then Some (True, out, pos)
      else if len \<ge> VFS_NAME_MAX then Some (False, out, pos)
      else if \<not> list_all path_component_byte_allowed nm then Some (False, out, pos)
      else do {
        let slash = (if pos > 1 then 1 else 0);
        let need = slash + len + 1;
        if need > out_size \<or> pos > out_size - need then Some (False, out, pos)
        else do {
          (out, pos) \<leftarrow> (if slash = 1 then map_option (\<lambda>o'. (o', Suc pos)) (arr_set out pos 0x2f) else Some (out, pos));
          out \<leftarrow> copy_in out pos nm;
          let pos = pos + len;
          out \<leftarrow> arr_set out pos 0;
          Some (True, out, pos) } })"

lemma drop_component_shorter:
  "tmp \<noteq> [] \<Longrightarrow> length (dropWhile (\<lambda>c. c \<noteq> (0x2f :: u8)) (dropWhile (\<lambda>c. c = 0x2f) tmp)) < length tmp"
proof (induction tmp)
  case (Cons x xs)
  have "length (dropWhile (\<lambda>c. c \<noteq> 0x2f) (dropWhile (\<lambda>c. c = 0x2f) xs)) \<le> length xs"
    using length_dropWhile_le le_trans by blast
  moreover have "length (dropWhile (\<lambda>c. c \<noteq> 0x2f) xs) \<le> length xs" by (rule length_dropWhile_le)
  ultimately show ?case by simp
qed simp

text \<open>The main loop, on the part of the snapshot that is still to be read.\<close>

function norm_loop :: "bytes \<Rightarrow> bytes \<Rightarrow> usize \<Rightarrow> nat \<Rightarrow> (bool \<times> bytes) option" where
  "norm_loop tmp out out_size pos =
     (if tmp = [] then Some (True, out)
      else do {
        let rest = dropWhile (\<lambda>c. c = 0x2f) tmp;
        let nm = takeWhile (\<lambda>c. c \<noteq> 0x2f) rest;
        let tmp = dropWhile (\<lambda>c. c \<noteq> 0x2f) rest;
        if nm = [] \<or> nm = [0x2e] then norm_loop tmp out out_size pos
        else if nm = [0x2e, 0x2e] then do {
          (ok, out, pos) \<leftarrow> path_pop_component out pos;
          if \<not> ok then path_fail out out_size else norm_loop tmp out out_size pos }
        else do {
          (ok, out, pos) \<leftarrow> path_append_component out out_size pos nm;
          if \<not> ok then path_fail out out_size else norm_loop tmp out out_size pos } })"
  by pat_completeness auto
termination
  by (relation "measure (\<lambda>(tmp, out, out_size, pos). length tmp)") (auto simp: drop_component_shorter)

declare norm_loop.simps [simp del]

definition path_normalize :: "heap \<Rightarrow> ptr \<Rightarrow> ptr \<Rightarrow> usize \<Rightarrow> (bool \<times> heap) option" where
  "path_normalize h inp out out_size = do {
     h \<leftarrow> (if out \<noteq> None \<and> out_size \<noteq> 0 then st h out 0 0 else Some h);
     if inp = None \<or> out = None \<or> out_size < 2 then Some (False, h)
     else do {
       snap \<leftarrow> path_snapshot_input h inp;
       case snap of None \<Rightarrow> Some (False, h)
       | Some tmp \<Rightarrow> do {
           (b, off) \<leftarrow> out;
           o1 \<leftarrow> arr_set (drop off (h b)) 0 0x2f;
           o1 \<leftarrow> arr_set o1 1 0;
           (ok, o1) \<leftarrow> norm_loop tmp o1 out_size 1;
           Some (ok, h(b := take off (h b) @ o1)) } } }"

text \<open>\<open>Some None\<close> stands for the literal \<^verbatim>\<open>""\<close> the source returns for an empty path.\<close>

function basename_loop :: "heap \<Rightarrow> ptr \<Rightarrow> nat \<Rightarrow> nat \<Rightarrow> nat option" where
  "basename_loop h path p lst = do {
     c \<leftarrow> ld h path p;
     if c = 0 then Some lst
     else do {
       lst \<leftarrow> (if c = 0x2f then do { d \<leftarrow> ld h path (Suc p); Some (if d \<noteq> 0 then Suc p else lst) } else Some lst);
       basename_loop h path (Suc p) lst } }"
  by pat_completeness auto
termination
  by (relation "measure (\<lambda>(h, path, p, lst). room h path - p)") (auto dest!: ld_room)

declare basename_loop.simps [simp del]

definition path_basename :: "heap \<Rightarrow> ptr \<Rightarrow> loc option option" where
  "path_basename h path =
     (if path = None then Some None
      else do {
        c \<leftarrow> ld h path 0;
        if c = 0 then Some None
        else do { i \<leftarrow> basename_loop h path 0 0; Some (padd path i) } })"

text \<open>\<open>tmp\<close> is the local 512-byte array, placed in an object of its own for \<open>path_normalize\<close>.\<close>

definition path_join :: "heap \<Rightarrow> nat \<Rightarrow> ptr \<Rightarrow> ptr \<Rightarrow> ptr \<Rightarrow> usize \<Rightarrow> (bool \<times> heap) option" where
  "path_join h tmpb base leaf out out_size =
     (if base = None \<or> leaf = None \<or> out = None then Some (False, h)
      else do {
        h \<leftarrow> (if out_size \<noteq> 0 then st h out 0 0 else Some h);
        bl \<leftarrow> strnlen h base VFS_PATH_MAX;
        ll \<leftarrow> strnlen h leaf VFS_PATH_MAX;
        if bl = 0 \<or> bl \<ge> VFS_PATH_MAX \<or> ll \<ge> VFS_PATH_MAX then Some (False, h)
        else (case Option.bind (add_overflow bl ll) (\<lambda>n. add_overflow n 2) of
            None \<Rightarrow> Some (False, h)
          | Some need \<Rightarrow>
              if need > length (h tmpb) then Some (False, h)
              else do {
                let tmp = Some (tmpb, 0);
                h \<leftarrow> memcpy h tmp base bl;
                c \<leftarrow> ld h tmp (bl - 1);
                (h, pos) \<leftarrow> (if c \<noteq> 0x2f then do { h \<leftarrow> st h tmp bl 0x2f; Some (h, Suc bl) } else Some (h, bl));
                h \<leftarrow> memcpy h (padd tmp pos) leaf ll;
                let pos = pos + ll;
                h \<leftarrow> st h tmp pos 0;
                path_normalize h tmp out out_size }) })"

text \<open>The two scans of \<open>path_next_component\<close>, as offsets from the cursor.\<close>

function scan_while :: "(u8 \<Rightarrow> bool) \<Rightarrow> heap \<Rightarrow> ptr \<Rightarrow> nat \<Rightarrow> nat option" where
  "scan_while P h s i = do { c \<leftarrow> ld h s i; if P c then scan_while P h s (Suc i) else Some i }"
  by pat_completeness auto
termination
  by (relation "measure (\<lambda>(P, h, s, i). room h s - i)") (auto dest: ld_room)

declare scan_while.simps [simp del]

text \<open>
  \<open>path_next_component\<close> returns whether there is a component, the new cursor and the heap
  with the component buffer written.
\<close>

definition path_next_component :: "heap \<Rightarrow> ptr \<Rightarrow> ptr \<Rightarrow> usize \<Rightarrow> (bool \<times> ptr \<times> heap) option" where
  "path_next_component h cursor component component_size =
     (if cursor = None \<or> component = None \<or> component_size = 0 then Some (False, cursor, h)
      else do {
        h \<leftarrow> st h component 0 0;
        start \<leftarrow> scan_while (\<lambda>c. c = 0x2f) h cursor 0;
        c \<leftarrow> ld h cursor start;
        if c = 0 then Some (False, padd cursor start, h)
        else do {
          p \<leftarrow> scan_while (\<lambda>c. c \<noteq> 0 \<and> c \<noteq> 0x2f) h cursor start;
          let len = p - start;
          (b, off) \<leftarrow> padd cursor start;
          if len \<ge> component_size \<or> \<not> list_all path_component_byte_allowed (take len (drop off (h b)))
          then do { h \<leftarrow> st h component 0 0; Some (False, padd cursor p, h) }
          else do {
            h \<leftarrow> memcpy h component (padd cursor start) len;
            h \<leftarrow> st h component len 0;
            Some (True, padd cursor p, h) } } })"

section \<open>Reference semantics\<close>

text \<open>
  The components of a path are the maximal slash-free pieces; \<open>norm_fold\<close> runs them over the
  stack of names of the result, refusing to leave the root, names that are too long or hold
  forbidden bytes, and prefixes of the result that do not fit in \<open>n\<close> bytes.
\<close>

function components :: "bytes \<Rightarrow> bytes list" where
  "components s =
     (let r = dropWhile (\<lambda>c. c = 0x2f) s in
      if r = [] then [] else takeWhile (\<lambda>c. c \<noteq> 0x2f) r # components (dropWhile (\<lambda>c. c \<noteq> 0x2f) r))"
  by pat_completeness auto
termination
  by (relation "measure length") (auto intro!: drop_component_shorter)

declare components.simps [simp del]

definition path_text :: "bytes list \<Rightarrow> bytes" where
  "path_text ns = (if ns = [] then [0x2f] else concat (map (\<lambda>n. 0x2f # n) ns))"

definition name_ok :: "bytes \<Rightarrow> bool" where
  "name_ok n \<longleftrightarrow> n \<noteq> [] \<and> length n < VFS_NAME_MAX \<and> list_all path_component_byte_allowed n"

fun norm_fold :: "usize \<Rightarrow> bytes list \<Rightarrow> bytes list \<Rightarrow> bytes list option" where
  "norm_fold n ns [] = Some ns"
| "norm_fold n ns (c # cs) =
     (if c = [0x2e] then norm_fold n ns cs
      else if c = [0x2e, 0x2e] then (if ns = [] then None else norm_fold n (butlast ns) cs)
      else if name_ok c \<and> length (path_text (ns @ [c])) < n then norm_fold n (ns @ [c]) cs
      else None)"

definition name_wf :: "bytes \<Rightarrow> bool" where
  "name_wf n \<longleftrightarrow> name_ok n \<and> 0x2f \<notin> set n \<and> n \<noteq> [0x2e] \<and> n \<noteq> [0x2e, 0x2e]"

lemma path_text_snoc: "path_text (ns @ [c]) = (if ns = [] then [] else path_text ns) @ 0x2f # c"
  by (simp add: path_text_def)

lemma length_path_text_pos: "0 < length (path_text ns)"
  by (cases ns) (simp_all add: path_text_def)

lemma length_path_text_1: "list_all (\<lambda>n. n \<noteq> []) ns \<Longrightarrow> 1 < length (path_text ns) \<longleftrightarrow> ns \<noteq> []"
  by (cases ns) (simp_all add: path_text_def)

section \<open>The buffer routines\<close>

text \<open>The output buffer holds the text of a stack, terminated; \<open>pos\<close> is its length.\<close>

definition out_holds :: "bytes list \<Rightarrow> usize \<Rightarrow> bytes \<Rightarrow> nat \<Rightarrow> bool" where
  "out_holds ns n out pos \<longleftrightarrow>
     n \<le> length out \<and> pos < n \<and> pos = length (path_text ns) \<and> take pos out = path_text ns \<and> out ! pos = 0"

lemma append_component_spec:
  assumes "out_holds ns n out pos" and "list_all (\<lambda>n. n \<noteq> []) ns" and "c \<noteq> []"
  shows "if name_ok c \<and> length (path_text (ns @ [c])) < n
         then \<exists>out'. path_append_component out n pos c = Some (True, out', length (path_text (ns @ [c]))) \<and>
                out_holds (ns @ [c]) n out' (length (path_text (ns @ [c]))) \<and> length out' = length out
         else path_append_component out n pos c = Some (False, out, pos)"
proof -
  have o: "n \<le> length out" "pos < n" "pos = length (path_text ns)" "take pos out = path_text ns"
    using assms(1) by (auto simp: out_holds_def)
  define sl where "sl = (if pos > 1 then 1 else (0 :: nat))"
  have sl: "sl = (if ns = [] then 0 else 1)" using length_path_text_1 [OF assms(2)] o(3) by (simp add: sl_def)
  have pos1: "pos = 1" if "ns = []" using o(3) that by (simp add: path_text_def)
  have len: "length (path_text (ns @ [c])) = pos + sl + length c"
    using o(3) pos1 sl by (simp add: path_text_snoc)
  have fit: "sl + length c + 1 > n \<or> pos > n - (sl + length c + 1) \<longleftrightarrow> \<not> length (path_text (ns @ [c])) < n"
    unfolding len by auto
  show ?thesis
  proof (cases "name_ok c \<and> length (path_text (ns @ [c])) < n")
    case False
    then show ?thesis
      using fit assms(3) unfolding sl_def by (auto simp: path_append_component_def name_ok_def Let_def)
  next
    case True
    define o1 where "o1 = (if ns = [] then out else out[pos := 0x2f])"
    have l1: "length o1 = length out" by (simp add: o1_def)
    have room: "pos + sl + length c < length o1" using True len o(1) l1 by simp
    have t1: "take (pos + sl) o1 = (if ns = [] then [0x2f] else path_text ns @ [0x2f])"
      using o sl room l1 by (auto simp: o1_def path_text_def take_Suc_conv_app_nth)
    define o2 where "o2 = (blit o1 (pos + sl) c)[pos + sl + length c := 0]"
    have l2: "length (blit o1 (pos + sl) c) = length out" using room l1 by simp
    have res: "path_append_component out n pos c = Some (True, o2, pos + sl + length c)"
    proof (cases "ns = []")
      case ns: True
      then show ?thesis
        using True fit assms(3) sl l2 room l1 o(1,2) pos1 unfolding o2_def
        by (auto simp: path_append_component_def name_ok_def o1_def Let_def)
    next
      case ns: False
      then have "pos > 1" using length_path_text_1 [OF assms(2)] o(3) by simp
      then show ?thesis
        using ns True fit assms(3) sl l2 room l1 o(1,2) unfolding o2_def
        by (auto simp: path_append_component_def name_ok_def o1_def Let_def)
    qed
    have "take (pos + sl + length c) o2 = path_text (ns @ [c])"
    proof -
      have "take (pos + sl + length c) o2 = take (pos + sl) o1 @ c"
        using room take_blit [of "pos + sl" o1 c] by (simp add: o2_def)
      then show ?thesis using t1 by (simp add: path_text_snoc)
    qed
    moreover have "o2 ! (pos + sl + length c) = 0" using room l1 l2 by (simp add: o2_def)
    ultimately have "out_holds (ns @ [c]) n o2 (length (path_text (ns @ [c])))"
      using True o(1) l2 len by (simp add: out_holds_def o2_def)
    then show ?thesis using True res l2 len by (simp add: o2_def)
  qed
qed

lemma pop_scan_spec:
  assumes "take pos out = pre @ 0x2f # c" and "0x2f \<notin> set c" and "pos \<le> length out"
  shows "pop_scan out pos = Some (Suc (length pre))"
  using assms
proof (induction c arbitrary: pos rule: rev_induct)
  case Nil
  have "length (take pos out) = Suc (length pre)" using Nil.prems(1) by simp
  then have pos: "pos = Suc (length pre)" using Nil.prems(3) by simp
  have "out ! length pre = 0x2f"
    using arg_cong [OF Nil.prems(1), of "\<lambda>l. l ! length pre"] pos by simp
  then show ?case using pos Nil.prems(3) by simp
next
  case (snoc x c)
  have "length (take pos out) = Suc (length pre + Suc (length c))" using snoc.prems(1) by simp
  then have pos: "pos = Suc (Suc (length pre + length c))" using snoc.prems(3) by simp
  let ?p = "Suc (length pre + length c)"
  have x: "out ! ?p = x"
    using arg_cong [OF snoc.prems(1), of "\<lambda>l. l ! ?p"] pos by (simp add: nth_append)
  have "take ?p out = pre @ 0x2f # c"
    using arg_cong [OF snoc.prems(1), of "take ?p"] pos by (simp add: min_def)
  then have "pop_scan out ?p = Some (Suc (length pre))"
    using snoc.prems pos by (intro snoc.IH) auto
  then show ?case using x pos snoc.prems(2,3) by simp
qed

lemma pop_component_spec:
  assumes "out_holds (ns @ [c]) n out pos" and "list_all (\<lambda>n. n \<noteq> []) (ns @ [c])" and "0x2f \<notin> set c"
  shows "\<exists>out'. path_pop_component out pos = Some (True, out', length (path_text ns)) \<and>
     out_holds ns n out' (length (path_text ns)) \<and> length out' = length out"
proof -
  have o: "n \<le> length out" "pos < n" "pos = length (path_text (ns @ [c]))" "take pos out = path_text (ns @ [c])"
    using assms(1) by (auto simp: out_holds_def)
  define pre where "pre = (if ns = [] then [] else path_text ns)"
  have tk: "take pos out = pre @ 0x2f # c" using o(4) by (simp add: pre_def path_text_snoc)
  have pos: "pos = Suc (length pre + length c)" using o(3) by (simp add: pre_def path_text_snoc)
  have sc: "pop_scan out pos = Some (Suc (length pre))"
    using pop_scan_spec [OF tk assms(3)] o(1,2) by simp
  have sl: "out ! length pre = 0x2f" using arg_cong [OF tk, of "\<lambda>l. l ! length pre"] pos by simp
  define p where "p = length (path_text ns)"
  have p: "p < pos" "p < length out" "1 < pos"
    using pos o(1,2) assms(2) by (auto simp: p_def pre_def path_text_def neq_Nil_conv)
  have "take p out = path_text ns"
  proof (cases "ns = []")
    case True
    then show ?thesis
      using arg_cong [OF tk, of "take 1"] p(3) by (simp add: p_def pre_def path_text_def min_def)
  next
    case False
    then show ?thesis
      using arg_cong [OF tk, of "take p"] p(1) by (simp add: p_def pre_def min_def)
  qed
  then have "out_holds ns n (out[p := 0]) p" using p o(1,2) by (simp add: out_holds_def p_def [symmetric])
  moreover have "path_pop_component out pos = Some (True, out[p := 0], p)"
    using sc sl p o(1,2) pos
    by (auto simp: path_pop_component_def p_def pre_def path_text_def split: if_splits)
  ultimately show ?thesis by (auto simp: p_def)
qed

section \<open>Normalisation\<close>

lemma out_holds_first: "out_holds ns n out pos \<Longrightarrow> 0 < n \<Longrightarrow> path_fail out n = Some (False, out[0 := 0])"
  by (auto simp: out_holds_def path_fail_def arr_set_def)

lemma name_wf_nonempty: "list_all name_wf ns \<Longrightarrow> list_all (\<lambda>n. n \<noteq> []) ns"
  by (auto simp: list_all_iff name_wf_def name_ok_def)

lemma norm_loop_spec:
  "out_holds ns n out pos \<Longrightarrow> list_all name_wf ns \<Longrightarrow>
   \<exists>ok out'. norm_loop tmp out n pos = Some (ok, out') \<and> length out' = length out \<and>
     (case norm_fold n ns (components tmp) of
        None \<Rightarrow> \<not> ok \<and> out' ! 0 = 0
      | Some ns' \<Rightarrow> ok \<and> list_all name_wf ns' \<and> out_holds ns' n out' (length (path_text ns')))"
proof (induction tmp arbitrary: ns out pos rule: length_induct)
  case (1 tmp)
  note IH = "1.IH" [rule_format] and h = "1.prems"(1) and wf = "1.prems"(2)
  have n0: "0 < n" and lo: "0 < length out" and pos: "pos = length (path_text ns)"
    using h by (auto simp: out_holds_def)
  define rest where "rest = dropWhile (\<lambda>c. c = 0x2f) tmp"
  define nm where "nm = takeWhile (\<lambda>c. c \<noteq> 0x2f) rest"
  define tl' where "tl' = dropWhile (\<lambda>c. c \<noteq> 0x2f) rest"
  show ?case
  proof (cases "rest = []")
    case True
    then have nl: "norm_loop tmp out n pos = Some (True, out)"
      by (subst norm_loop.simps) (simp add: rest_def [symmetric] norm_loop.simps [of "[]"] Let_def)
    moreover have "components tmp = []" using True by (subst components.simps) (simp add: rest_def)
    ultimately show ?thesis using h wf pos by auto
  next
    case False
    then have tmp: "tmp \<noteq> []" by (auto simp: rest_def)
    have "hd rest \<noteq> 0x2f" using hd_dropWhile [of "\<lambda>c. c = 0x2f" tmp] False by (simp add: rest_def)
    then have nm: "nm \<noteq> []" using False by (cases rest) (auto simp: nm_def)
    have nos: "0x2f \<notin> set nm" by (auto simp: nm_def dest: set_takeWhileD)
    have cs: "components tmp = nm # components tl'"
      using False by (subst components.simps) (simp add: rest_def nm_def tl'_def Let_def)
    have lt: "length tl' < length tmp" using drop_component_shorter [OF tmp] by (simp add: tl'_def rest_def)
    have nl: "norm_loop tmp out n pos =
       (if nm = [0x2e] then norm_loop tl' out n pos
        else if nm = [0x2e, 0x2e] then do {
          (ok, out, pos) \<leftarrow> path_pop_component out pos;
          if \<not> ok then path_fail out n else norm_loop tl' out n pos }
        else do {
          (ok, out, pos) \<leftarrow> path_append_component out n pos nm;
          if \<not> ok then path_fail out n else norm_loop tl' out n pos })"
      using tmp nm
      by (subst norm_loop.simps)
        (simp only: Let_def rest_def [symmetric] nm_def [symmetric] tl'_def [symmetric] if_False simp_thms)
    consider "nm = [0x2e]" | "nm = [0x2e, 0x2e]" "ns = []" | "nm = [0x2e, 0x2e]" "ns \<noteq> []"
      | "nm \<noteq> [0x2e]" "nm \<noteq> [0x2e, 0x2e]" by blast
    then show ?thesis
    proof cases
      case 1
      then show ?thesis using nl cs IH [OF lt h wf] by simp
    next
      case 2
      then have "path_pop_component out pos = Some (False, out, pos)"
        using pos by (simp add: path_pop_component_def path_text_def)
      then show ?thesis using 2 nl cs out_holds_first [OF h n0] lo by auto
    next
      case 3
      obtain ns' c where ns: "ns = ns' @ [c]" using 3(2) by (cases ns rule: rev_cases) auto
      have wf': "list_all name_wf ns'" "name_wf c" using wf ns by auto
      then have c: "0x2f \<notin> set c" by (simp add: name_wf_def)
      obtain o1 where o1: "path_pop_component out pos = Some (True, o1, length (path_text ns'))"
          "out_holds ns' n o1 (length (path_text ns'))" "length o1 = length out"
        using pop_component_spec [of ns' c n out pos] h name_wf_nonempty [OF wf] c unfolding ns by blast
      show ?thesis using IH [OF lt o1(2) wf'(1)] nl 3 cs o1 ns by simp
    next
      case 4
      show ?thesis
      proof (cases "name_ok nm \<and> length (path_text (ns @ [nm])) < n")
        case True
        obtain o1 where o1: "path_append_component out n pos nm = Some (True, o1, length (path_text (ns @ [nm])))"
            "out_holds (ns @ [nm]) n o1 (length (path_text (ns @ [nm])))" "length o1 = length out"
          using append_component_spec [OF h name_wf_nonempty [OF wf] nm] True by auto
        have "name_wf nm" using True 4 nos by (simp add: name_wf_def)
        then have "list_all name_wf (ns @ [nm])" using wf by simp
        then show ?thesis using IH [OF lt o1(2)] nl 4 cs o1 True by simp
      next
        case False
        then have "path_append_component out n pos nm = Some (False, out, pos)"
          using append_component_spec [OF h name_wf_nonempty [OF wf] nm] by simp
        then show ?thesis using nl 4 cs False out_holds_first [OF h n0] lo by auto
      qed
    qed
  qed
qed

text \<open>What normalising \<open>xs\<close> into a buffer of \<open>n\<close> bytes yields: the names of the result, or failure.\<close>

definition norm_ref :: "usize \<Rightarrow> bytes \<Rightarrow> bytes list option" where
  "norm_ref n xs =
     (if xs \<noteq> [] \<and> length xs < VFS_PATH_MAX \<and> hd xs = 0x2f then norm_fold n [] (components xs) else None)"

lemma snapshot_spec:
  assumes "cstr h (Some (c, s)) xs"
  shows "path_snapshot_input h (Some (c, s)) =
     Some (if xs \<noteq> [] \<and> length xs < VFS_PATH_MAX \<and> hd xs = 0x2f then Some xs else None)"
proof -
  obtain k where k: "drop s (h c) = xs @ 0 # k" using assms by (auto simp: cstr_def)
  have "arr_get (h c) s = Some (if xs = [] then 0 else hd xs)"
    using cstr_ld [OF assms, of 0] by (cases xs) auto
  then show ?thesis
    using strnlen_cstr [OF assms] k by (auto simp: path_snapshot_input_def min_def VFS_PATH_MAX_def)
qed

lemma allowed_nonzero: "path_component_byte_allowed c \<Longrightarrow> c \<noteq> 0"
  by (auto simp: path_component_byte_allowed_def)

lemma path_text_nonzero: "list_all name_wf ns \<Longrightarrow> 0 \<notin> set (path_text ns)"
  by (auto simp: path_text_def name_wf_def name_ok_def list_all_iff dest: allowed_nonzero)

text \<open>The effect of the routines on the heap: only the output object changes, from \<open>d\<close> on.\<close>

definition path_result :: "heap \<Rightarrow> nat \<Rightarrow> nat \<Rightarrow> bytes list option \<Rightarrow> bool \<Rightarrow> heap \<Rightarrow> bool" where
  "path_result h b d r ok h' \<longleftrightarrow>
     (\<forall>e. e \<noteq> b \<longrightarrow> h' e = h e) \<and> length (h' b) = length (h b) \<and> take d (h' b) = take d (h b) \<and>
     (case r of
        None \<Rightarrow> \<not> ok \<and> cstr h' (Some (b, d)) []
      | Some ns \<Rightarrow> ok \<and> list_all name_wf ns \<and> cstr h' (Some (b, d)) (path_text ns))"

lemma drop_update_0: "d < length xs \<Longrightarrow> drop d (xs[d := v]) = v # drop (Suc d) xs"
  by (simp add: drop_update_swap Cons_nth_drop_Suc [symmetric])

lemma path_normalize_spec:
  assumes "cstr h (Some (c, s)) xs" and "b \<noteq> c" and "d + n \<le> length (h b)" and "2 \<le> n"
  shows "\<exists>ok h'. path_normalize h (Some (c, s)) (Some (b, d)) n = Some (ok, h') \<and> path_result h b d (norm_ref n xs) ok h'"
proof -
  define h1 where "h1 = h(b := (h b)[d := 0])"
  have st1: "st h (Some (b, d)) 0 0 = Some h1" using assms(3,4) by (simp add: h1_def)
  have "cstr h1 (Some (c, s)) xs" using assms(1,2) by (simp add: cstr_def h1_def)
  note snap = snapshot_spec [OF this]
  show ?thesis
  proof (cases "xs \<noteq> [] \<and> length xs < VFS_PATH_MAX \<and> hd xs = 0x2f")
    case False
    have "drop d (h1 b) = 0 # drop (Suc d) (h b)" using assms(3,4) by (simp add: h1_def drop_update_0)
    then have "cstr h1 (Some (b, d)) []" by (simp add: cstr_def)
    then show ?thesis
      using st1 snap False assms(4) by (auto simp: path_normalize_def norm_ref_def path_result_def h1_def)
  next
    case True
    define o1 where "o1 = (drop d (h1 b))[0 := 0x2f, 1 := 0]"
    have lo: "length o1 = length (h b) - d" by (simp add: o1_def h1_def)
    have t1: "take (Suc 0) o1 = [0x2f]"
      using lo assms(3,4) by (simp add: o1_def h1_def take_Suc_conv_app_nth)
    have "out_holds [] n o1 1"
      using lo assms(3,4) t1 by (auto simp: out_holds_def path_text_def o1_def)
    then obtain ok o2 where o2: "norm_loop xs o1 n 1 = Some (ok, o2)" "length o2 = length o1"
        "case norm_fold n [] (components xs) of None \<Rightarrow> \<not> ok \<and> o2 ! 0 = 0
         | Some ns' \<Rightarrow> ok \<and> list_all name_wf ns' \<and> out_holds ns' n o2 (length (path_text ns'))"
      using norm_loop_spec [of "[]" n o1 1 xs] by auto
    define h2 where "h2 = h1(b := take d (h1 b) @ o2)"
    have call: "path_normalize h (Some (c, s)) (Some (b, d)) n = Some (ok, h2)"
      using st1 snap True assms(3,4) o2(1)
      by (simp add: path_normalize_def o1_def h2_def) (simp add: h1_def)
    have d2: "drop d (h2 b) = o2" "length (h2 b) = length (h b)" "take d (h2 b) = take d (h b)"
      using assms(3,4) o2(2) lo by (auto simp: h2_def h1_def)
    have "case norm_fold n [] (components xs) of None \<Rightarrow> \<not> ok \<and> cstr h2 (Some (b, d)) []
         | Some ns' \<Rightarrow> ok \<and> list_all name_wf ns' \<and> cstr h2 (Some (b, d)) (path_text ns')"
    proof (cases "norm_fold n [] (components xs)")
      case None
      then have "o2 = 0 # tl o2" using o2(2,3) lo assms(3,4) by (cases o2) auto
      then show ?thesis using None o2(3) d2(1) by (auto simp: cstr_def)
    next
      case (Some ns)
      let ?p = "length (path_text ns)"
      have oh: "take ?p o2 = path_text ns" "o2 ! ?p = 0" "?p < length o2" "list_all name_wf ns"
        using Some o2(3) by (auto simp: out_holds_def)
      then have "o2 = path_text ns @ 0 # drop (Suc ?p) o2"
        by (metis id_take_nth_drop)
      then show ?thesis using Some o2(3) d2(1) path_text_nonzero [OF oh(4)] by (auto simp: cstr_def)
    qed
    moreover have "\<forall>e. e \<noteq> b \<longrightarrow> h2 e = h e" by (simp add: h2_def h1_def)
    ultimately show ?thesis
      using call d2(2,3) True by (simp add: path_result_def norm_ref_def)
  qed
qed

section \<open>Normal forms\<close>

lemma components_slash: "0x2f \<notin> set n \<Longrightarrow> n \<noteq> [] \<Longrightarrow> r = [] \<or> hd r = 0x2f \<Longrightarrow> components (0x2f # n @ r) = n # components r"
proof -
  assume n: "0x2f \<notin> set n" "n \<noteq> []" and r: "r = [] \<or> hd r = 0x2f"
  have "dropWhile (\<lambda>c. c = 0x2f) (n @ r) = n @ r" using n by (cases n) auto
  moreover have "takeWhile (\<lambda>c. c \<noteq> 0x2f) r = []" "dropWhile (\<lambda>c. c \<noteq> 0x2f) r = r"
    using r by (cases r; simp)+
  then have "takeWhile (\<lambda>c. c \<noteq> 0x2f) (n @ r) = n" "dropWhile (\<lambda>c. c \<noteq> 0x2f) (n @ r) = r"
    using n(1) by (subst takeWhile_append2 dropWhile_append2; force)+
  ultimately show ?thesis using n by (subst components.simps) (simp add: Let_def)
qed

lemma components_path_text: "list_all name_wf ns \<Longrightarrow> components (path_text ns) = ns"
proof -
  have *: "components (concat (map (\<lambda>n. 0x2f # n) ns)) = ns" if "list_all name_wf ns" for ns
    using that
  proof (induction ns)
    case Nil
    show ?case by (subst components.simps) simp
  next
    case (Cons n ns)
    have "concat (map (\<lambda>n. 0x2f # n) ns) = [] \<or> hd (concat (map (\<lambda>n. 0x2f # n) ns)) = 0x2f"
      by (cases ns) auto
    then show ?case using Cons components_slash [of n] by (simp add: name_wf_def name_ok_def)
  qed
  moreover have "components [0x2f] = []" by (subst components.simps) simp
  ultimately show "list_all name_wf ns \<Longrightarrow> components (path_text ns) = ns" by (simp add: path_text_def)
qed

lemma length_path_text_append: "ms \<noteq> [] \<Longrightarrow> length (path_text (ns @ ms)) \<ge> length (path_text ns)"
  by (cases ms) (auto simp: path_text_def)

lemma norm_fold_wf:
  "list_all name_wf ms \<Longrightarrow> length (path_text (ns @ ms)) < n \<Longrightarrow> norm_fold n ns ms = Some (ns @ ms)"
proof (induction ms arbitrary: ns)
  case (Cons c cs)
  have "length (path_text (ns @ [c])) < n"
    using Cons.prems length_path_text_append [of cs "ns @ [c]"] by (cases "cs = []") auto
  then show ?case using Cons by (simp add: name_wf_def)
qed simp

lemma norm_fold_bound:
  "norm_fold n ns cs = Some ms \<Longrightarrow> length (path_text ns) < n \<Longrightarrow> list_all (\<lambda>n. n \<noteq> []) ns \<Longrightarrow> length (path_text ms) < n"
proof (induction n ns cs rule: norm_fold.induct)
  case (2 n ns c cs)
  have "length (path_text (butlast ns)) < n" "list_all (\<lambda>n. n \<noteq> []) (butlast ns)" if ne: "ns \<noteq> []"
  proof -
    obtain ns' x where ns: "ns = ns' @ [x]" using ne by (cases ns rule: rev_cases) auto
    then show "length (path_text (butlast ns)) < n" "list_all (\<lambda>n. n \<noteq> []) (butlast ns)"
      using 2 length_path_text_append [of "[x]" ns'] by auto
  qed
  then show ?case using 2 by (auto simp: name_ok_def split: if_splits)
qed simp

lemma components_append:
  "components (xs @ 0x2f # ys) = components xs @ components ys"
proof (induction xs rule: length_induct)
  case (1 xs)
  define r where "r = dropWhile (\<lambda>c. c = 0x2f) xs"
  have c0: "components (0x2f # ys) = components ys"
    by (subst (1 2) components.simps) simp
  show ?case
  proof (cases "r = []")
    case True
    then have all: "\<forall>c \<in> set xs. c = 0x2f" by (simp add: r_def)
    then have "dropWhile (\<lambda>c. c = 0x2f) (xs @ 0x2f # ys) = dropWhile (\<lambda>c. c = 0x2f) ys"
      by (simp add: dropWhile_append2)
    then have "components (xs @ 0x2f # ys) = components ys"
      by (subst (1 2) components.simps) simp
    moreover have "components xs = []" using True by (subst components.simps) (simp add: r_def)
    ultimately show ?thesis by simp
  next
    case False
    then have xs: "xs \<noteq> []" by (auto simp: r_def)
    obtain x where x: "x \<in> set xs" "x \<noteq> 0x2f" using False by (auto simp: r_def)
    have d: "dropWhile (\<lambda>c. c = 0x2f) (xs @ 0x2f # ys) = r @ 0x2f # ys"
      using dropWhile_append1 [of x xs "\<lambda>c. c = 0x2f" "0x2f # ys"] x by (simp add: r_def)
    define t where "t = dropWhile (\<lambda>c. c \<noteq> 0x2f) r"
    have lt: "length t < length xs" using drop_component_shorter [OF xs] by (simp add: t_def r_def)
    have cx: "components xs = takeWhile (\<lambda>c. c \<noteq> 0x2f) r # components t"
      using False by (subst components.simps) (simp add: r_def t_def Let_def)
    have "takeWhile (\<lambda>c. c \<noteq> 0x2f) (r @ 0x2f # ys) = takeWhile (\<lambda>c. c \<noteq> 0x2f) r"
      "dropWhile (\<lambda>c. c \<noteq> 0x2f) (r @ 0x2f # ys) = dropWhile (\<lambda>c. c \<noteq> 0x2f) r @ 0x2f # ys" for r
      by (induction r) auto
    note this [of r, folded t_def]
    then have "components (xs @ 0x2f # ys) = takeWhile (\<lambda>c. c \<noteq> 0x2f) r # components (t @ 0x2f # ys)"
      using d by (subst components.simps) (simp add: Let_def)
    then show ?thesis using "1.IH" [rule_format, OF lt] cx by simp
  qed
qed

section \<open>Properties\<close>

text \<open>
  C5: path normalisation implements its reference semantics. On a C string in another
  object, \<^verbatim>\<open>path_normalize\<close> neither faults nor changes memory outside the output buffer; it
  succeeds exactly when the string is an absolute path of fewer than 256 bytes whose
  components, run over the stack of names, never leave the root, hold no forbidden byte and
  always fit, and then the buffer holds the slash-separated names; otherwise it holds the
  empty string. Every name of the result is well formed: nonempty, slash-free, shorter than
  64 bytes, printable and neither \<^verbatim>\<open>.\<close> nor \<^verbatim>\<open>..\<close>.
\<close>

theorem path_normalize_correct:
  assumes "cstr h (Some (c, s)) xs" and "b \<noteq> c" and "d + n \<le> length (h b)" and "2 \<le> n"
  shows "\<exists>ok h'. path_normalize h (Some (c, s)) (Some (b, d)) n = Some (ok, h') \<and> path_result h b d (norm_ref n xs) ok h'"
  using assms by (rule path_normalize_spec)

text \<open>\<^verbatim>\<open>/a/../b\<close> normalises to \<^verbatim>\<open>/b\<close>.\<close>

theorem path_normalize_correct_witness:
  "\<exists>h'. path_normalize (\<lambda>k. if k = 0 then [0x2f, 0x61, 0x2f, 0x2e, 0x2e, 0x2f, 0x62, 0] else replicate 8 7)
       (Some (0, 0)) (Some (1, 0)) 8 = Some (True, h') \<and> cstr h' (Some (1, 0)) [0x2f, 0x62]"
proof -
  let ?h = "\<lambda>k :: nat. if k = 0 then [0x2f, 0x61, 0x2f, 0x2e, 0x2e, 0x2f, 0x62, 0] else replicate 8 (7 :: u8)"
  let ?xs = "[0x2f, 0x61, 0x2f, 0x2e, 0x2e, 0x2f, 0x62] :: bytes"
  have "cstr ?h (Some (0, 0)) ?xs" by (simp add: cstr_def)
  moreover have "norm_ref 8 ?xs = Some [[0x62]]" by code_simp
  ultimately show ?thesis
    using path_normalize_correct [of ?h 0 0 ?xs 1 0 8] by (auto simp: path_result_def path_text_def)
qed

text \<open>
  C40: normal forms are fixed points. Normalising what a successful normalisation produced,
  into any buffer of the same size, succeeds and reproduces it byte for byte.
\<close>

theorem path_normalize_idempotent:
  assumes "cstr h (Some (c, s)) xs" and "b \<noteq> c" and "d + n \<le> length (h b)" and "2 \<le> n" and "n \<le> VFS_PATH_MAX"
    and "path_normalize h (Some (c, s)) (Some (b, d)) n = Some (True, h')"
    and "b' \<noteq> b" and "d' + n \<le> length (h' b')"
  shows "\<exists>t h''. cstr h' (Some (b, d)) t \<and> path_normalize h' (Some (b, d)) (Some (b', d')) n = Some (True, h'') \<and>
     cstr h'' (Some (b', d')) t"
proof -
  have "path_result h b d (norm_ref n xs) True h'"
    using path_normalize_spec [OF assms(1-4)] assms(6) by auto
  then obtain ns where ns: "norm_ref n xs = Some ns" "list_all name_wf ns" "cstr h' (Some (b, d)) (path_text ns)"
    by (auto simp: path_result_def split: option.splits)
  have len: "length (path_text ns) < n"
    using ns(1) assms(4) by (auto simp: norm_ref_def path_text_def split: if_splits dest!: norm_fold_bound)
  moreover have "hd (path_text ns) = 0x2f" "path_text ns \<noteq> []" by (cases ns; simp add: path_text_def)+
  ultimately have "norm_ref n (path_text ns) = Some ns"
    using ns(2) assms(5) by (simp add: norm_ref_def components_path_text norm_fold_wf)
  then show ?thesis
    using path_normalize_spec [OF ns(3) assms(7,8,4)] ns(3) by (auto simp: path_result_def)
qed

theorem path_normalize_idempotent_witness:
  "\<exists>h' t h''. path_normalize (\<lambda>k. if k = 0 then [0x2f, 0x2f, 0x61, 0] else replicate 8 7) (Some (0, 0)) (Some (1, 0)) 8 =
       Some (True, h') \<and>
     cstr h' (Some (1, 0)) t \<and> path_normalize h' (Some (1, 0)) (Some (2, 0)) 8 = Some (True, h'') \<and> cstr h'' (Some (2, 0)) t"
proof -
  let ?h = "\<lambda>k :: nat. if k = 0 then [0x2f, 0x2f, 0x61, 0] else replicate 8 (7 :: u8)"
  let ?xs = "[0x2f, 0x2f, 0x61] :: bytes"
  have c: "cstr ?h (Some (0, 0)) ?xs" by (simp add: cstr_def)
  have "norm_ref 8 ?xs = Some [[0x61]]" by code_simp
  then obtain h' where h': "path_normalize ?h (Some (0, 0)) (Some (1, 0)) 8 = Some (True, h')" "h' 2 = ?h 2"
    using path_normalize_spec [OF c, of 1 0 8] by (auto simp: path_result_def)
  have "\<exists>t h''. cstr h' (Some (1, 0)) t \<and> path_normalize h' (Some (1, 0)) (Some (2, 0)) 8 = Some (True, h'') \<and>
      cstr h'' (Some (2, 0)) t"
    by (rule path_normalize_idempotent [OF c _ _ _ _ h'(1)]) (simp_all add: VFS_PATH_MAX_def h'(2))
  then show ?thesis using h'(1) by blast
qed

end
