(* ===== verification/Phys_Mem.thy ===== *)
theory Phys_Mem
  imports Libc_String
begin

text \<open>
  Byte-addressed memory for the code that follows raw addresses (boot information, firmware
  tables): an address holds a byte or is not mapped, and reading an unmapped byte is a
  fault. Fields of packed structures are read little-endian at their offset.
\<close>

type_synonym pmem = "nat \<Rightarrow> u8 option"

fun rd_le :: "pmem \<Rightarrow> nat \<Rightarrow> nat \<Rightarrow> nat option" where
  "rd_le m a 0 = Some 0"
| "rd_le m a (Suc n) = do { b \<leftarrow> m a; r \<leftarrow> rd_le m (Suc a) n; Some (unat b + 256 * r) }"

fun rd_bytes :: "pmem \<Rightarrow> nat \<Rightarrow> nat \<Rightarrow> bytes option" where
  "rd_bytes m a 0 = Some []"
| "rd_bytes m a (Suc n) = do { b \<leftarrow> m a; r \<leftarrow> rd_bytes m (Suc a) n; Some (b # r) }"

text \<open>The bytes \<open>a\<close> up to \<open>a + n\<close> are mapped.\<close>

definition mapped :: "pmem \<Rightarrow> nat \<Rightarrow> nat \<Rightarrow> bool" where
  "mapped m a n \<longleftrightarrow> (\<forall>i < n. m (a + i) \<noteq> None)"

lemma mapped_Suc: "mapped m a (Suc n) \<longleftrightarrow> m a \<noteq> None \<and> mapped m (Suc a) n"
  unfolding mapped_def by (subst All_less_Suc2) simp

lemma mapped_sub: "mapped m a n \<Longrightarrow> i + k \<le> n \<Longrightarrow> mapped m (a + i) k"
  by (simp add: mapped_def add.assoc)

lemma mapped_nth: "mapped m a n \<Longrightarrow> i < n \<Longrightarrow> \<exists>b. m (a + i) = Some b"
  by (auto simp: mapped_def)

lemma rd_le_defined: "mapped m a n \<Longrightarrow> \<exists>v. rd_le m a n = Some v \<and> v < 256 ^ n"
proof (induction n arbitrary: a)
  case (Suc n)
  then obtain b where b: "m a = Some b" "mapped m (Suc a) n" by (auto simp: mapped_Suc)
  obtain v where "rd_le m (Suc a) n = Some v" "v < 256 ^ n" using Suc.IH [OF b(2)] by blast
  moreover have "unat b < 256" using unsigned_less [of b, where 'a = nat] by simp
  ultimately show ?case using b(1) by simp
qed simp

lemma rd_le_bound: "rd_le m a n = Some v \<Longrightarrow> v < 256 ^ n"
proof (induction n arbitrary: a v)
  case (Suc n)
  then obtain b r where "m a = Some b" "rd_le m (Suc a) n = Some r" "v = unat b + 256 * r"
    by (auto simp: arr)
  moreover have "unat b < 256" using unsigned_less [of b, where 'a = nat] by simp
  ultimately show ?case using Suc.IH [of "Suc a" r] by simp
qed simp

lemma rd_bytes_defined: "mapped m a n \<Longrightarrow> \<exists>bs. rd_bytes m a n = Some bs \<and> length bs = n"
proof (induction n arbitrary: a)
  case (Suc n)
  then obtain b where b: "m a = Some b" "mapped m (Suc a) n" by (auto simp: mapped_Suc)
  then show ?case using Suc.IH [OF b(2)] by auto
qed simp

text \<open>A C string constant of the source, with its terminating NUL.\<close>

definition cbytes :: "string \<Rightarrow> bytes" where
  "cbytes s = map of_char s @ [0]"

end
