(* ===== verification/Bootinfo.thy ===== *)
theory Bootinfo
  imports Phys_Mem Printf
begin

text \<open>
  The boot information block handed over by the loader: \<^verbatim>\<open>kernel/core/bootinfo.c\<close> and
  \<^verbatim>\<open>kernel/include/rabbitbone/bootinfo.h\<close>. The block, its tables and its strings are read from
  raw memory at the addresses the block names, so that a read of an unmapped byte is a
  fault. The kernel build is modelled (the host-test variant of the range checks is not).
\<close>

section \<open>The packed structures\<close>

definition RABBITBONE_BOOT_MAGIC :: nat where "RABBITBONE_BOOT_MAGIC = 0x52424f4e"
definition RABBITBONE_BOOT_VERSION :: nat where "RABBITBONE_BOOT_VERSION = 2"
definition RABBITBONE_BOOT_FLAG_BIOS_LEGACY :: u32 where "RABBITBONE_BOOT_FLAG_BIOS_LEGACY = 1"
definition RABBITBONE_BOOT_FLAG_UEFI :: u32 where "RABBITBONE_BOOT_FLAG_UEFI = 2"
definition RABBITBONE_BOOT_FLAG_LIVE_RAMDISK :: u32 where "RABBITBONE_BOOT_FLAG_LIVE_RAMDISK = 4"
definition RABBITBONE_BOOT_CMDLINE_MAX :: nat where "RABBITBONE_BOOT_CMDLINE_MAX = 256"
definition BOOTINFO_E820_MAX :: nat where "BOOTINFO_E820_MAX = 128"
definition BOOTINFO_NAME_MAX :: nat where "BOOTINFO_NAME_MAX = 64"
definition BOOTINFO_MODULE_MAX :: nat where "BOOTINFO_MODULE_MAX = 16"
definition BOOTINFO_IDENTITY_LIMIT :: nat where "BOOTINFO_IDENTITY_LIMIT = 1024 * 1024 * 1024"
definition BOOTINFO_POINTER_MIN :: nat where "BOOTINFO_POINTER_MIN = 0x1000"

definition BOOTINFO_KNOWN_FLAGS :: u32 where
  "BOOTINFO_KNOWN_FLAGS =
     RABBITBONE_BOOT_FLAG_BIOS_LEGACY OR RABBITBONE_BOOT_FLAG_UEFI OR RABBITBONE_BOOT_FLAG_LIVE_RAMDISK"

record rabbitbone_e820_entry_t =
  e_base :: nat
  e_length :: nat
  e_type :: nat
  e_acpi :: nat

record rabbitbone_boot_module_t =
  m_base :: nat
  m_size :: nat
  m_name_addr :: nat
  m_reserved :: nat

record rabbitbone_bootinfo_t =
  bi_magic :: nat
  bi_version :: nat
  bi_e820_count :: nat
  bi_module_count :: nat
  bi_flags :: u32
  bi_boot_drive :: nat
  bi_e820_addr :: nat
  bi_kernel_lba :: nat
  bi_kernel_sectors :: nat
  bi_modules_addr :: nat
  bi_root_lba :: nat
  bi_root_sectors :: nat
  bi_cmdline_addr :: nat
  bi_cmdline_size :: nat
  bi_reserved0 :: nat
  bi_reserved1 :: "nat list"

definition ld_e820 :: "pmem \<Rightarrow> nat \<Rightarrow> rabbitbone_e820_entry_t option" where
  "ld_e820 m a = do {
     b \<leftarrow> rd_le m a 8; l \<leftarrow> rd_le m (a + 8) 8; t \<leftarrow> rd_le m (a + 16) 4; x \<leftarrow> rd_le m (a + 20) 4;
     Some \<lparr>e_base = b, e_length = l, e_type = t, e_acpi = x\<rparr> }"

definition ld_module :: "pmem \<Rightarrow> nat \<Rightarrow> rabbitbone_boot_module_t option" where
  "ld_module m a = do {
     b \<leftarrow> rd_le m a 8; s \<leftarrow> rd_le m (a + 8) 8; n \<leftarrow> rd_le m (a + 16) 8; r \<leftarrow> rd_le m (a + 24) 8;
     Some \<lparr>m_base = b, m_size = s, m_name_addr = n, m_reserved = r\<rparr> }"

definition ld_bootinfo :: "pmem \<Rightarrow> nat \<Rightarrow> rabbitbone_bootinfo_t option" where
  "ld_bootinfo m a = do {
     mg \<leftarrow> rd_le m a 4; ver \<leftarrow> rd_le m (a + 4) 4; ec \<leftarrow> rd_le m (a + 8) 2; mc \<leftarrow> rd_le m (a + 10) 2;
     fl \<leftarrow> rd_le m (a + 12) 4; bd \<leftarrow> rd_le m (a + 16) 8; ea \<leftarrow> rd_le m (a + 24) 8;
     kl \<leftarrow> rd_le m (a + 32) 8; ks \<leftarrow> rd_le m (a + 40) 8; ma \<leftarrow> rd_le m (a + 48) 8;
     rl \<leftarrow> rd_le m (a + 56) 8; rs \<leftarrow> rd_le m (a + 64) 8; ca \<leftarrow> rd_le m (a + 72) 8;
     cs \<leftarrow> rd_le m (a + 80) 4; r0 \<leftarrow> rd_le m (a + 84) 4;
     q0 \<leftarrow> rd_le m (a + 88) 8; q1 \<leftarrow> rd_le m (a + 96) 8; q2 \<leftarrow> rd_le m (a + 104) 8; q3 \<leftarrow> rd_le m (a + 112) 8;
     Some \<lparr>bi_magic = mg, bi_version = ver, bi_e820_count = ec, bi_module_count = mc, bi_flags = of_nat fl,
       bi_boot_drive = bd, bi_e820_addr = ea, bi_kernel_lba = kl, bi_kernel_sectors = ks, bi_modules_addr = ma,
       bi_root_lba = rl, bi_root_sectors = rs, bi_cmdline_addr = ca, bi_cmdline_size = cs, bi_reserved0 = r0,
       bi_reserved1 = [q0, q1, q2, q3]\<rparr> }"

definition BOOTINFO_SIZEOF :: nat where "BOOTINFO_SIZEOF = 120"
definition E820_SIZEOF :: nat where "E820_SIZEOF = 24"
definition MODULE_SIZEOF :: nat where "MODULE_SIZEOF = 32"

section \<open>Validation\<close>

text \<open>The null pointer is address 0.\<close>

definition bootinfo_ptr_ok :: "nat \<Rightarrow> bool" where
  "bootinfo_ptr_ok p = (p \<ge> BOOTINFO_POINTER_MIN \<and> p \<le> BOOTINFO_IDENTITY_LIMIT - BOOTINFO_SIZEOF)"

definition range_ok :: "nat \<Rightarrow> nat \<Rightarrow> bool" where
  "range_ok base sz =
     (if sz = 0 then True
      else case add_overflow base sz of None \<Rightarrow> False
        | Some e \<Rightarrow> \<not> (base = 0 \<or> e > BOOTINFO_IDENTITY_LIMIT))"

fun has_nul :: "pmem \<Rightarrow> nat \<Rightarrow> nat \<Rightarrow> bool option" where
  "has_nul m a 0 = Some False"
| "has_nul m a (Suc n) = do { c \<leftarrow> m a; if c = 0 then Some True else has_nul m (Suc a) n }"

definition bounded_cstr_ok :: "pmem \<Rightarrow> nat \<Rightarrow> nat \<Rightarrow> bool option" where
  "bounded_cstr_ok m addr max_len =
     (if addr = 0 \<or> max_len = 0 \<or> \<not> range_ok addr max_len then Some False else has_nul m addr max_len)"

fun bounded_cstr_len :: "pmem \<Rightarrow> nat \<Rightarrow> nat \<Rightarrow> nat option" where
  "bounded_cstr_len m s 0 = Some 0"
| "bounded_cstr_len m s (Suc n) =
     (if s = 0 then Some 0
      else do { c \<leftarrow> m s; if c = 0 then Some 0 else map_option Suc (bounded_cstr_len m (Suc s) n) })"

definition bootinfo_flags_ok :: "u32 \<Rightarrow> bool" where
  "bootinfo_flags_ok flags =
     (if flags AND NOT BOOTINFO_KNOWN_FLAGS \<noteq> 0 then False
      else if flags AND (RABBITBONE_BOOT_FLAG_BIOS_LEGACY OR RABBITBONE_BOOT_FLAG_UEFI) = 0 then False
      else if flags AND RABBITBONE_BOOT_FLAG_BIOS_LEGACY \<noteq> 0 \<and> flags AND RABBITBONE_BOOT_FLAG_UEFI \<noteq> 0 then False
      else True)"

definition bootinfo_basic_usable :: "pmem \<Rightarrow> nat \<Rightarrow> bool option" where
  "bootinfo_basic_usable m p =
     (if p = 0 \<or> \<not> bootinfo_ptr_ok p then Some False
      else do {
        info \<leftarrow> ld_bootinfo m p;
        Some (if bi_magic info \<noteq> RABBITBONE_BOOT_MAGIC \<or> bi_version info \<noteq> RABBITBONE_BOOT_VERSION then False
          else if \<not> bootinfo_flags_ok (bi_flags info) then False
          else if bi_e820_count info > BOOTINFO_E820_MAX \<or> bi_module_count info > BOOTINFO_MODULE_MAX then False
          else if bi_cmdline_size info > RABBITBONE_BOOT_CMDLINE_MAX then False
          else True) })"

text \<open>The table scans return the first complaint, \<open>Some None\<close> when there is none.\<close>

fun e820_scan :: "pmem \<Rightarrow> nat \<Rightarrow> nat \<Rightarrow> string option option" where
  "e820_scan m a 0 = Some None"
| "e820_scan m a (Suc n) = do {
     e \<leftarrow> ld_e820 m a;
     if e_length e \<noteq> 0 \<and> add_overflow (e_base e) (e_length e) = None then Some (Some ''e820 range overflow'')
     else e820_scan m (a + E820_SIZEOF) n }"

fun module_scan :: "pmem \<Rightarrow> nat \<Rightarrow> nat \<Rightarrow> string option option" where
  "module_scan m a 0 = Some None"
| "module_scan m a (Suc n) = do {
     x \<leftarrow> ld_module m a;
     if m_size x \<noteq> 0 \<and> \<not> range_ok (m_base x) (m_size x) then Some (Some ''module payload outside early identity map'')
     else do {
       ok \<leftarrow> (if m_name_addr x \<noteq> 0 then bounded_cstr_ok m (m_name_addr x) BOOTINFO_NAME_MAX else Some True);
       if \<not> ok then Some (Some ''module name is not a bounded string'')
       else module_scan m (a + MODULE_SIZEOF) n } }"

definition e820_check :: "pmem \<Rightarrow> rabbitbone_bootinfo_t \<Rightarrow> string option option" where
  "e820_check m info =
     (if bi_e820_count info = 0 then Some None
      else case mul_overflow (bi_e820_count info) E820_SIZEOF of
          None \<Rightarrow> Some (Some ''e820 table size overflow'')
        | Some sz \<Rightarrow>
            if \<not> range_ok (bi_e820_addr info) sz then Some (Some ''e820 table outside early identity map'')
            else e820_scan m (bi_e820_addr info) (bi_e820_count info))"

definition module_check :: "pmem \<Rightarrow> rabbitbone_bootinfo_t \<Rightarrow> string option option" where
  "module_check m info =
     (if bi_module_count info = 0 then Some None
      else case mul_overflow (bi_module_count info) MODULE_SIZEOF of
          None \<Rightarrow> Some (Some ''module table size overflow'')
        | Some sz \<Rightarrow>
            if \<not> range_ok (bi_modules_addr info) sz then Some (Some ''module table outside early identity map'')
            else module_scan m (bi_modules_addr info) (bi_module_count info))"

definition cmdline_check :: "pmem \<Rightarrow> rabbitbone_bootinfo_t \<Rightarrow> string option option" where
  "cmdline_check m info =
     (if bi_cmdline_size info > RABBITBONE_BOOT_CMDLINE_MAX then Some (Some ''cmdline too large'')
      else if bi_cmdline_size info \<noteq> 0 then
        (if \<not> range_ok (bi_cmdline_addr info) (bi_cmdline_size info) then Some (Some ''cmdline outside early identity map'')
         else do {
           c \<leftarrow> m (bi_cmdline_addr info + (bi_cmdline_size info - 1));
           Some (if c \<noteq> 0 then Some ''cmdline is not NUL-terminated'' else None) })
      else Some None)"

definition header_check :: "rabbitbone_bootinfo_t \<Rightarrow> string option" where
  "header_check info =
     (let flags = bi_flags info in
      if bi_magic info \<noteq> RABBITBONE_BOOT_MAGIC then Some ''bad bootinfo magic''
      else if bi_version info \<noteq> RABBITBONE_BOOT_VERSION then Some ''unsupported bootinfo version''
      else if flags AND NOT BOOTINFO_KNOWN_FLAGS \<noteq> 0 then Some ''unknown boot flags''
      else if flags AND (RABBITBONE_BOOT_FLAG_BIOS_LEGACY OR RABBITBONE_BOOT_FLAG_UEFI) = 0 then Some ''missing boot source flag''
      else if flags AND RABBITBONE_BOOT_FLAG_BIOS_LEGACY \<noteq> 0 \<and> flags AND RABBITBONE_BOOT_FLAG_UEFI \<noteq> 0
        then Some ''conflicting boot source flags''
      else if flags AND RABBITBONE_BOOT_FLAG_LIVE_RAMDISK \<noteq> 0 \<and> bi_module_count info = 0
        then Some ''live ramdisk flag without module''
      else if bi_e820_count info > BOOTINFO_E820_MAX then Some ''too many e820 entries''
      else if bi_module_count info > BOOTINFO_MODULE_MAX then Some ''too many boot modules''
      else None)"

definition bootinfo_validate_reason :: "pmem \<Rightarrow> nat \<Rightarrow> string option" where
  "bootinfo_validate_reason m p =
     (if p = 0 then Some ''null bootinfo pointer''
      else if \<not> bootinfo_ptr_ok p then Some ''bootinfo pointer outside early identity map''
      else do {
        info \<leftarrow> ld_bootinfo m p;
        case header_check info of Some r \<Rightarrow> Some r
        | None \<Rightarrow> do {
            r \<leftarrow> e820_check m info;
            case r of Some r \<Rightarrow> Some r
            | None \<Rightarrow> do {
                r \<leftarrow> module_check m info;
                case r of Some r \<Rightarrow> Some r
                | None \<Rightarrow> do {
                    r \<leftarrow> cmdline_check m info;
                    case r of Some r \<Rightarrow> Some r | None \<Rightarrow> Some ''ok'' } } } })"

definition bootinfo_validate :: "pmem \<Rightarrow> nat \<Rightarrow> bool option" where
  "bootinfo_validate m p = map_option (\<lambda>r. hd r = CHR ''o'') (bootinfo_validate_reason m p)"

section \<open>Accessors\<close>

text \<open>\<open>g\<close> is the remembered pointer \<^verbatim>\<open>g_bootinfo\<close>, 0 before boot.\<close>

definition bootinfo_remember :: "pmem \<Rightarrow> nat \<Rightarrow> nat \<Rightarrow> nat option" where
  "bootinfo_remember m g p = map_option (\<lambda>ok. if ok then p else g) (bootinfo_validate m p)"

definition bootinfo_acpi_rsdp :: "pmem \<Rightarrow> nat \<Rightarrow> nat option" where
  "bootinfo_acpi_rsdp m g = do {
     ok \<leftarrow> bootinfo_basic_usable m g;
     if \<not> ok then Some 0 else do { info \<leftarrow> ld_bootinfo m g; Some (bi_reserved1 info ! 3) } }"

text \<open>The address of entry \<open>index\<close>, 0 (null) when there is none.\<close>

definition bootinfo_e820 :: "pmem \<Rightarrow> nat \<Rightarrow> nat \<Rightarrow> nat option" where
  "bootinfo_e820 m p index = do {
     ok \<leftarrow> bootinfo_validate m p;
     if \<not> ok then Some 0
     else do {
       info \<leftarrow> ld_bootinfo m p;
       Some (if index \<ge> bi_e820_count info then 0 else bi_e820_addr info + index * E820_SIZEOF) } }"

text \<open>The object the command-line string lies in: the literal \<^verbatim>\<open>""\<close> or the bytes the block names.\<close>

definition bootinfo_cmdline :: "pmem \<Rightarrow> nat \<Rightarrow> bytes option" where
  "bootinfo_cmdline m p = do {
     ok \<leftarrow> bootinfo_validate m p;
     if \<not> ok then Some (cbytes '''')
     else do {
       info \<leftarrow> ld_bootinfo m p;
       if bi_cmdline_size info = 0 then Some (cbytes '''')
       else rd_bytes m (bi_cmdline_addr info) (bi_cmdline_size info) } }"

definition bootinfo_format_status :: "pmem \<Rightarrow> nat \<Rightarrow> bytes option \<Rightarrow> usize \<Rightarrow> bytes option option" where
  "bootinfo_format_status m g out cap =
     (if out = None \<or> cap = 0 then Some out
      else do {
        ok \<leftarrow> bootinfo_validate m g;
        if \<not> ok then do {
          r \<leftarrow> bootinfo_validate_reason m g;
          (n, out) \<leftarrow> kvsnprintf out cap (Some (cbytes ''boot: unavailable (%s)\<newline>'')) [VStr (Some (cbytes r))];
          Some out }
        else do {
          info \<leftarrow> ld_bootinfo m g;
          cmd \<leftarrow> bootinfo_cmdline m g;
          rsdp \<leftarrow> bootinfo_acpi_rsdp m g;
          (n, out) \<leftarrow> kvsnprintf out cap
            (Some (cbytes (''boot: contract=v%u source=%s drive=%llu flags=0x%x\<newline>'' @
              ''kernel: lba=%llu sectors=%llu load=0x10000..0x9f000\<newline>'' @
              ''root: device_lba=%llu sectors=%llu mount=/disk0 init=/disk0/sbin/init\<newline>'' @
              ''modules: count=%u addr=%p\<newline>'' @
              ''cmdline: %s\<newline>'' @
              ''acpi_rsdp: %p\<newline>'')))
            [VNum (of_nat (bi_version info)),
             VStr (Some (cbytes (if bi_flags info AND RABBITBONE_BOOT_FLAG_UEFI \<noteq> 0 then ''uefi-live-iso'' else ''bios-int13''))),
             VNum (of_nat (bi_boot_drive info)), VNum (ucast (bi_flags info)),
             VNum (of_nat (bi_kernel_lba info)), VNum (of_nat (bi_kernel_sectors info)),
             VNum (of_nat (bi_root_lba info)), VNum (of_nat (bi_root_sectors info)),
             VNum (of_nat (bi_module_count info)), VNum (of_nat (bi_modules_addr info)),
             VStr (Some cmd), VNum (of_nat rsdp)];
          Some out } })"

text \<open>\<open>kout\<close> is the console output of one \<^verbatim>\<open>kprintf\<close>.\<close>

definition kout :: "string \<Rightarrow> varg list \<Rightarrow> bytes option" where
  "kout f args = map_option (\<lambda>(n, ks). concat ks)
     (kprintf (replicate KPRINTF_CHUNK_SIZE 0) (Some (cbytes f)) args)"

fun dump_modules :: "pmem \<Rightarrow> nat \<Rightarrow> nat \<Rightarrow> nat \<Rightarrow> bytes option" where
  "dump_modules m a i 0 = Some []"
| "dump_modules m a i (Suc n) = do {
     x \<leftarrow> ld_module m a;
     t \<leftarrow> kout ''  module[%u] base=%llx size=%llx name=''
       [VNum (of_nat i), VNum (of_nat (m_base x)), VNum (of_nat (m_size x))];
     name \<leftarrow> (if m_name_addr x \<noteq> 0
       then do { k \<leftarrow> bounded_cstr_len m (m_name_addr x) BOOTINFO_NAME_MAX; rd_bytes m (m_name_addr x) k }
       else Some (map of_char ''module''));
     r \<leftarrow> dump_modules m (a + MODULE_SIZEOF) (Suc i) n;
     Some (t @ name @ [0x0a] @ r) }"

fun dump_e820 :: "pmem \<Rightarrow> nat \<Rightarrow> nat \<Rightarrow> nat \<Rightarrow> bytes option" where
  "dump_e820 m p i 0 = Some []"
| "dump_e820 m p i (Suc n) = do {
     a \<leftarrow> bootinfo_e820 m p i;
     e \<leftarrow> (if a = 0 then None else ld_e820 m a);
     t \<leftarrow> kout ''  [%u] base=%llx len=%llx type=%u\<newline>''
       [VNum (of_nat i), VNum (of_nat (e_base e)), VNum (of_nat (e_length e)), VNum (of_nat (e_type e))];
     r \<leftarrow> dump_e820 m p (Suc i) n;
     Some (t @ r) }"

definition bootinfo_dump :: "pmem \<Rightarrow> nat \<Rightarrow> bytes option" where
  "bootinfo_dump m p = do {
     ok \<leftarrow> bootinfo_validate m p;
     if \<not> ok then do {
       r \<leftarrow> bootinfo_validate_reason m p;
       kout ''bootinfo: invalid: %s\<newline>'' [VStr (Some (cbytes r))] }
     else do {
       info \<leftarrow> ld_bootinfo m p;
       t1 \<leftarrow> kout (''boot: v=%u source=%s drive=%llu kernel_lba=%llu kernel_sectors=%llu root_lba=%llu '' @
            ''root_sectors=%llu modules=%u flags=0x%x e820=%u\<newline>'')
         [VNum (of_nat (bi_version info)),
          VStr (Some (cbytes (if bi_flags info AND RABBITBONE_BOOT_FLAG_UEFI \<noteq> 0 then ''uefi'' else ''bios-int13''))),
          VNum (of_nat (bi_boot_drive info)), VNum (of_nat (bi_kernel_lba info)), VNum (of_nat (bi_kernel_sectors info)),
          VNum (of_nat (bi_root_lba info)), VNum (of_nat (bi_root_sectors info)), VNum (of_nat (bi_module_count info)),
          VNum (ucast (bi_flags info)), VNum (of_nat (bi_e820_count info))];
       t2 \<leftarrow> (if bi_cmdline_size info \<noteq> 0
         then do { cmd \<leftarrow> bootinfo_cmdline m p; kout (''boot: cmdline='' @ [CHR 0x27] @ ''%s'' @ [CHR 0x27] @ ''\<newline>'') [VStr (Some cmd)] } else Some []);
       t3 \<leftarrow> (if bi_module_count info \<noteq> 0 \<and> bi_modules_addr info \<noteq> 0
         then dump_modules m (bi_modules_addr info) 0 (bi_module_count info) else Some []);
       t4 \<leftarrow> dump_e820 m p 0 (bi_e820_count info);
       Some (t1 @ t2 @ t3 @ t4) } }"

section \<open>Reads stay inside the identity map\<close>

text \<open>The first gigabyte is identity mapped when this code runs.\<close>

definition identity_mapped :: "pmem \<Rightarrow> bool" where
  "identity_mapped m \<longleftrightarrow> (\<forall>a < BOOTINFO_IDENTITY_LIMIT. m a \<noteq> None)"

lemma identity_range: "identity_mapped m \<Longrightarrow> a + n \<le> BOOTINFO_IDENTITY_LIMIT \<Longrightarrow> mapped m a n"
  by (simp add: identity_mapped_def mapped_def)

lemma range_ok_mapped:
  assumes "identity_mapped m" and "range_ok a n"
  shows "mapped m a n"
  using assms by (cases "n = 0")
    (auto simp: range_ok_def mapped_def [of _ _ 0] ovf intro: identity_range split: option.splits)

lemma rd_le_sub: "mapped m a n \<Longrightarrow> i + k \<le> n \<Longrightarrow> \<exists>v. rd_le m (a + i) k = Some v"
  using rd_le_defined [OF mapped_sub] by blast

lemma ld_e820_defined: "mapped m a E820_SIZEOF \<Longrightarrow> \<exists>e. ld_e820 m a = Some e"
  using rd_le_sub [of m a 24 0 8] rd_le_sub [of m a 24 8 8] rd_le_sub [of m a 24 16 4] rd_le_sub [of m a 24 20 4]
  by (auto simp: ld_e820_def E820_SIZEOF_def)

lemma ld_module_defined: "mapped m a MODULE_SIZEOF \<Longrightarrow> \<exists>x. ld_module m a = Some x"
  using rd_le_sub [of m a 32 0 8] rd_le_sub [of m a 32 8 8] rd_le_sub [of m a 32 16 8] rd_le_sub [of m a 32 24 8]
  by (auto simp: ld_module_def MODULE_SIZEOF_def)

lemma ld_bootinfo_defined:
  assumes "mapped m a BOOTINFO_SIZEOF"
  shows "\<exists>info. ld_bootinfo m a = Some info"
proof -
  have *: "\<exists>v. rd_le m (a + i) k = Some v" if "i + k \<le> 120" for i k
    using rd_le_sub [OF assms [unfolded BOOTINFO_SIZEOF_def] that] .
  from * [of 0 4] * [of 4 4] * [of 8 2] * [of 10 2] * [of 12 4] * [of 16 8] * [of 24 8] * [of 32 8] * [of 40 8]
    * [of 48 8] * [of 56 8] * [of 64 8] * [of 72 8] * [of 80 4] * [of 84 4] * [of 88 8] * [of 96 8] * [of 104 8] * [of 112 8]
  show ?thesis by (auto simp: ld_bootinfo_def)
qed

lemma ld_bootinfo_bounds:
  "ld_bootinfo m a = Some info \<Longrightarrow> bi_e820_count info < 65536 \<and> bi_module_count info < 65536 \<and> length (bi_reserved1 info) = 4"
  by (auto simp: ld_bootinfo_def arr dest!: rd_le_bound)

lemma bootinfo_ptr_mapped: "identity_mapped m \<Longrightarrow> bootinfo_ptr_ok p \<Longrightarrow> mapped m p BOOTINFO_SIZEOF"
  by (rule identity_range) (auto simp: bootinfo_ptr_ok_def BOOTINFO_IDENTITY_LIMIT_def BOOTINFO_SIZEOF_def)

lemma has_nul_defined: "mapped m a n \<Longrightarrow> \<exists>r. has_nul m a n = Some r"
  by (induction n arbitrary: a) (auto simp: mapped_Suc)

lemma bounded_cstr_ok_defined: "identity_mapped m \<Longrightarrow> \<exists>r. bounded_cstr_ok m a n = Some r"
  by (auto simp: bounded_cstr_ok_def intro: has_nul_defined range_ok_mapped)

lemma e820_scan_defined: "mapped m a (n * E820_SIZEOF) \<Longrightarrow> \<exists>r. e820_scan m a n = Some r"
proof (induction n arbitrary: a)
  case (Suc n)
  have "mapped m a E820_SIZEOF" "mapped m (a + E820_SIZEOF) (n * E820_SIZEOF)"
    using mapped_sub [OF Suc.prems, of 0 E820_SIZEOF] mapped_sub [OF Suc.prems, of E820_SIZEOF "n * E820_SIZEOF"] by auto
  then show ?case using Suc.IH ld_e820_defined by fastforce
qed simp

lemma module_scan_defined:
  "identity_mapped m \<Longrightarrow> mapped m a (n * MODULE_SIZEOF) \<Longrightarrow> \<exists>r. module_scan m a n = Some r"
proof (induction n arbitrary: a)
  case (Suc n)
  have mp: "mapped m a MODULE_SIZEOF" "mapped m (a + MODULE_SIZEOF) (n * MODULE_SIZEOF)"
    using mapped_sub [OF Suc.prems(2), of 0 MODULE_SIZEOF] mapped_sub [OF Suc.prems(2), of MODULE_SIZEOF "n * MODULE_SIZEOF"] by auto
  obtain x where x: "ld_module m a = Some x" using ld_module_defined [OF mp(1)] by blast
  obtain r where "bounded_cstr_ok m (m_name_addr x) BOOTINFO_NAME_MAX = Some r"
    using bounded_cstr_ok_defined [OF Suc.prems(1)] by blast
  then show ?case using Suc.IH [OF Suc.prems(1) mp(2)] x by auto
qed simp

lemma checks_defined:
  assumes "identity_mapped m"
  shows "\<exists>r. e820_check m info = Some r" and "\<exists>r. module_check m info = Some r" and "\<exists>r. cmdline_check m info = Some r"
proof -
  show "\<exists>r. e820_check m info = Some r"
    using e820_scan_defined range_ok_mapped [OF assms]
    by (auto simp: e820_check_def ovf split: option.splits)
  show "\<exists>r. module_check m info = Some r"
    using module_scan_defined [OF assms] range_ok_mapped [OF assms]
    by (auto simp: module_check_def ovf split: option.splits)
  show "\<exists>r. cmdline_check m info = Some r"
    using mapped_nth [OF range_ok_mapped [OF assms], of "bi_cmdline_addr info" "bi_cmdline_size info" "bi_cmdline_size info - 1"]
    by (auto simp: cmdline_check_def)
qed

lemma validate_reason_defined:
  assumes "identity_mapped m"
  shows "\<exists>r. bootinfo_validate_reason m p = Some r"
proof (cases "p = 0 \<or> \<not> bootinfo_ptr_ok p")
  case False
  then obtain info where "ld_bootinfo m p = Some info"
    using ld_bootinfo_defined [OF bootinfo_ptr_mapped [OF assms]] by blast
  moreover obtain r1 r2 r3 where "e820_check m info = Some r1" "module_check m info = Some r2" "cmdline_check m info = Some r3"
    using checks_defined [OF assms, of info] by blast
  ultimately show ?thesis
    using False by (auto simp: bootinfo_validate_reason_def split: option.splits)
qed (auto simp: bootinfo_validate_reason_def)

section \<open>What validation establishes\<close>

definition bootinfo_sound :: "pmem \<Rightarrow> rabbitbone_bootinfo_t \<Rightarrow> bool" where
  "bootinfo_sound m info \<longleftrightarrow>
     bi_magic info = RABBITBONE_BOOT_MAGIC \<and> bi_version info = RABBITBONE_BOOT_VERSION \<and>
     bootinfo_flags_ok (bi_flags info) \<and>
     bi_e820_count info \<le> BOOTINFO_E820_MAX \<and> bi_module_count info \<le> BOOTINFO_MODULE_MAX \<and>
     (bi_e820_count info \<noteq> 0 \<longrightarrow> bi_e820_addr info + bi_e820_count info * E820_SIZEOF \<le> BOOTINFO_IDENTITY_LIMIT) \<and>
     (\<forall>i < bi_e820_count info. \<exists>e. ld_e820 m (bi_e820_addr info + i * E820_SIZEOF) = Some e \<and>
        (e_length e \<noteq> 0 \<longrightarrow> e_base e + e_length e \<le> U64_MAX)) \<and>
     (bi_module_count info \<noteq> 0 \<longrightarrow> bi_modules_addr info + bi_module_count info * MODULE_SIZEOF \<le> BOOTINFO_IDENTITY_LIMIT) \<and>
     (\<forall>i < bi_module_count info. \<exists>x. ld_module m (bi_modules_addr info + i * MODULE_SIZEOF) = Some x \<and>
        (m_size x \<noteq> 0 \<longrightarrow> 0 < m_base x \<and> m_base x + m_size x \<le> BOOTINFO_IDENTITY_LIMIT) \<and>
        (m_name_addr x \<noteq> 0 \<longrightarrow> (\<exists>k < BOOTINFO_NAME_MAX. m (m_name_addr x + k) = Some 0))) \<and>
     bi_cmdline_size info \<le> RABBITBONE_BOOT_CMDLINE_MAX \<and>
     (bi_cmdline_size info \<noteq> 0 \<longrightarrow>
        bi_cmdline_addr info + bi_cmdline_size info \<le> BOOTINFO_IDENTITY_LIMIT \<and>
        m (bi_cmdline_addr info + (bi_cmdline_size info - 1)) = Some 0)"

lemma range_ok_end: "range_ok a n \<Longrightarrow> n \<noteq> 0 \<Longrightarrow> 0 < a \<and> a + n \<le> BOOTINFO_IDENTITY_LIMIT"
  by (auto simp: range_ok_def ovf split: option.splits)

lemma has_nul_True: "has_nul m a n = Some True \<Longrightarrow> \<exists>k < n. m (a + k) = Some 0"
proof (induction n arbitrary: a)
  case (Suc n)
  then obtain c where c: "m a = Some c" "c = 0 \<or> has_nul m (Suc a) n = Some True" by (auto simp: arr split: if_splits)
  show ?case
  proof (cases "c = 0")
    case True
    then show ?thesis using c(1) by (intro exI [of _ 0]) simp
  next
    case False
    then obtain k where "k < n" "m (Suc a + k) = Some 0" using Suc.IH c(2) by blast
    then show ?thesis by (intro exI [of _ "Suc k"]) simp
  qed
qed simp

lemma e820_scan_ok:
  "e820_scan m a n = Some None \<Longrightarrow> i < n \<Longrightarrow>
   \<exists>e. ld_e820 m (a + i * E820_SIZEOF) = Some e \<and> (e_length e \<noteq> 0 \<longrightarrow> e_base e + e_length e \<le> U64_MAX)"
proof (induction n arbitrary: a i)
  case (Suc n)
  then obtain e where e: "ld_e820 m a = Some e" "e_length e \<noteq> 0 \<longrightarrow> e_base e + e_length e \<le> U64_MAX"
      "e820_scan m (a + E820_SIZEOF) n = Some None"
    by (auto simp: arr ovf split: if_splits)
  show ?case
  proof (cases i)
    case (Suc j)
    then show ?thesis using Suc.IH [OF e(3), of j] Suc.prems(2) by (simp add: add.assoc)
  qed (use e in simp)
qed simp

lemma module_scan_ok:
  "module_scan m a n = Some None \<Longrightarrow> i < n \<Longrightarrow>
   \<exists>x. ld_module m (a + i * MODULE_SIZEOF) = Some x \<and>
     (m_size x \<noteq> 0 \<longrightarrow> 0 < m_base x \<and> m_base x + m_size x \<le> BOOTINFO_IDENTITY_LIMIT) \<and>
     (m_name_addr x \<noteq> 0 \<longrightarrow> (\<exists>k < BOOTINFO_NAME_MAX. m (m_name_addr x + k) = Some 0))"
proof (induction n arbitrary: a i)
  case (Suc n)
  then obtain x where x: "ld_module m a = Some x" "m_size x \<noteq> 0 \<longrightarrow> range_ok (m_base x) (m_size x)"
      "m_name_addr x \<noteq> 0 \<longrightarrow> bounded_cstr_ok m (m_name_addr x) BOOTINFO_NAME_MAX = Some True"
      "module_scan m (a + MODULE_SIZEOF) n = Some None"
    by (auto simp: arr split: if_splits)
  show ?case
  proof (cases i)
    case 0
    have "\<exists>k < BOOTINFO_NAME_MAX. m (m_name_addr x + k) = Some 0" if "m_name_addr x \<noteq> 0"
      using x(3) that by (auto simp: bounded_cstr_ok_def dest!: has_nul_True split: if_splits)
    then show ?thesis using 0 x range_ok_end by auto
  next
    case (Suc j)
    then show ?thesis using Suc.IH [OF x(4), of j] Suc.prems(2) by (simp add: add.assoc)
  qed
qed simp

text \<open>No complaint begins with the letter that stands for success.\<close>

lemma header_reason: "header_check info = Some r \<Longrightarrow> hd r \<noteq> CHR ''o''"
  by (auto simp: header_check_def Let_def split: if_splits)

lemma e820_scan_reason: "e820_scan m a n = Some (Some r) \<Longrightarrow> hd r \<noteq> CHR ''o''"
  by (induction n arbitrary: a) (auto simp: arr split: if_splits)

lemma module_scan_reason: "module_scan m a n = Some (Some r) \<Longrightarrow> hd r \<noteq> CHR ''o''"
  by (induction n arbitrary: a) (auto simp: arr split: if_splits)

lemma e820_reason: "e820_check m info = Some (Some r) \<Longrightarrow> hd r \<noteq> CHR ''o''"
  by (auto simp: e820_check_def dest: e820_scan_reason split: if_splits option.splits)

lemma module_reason: "module_check m info = Some (Some r) \<Longrightarrow> hd r \<noteq> CHR ''o''"
  by (auto simp: module_check_def dest: module_scan_reason split: if_splits option.splits)

lemma cmdline_reason: "cmdline_check m info = Some (Some r) \<Longrightarrow> hd r \<noteq> CHR ''o''"
  by (auto simp: cmdline_check_def arr split: if_splits)

lemma validate_checks:
  assumes "bootinfo_validate m p = Some True"
  shows "bootinfo_ptr_ok p \<and> (\<exists>info. ld_bootinfo m p = Some info \<and> header_check info = None \<and>
     e820_check m info = Some None \<and> module_check m info = Some None \<and> cmdline_check m info = Some None)"
proof -
  obtain r where r: "bootinfo_validate_reason m p = Some r" "hd r = CHR ''o''"
    using assms by (auto simp: bootinfo_validate_def)
  then have p: "p \<noteq> 0" "bootinfo_ptr_ok p" by (auto simp: bootinfo_validate_reason_def split: if_splits)
  then obtain info where info: "ld_bootinfo m p = Some info"
    using r(1) by (auto simp: bootinfo_validate_reason_def arr)
  note r' = r(1) [unfolded bootinfo_validate_reason_def]
  have h: "header_check info = None"
    using r' p info r(2) header_reason [of info] by (cases "header_check info") auto
  obtain e where e: "e820_check m info = Some e" using r' p info h by (auto simp: arr)
  have e0: "e = None" using r' p info h e r(2) e820_reason [of m info] by (cases e) auto
  obtain x where x: "module_check m info = Some x" using r' p info h e e0 by (auto simp: arr)
  have x0: "x = None" using r' p info h e e0 x r(2) module_reason [of m info] by (cases x) auto
  obtain c where c: "cmdline_check m info = Some c" using r' p info h e e0 x x0 by (auto simp: arr)
  have "c = None" using r' p info h e e0 x x0 c r(2) cmdline_reason [of m info] by (cases c) auto
  then show ?thesis using p info h e e0 x x0 c by simp
qed

lemma validate_sound:
  assumes "bootinfo_validate m p = Some True"
  shows "bootinfo_ptr_ok p \<and> (\<exists>info. ld_bootinfo m p = Some info \<and> bootinfo_sound m info)"
proof -
  obtain info where i: "bootinfo_ptr_ok p" "ld_bootinfo m p = Some info" "header_check info = None"
      "e820_check m info = Some None" "module_check m info = Some None" "cmdline_check m info = Some None"
    using validate_checks [OF assms] by blast
  have h: "bi_magic info = RABBITBONE_BOOT_MAGIC" "bi_version info = RABBITBONE_BOOT_VERSION"
      "bootinfo_flags_ok (bi_flags info)" "bi_e820_count info \<le> BOOTINFO_E820_MAX" "bi_module_count info \<le> BOOTINFO_MODULE_MAX"
    using i(3) by (auto simp: header_check_def bootinfo_flags_ok_def Let_def split: if_splits)
  have e: "bi_e820_count info \<noteq> 0 \<longrightarrow> range_ok (bi_e820_addr info) (bi_e820_count info * E820_SIZEOF) \<and>
      e820_scan m (bi_e820_addr info) (bi_e820_count info) = Some None"
    using i(4) by (auto simp: e820_check_def ovf split: if_splits option.splits)
  have x: "bi_module_count info \<noteq> 0 \<longrightarrow> range_ok (bi_modules_addr info) (bi_module_count info * MODULE_SIZEOF) \<and>
      module_scan m (bi_modules_addr info) (bi_module_count info) = Some None"
    using i(5) by (auto simp: module_check_def ovf split: if_splits option.splits)
  have c: "bi_cmdline_size info \<le> RABBITBONE_BOOT_CMDLINE_MAX"
      "bi_cmdline_size info \<noteq> 0 \<longrightarrow> range_ok (bi_cmdline_addr info) (bi_cmdline_size info) \<and>
         m (bi_cmdline_addr info + (bi_cmdline_size info - 1)) = Some 0"
    using i(6) by (auto simp: cmdline_check_def arr split: if_splits)
  have nz: "E820_SIZEOF \<noteq> 0" "MODULE_SIZEOF \<noteq> 0" by (simp_all add: E820_SIZEOF_def MODULE_SIZEOF_def)
  have "bootinfo_sound m info"
    unfolding bootinfo_sound_def
    using h c e x nz e820_scan_ok [of m "bi_e820_addr info" "bi_e820_count info"]
      module_scan_ok [of m "bi_modules_addr info" "bi_module_count info"]
      range_ok_end [of "bi_e820_addr info" "bi_e820_count info * E820_SIZEOF"]
      range_ok_end [of "bi_modules_addr info" "bi_module_count info * MODULE_SIZEOF"]
      range_ok_end [of "bi_cmdline_addr info" "bi_cmdline_size info"]
    by (intro conjI allI impI) auto
  then show ?thesis using i by blast
qed

lemma validate_implies_usable:
  assumes "bootinfo_validate m p = Some True"
  shows "bootinfo_basic_usable m p = Some True"
proof -
  obtain info where "bootinfo_ptr_ok p" "ld_bootinfo m p = Some info" "bootinfo_sound m info"
    using validate_sound [OF assms] by blast
  moreover have "p \<noteq> 0" using calculation(1) by (auto simp: bootinfo_ptr_ok_def BOOTINFO_POINTER_MIN_def)
  ultimately show ?thesis by (simp add: bootinfo_basic_usable_def bootinfo_sound_def)
qed

section \<open>Properties\<close>

text \<open>
  C4: boot information is validated without trusting it. With the first gigabyte identity
  mapped, validation returns for every pointer and every memory contents, so no address the
  loader supplies makes it read outside the map, and when it accepts a block, the block and
  its tables, modules, names and command line lie inside the map: every memory-map range
  fits in 64 bits, every module payload is inside the map, every name and the command line
  are terminated.
\<close>

theorem bootinfo_validate_safe_sound:
  assumes "identity_mapped m"
  shows "\<exists>ok. bootinfo_validate m p = Some ok \<and>
     (ok \<longrightarrow> bootinfo_ptr_ok p \<and> (\<exists>info. ld_bootinfo m p = Some info \<and> bootinfo_sound m info))"
proof -
  obtain r where "bootinfo_validate_reason m p = Some r" using validate_reason_defined [OF assms] by blast
  then show ?thesis using validate_sound [of m p] by (auto simp: bootinfo_validate_def)
qed

theorem bootinfo_validate_safe_sound_witness:
  "identity_mapped (\<lambda>_. Some 0) \<and> bootinfo_validate (\<lambda>_. Some 0) 0x2000 = Some False"
proof -
  have "identity_mapped (\<lambda>_. Some 0)" by (simp add: identity_mapped_def)
  then obtain ok where ok: "bootinfo_validate (\<lambda>_. Some 0) 0x2000 = Some ok"
      "ok \<longrightarrow> (\<exists>info. ld_bootinfo (\<lambda>_. Some 0) 0x2000 = Some info \<and> bootinfo_sound (\<lambda>_. Some 0) info)"
    using bootinfo_validate_safe_sound [of "\<lambda>_. Some 0" "0x2000"] by blast
  have rd: "rd_le (\<lambda>_. Some 0) a n = Some 0" for a n by (induction n arbitrary: a) auto
  have "\<not> ok"
    using ok(2) by (auto simp: ld_bootinfo_def rd bootinfo_sound_def RABBITBONE_BOOT_MAGIC_def)
  then show ?thesis using ok(1) by (simp add: identity_mapped_def)
qed


end
