(* ===== verification/Block.thy ===== *)
theory Block
  imports Bootinfo
begin

text \<open>
  The block layer \<^verbatim>\<open>kernel/drivers/block.c\<close>, the RAM disk driver \<^verbatim>\<open>kernel/drivers/bootramdisk.c\<close> and
  the partition table reader \<^verbatim>\<open>kernel/drivers/mbr.c\<close>. A device's driver functions are functions
  of the driver state that its context pointer leads to; they are arbitrary in the block
  layer and those of the RAM disk in its instance. Device pointers are numbers, 0 is null.
\<close>

definition BLOCKDEV_SECTOR_SIZE :: nat where "BLOCKDEV_SECTOR_SIZE = 512"
definition BLOCKDEV_FLAG_WRITE :: u32 where "BLOCKDEV_FLAG_WRITE = 1"
definition BLOCKDEV_FLAG_FLUSH :: u32 where "BLOCKDEV_FLAG_FLUSH = 2"
definition MAX_BLOCK_DEVS :: nat where "MAX_BLOCK_DEVS = 8"

datatype block_status_t =
  BLOCK_OK | BLOCK_ERR_TIMEOUT | BLOCK_ERR_IO | BLOCK_ERR_RANGE | BLOCK_ERR_NO_DEVICE | BLOCK_ERR_INVALID

type_synonym 'w block_read_fn = "'w option \<Rightarrow> nat \<Rightarrow> nat \<Rightarrow> bytes option \<Rightarrow> (block_status_t \<times> bytes option) option"
type_synonym 'w block_write_fn = "'w option \<Rightarrow> nat \<Rightarrow> nat \<Rightarrow> bytes option \<Rightarrow> (block_status_t \<times> 'w option) option"
type_synonym 'w block_flush_fn = "'w option \<Rightarrow> (block_status_t \<times> 'w option) option"

record 'w block_device_t =
  bd_name :: bytes
  bd_driver :: "string option"
  bd_sector_count :: nat
  bd_sector_size :: nat
  bd_buffer_alignment :: nat
  bd_max_transfer_sectors :: nat
  bd_flags :: u32
  bd_ctx :: "'w option"
  bd_read :: "'w block_read_fn option"
  bd_write :: "'w block_write_fn option"
  bd_flush :: "'w block_flush_fn option"

section \<open>Registration\<close>

text \<open>\<open>devs\<close> are the device structures by address; \<open>devices\<close> is the table of registered pointers.\<close>

record 'w block_layer =
  devs :: "nat \<Rightarrow> 'w block_device_t"
  devices :: "nat list"
  device_count :: nat

definition same_name :: "bytes \<Rightarrow> bytes \<Rightarrow> bool option" where
  "same_name a b = map_option (\<lambda>r. r = 0) (strncmp (\<lambda>k. if k = 0 then a else b) (Some (0, 0)) (Some (1, 0)) 16)"

text \<open>The duplicate scan: \<open>Some False\<close> when some registered device is the same or has the same name.\<close>

fun register_scan :: "'w block_layer \<Rightarrow> nat \<Rightarrow> nat \<Rightarrow> nat \<Rightarrow> bool option" where
  "register_scan s dev i 0 = Some True"
| "register_scan s dev i (Suc n) = do {
     p \<leftarrow> arr_get (devices s) i;
     if p = dev then Some False
     else do {
       dup \<leftarrow> (if p \<noteq> 0 then same_name (bd_name (devs s p)) (bd_name (devs s dev)) else Some False);
       if dup then Some False else register_scan s dev (Suc i) n } }"

definition block_defaults :: "'w block_device_t \<Rightarrow> 'w block_device_t" where
  "block_defaults d =
     (let d = (if bd_driver d = None then d\<lparr>bd_driver := Some ''unknown''\<rparr> else d);
          d = (if bd_write d \<noteq> None then d\<lparr>bd_flags := bd_flags d OR BLOCKDEV_FLAG_WRITE\<rparr> else d);
          d = (if bd_flush d \<noteq> None then d\<lparr>bd_flags := bd_flags d OR BLOCKDEV_FLAG_FLUSH\<rparr> else d);
          d = (if bd_buffer_alignment d = 0 then d\<lparr>bd_buffer_alignment := 1\<rparr> else d)
      in if bd_max_transfer_sectors d = 0 then d\<lparr>bd_max_transfer_sectors := 256\<rparr> else d)"

definition block_register :: "'w block_layer \<Rightarrow> nat \<Rightarrow> (bool \<times> 'w block_layer) option" where
  "block_register s dev =
     (if dev = 0 \<or> bd_read (devs s dev) = None \<or> device_count s \<ge> MAX_BLOCK_DEVS then Some (False, s)
      else let d = devs s dev in
        if bd_sector_count d = 0 \<or> bd_sector_size d \<noteq> BLOCKDEV_SECTOR_SIZE then Some (False, s)
        else do {
          c \<leftarrow> arr_get (bd_name d) 0;
          n \<leftarrow> strnlen (\<lambda>_. bd_name d) (Some (0, 0)) 16;
          if c = 0 \<or> n \<ge> 16 then Some (False, s)
          else do {
            fresh \<leftarrow> register_scan s dev 0 (device_count s);
            if \<not> fresh then Some (False, s)
            else do {
              ds \<leftarrow> arr_set (devices s) (device_count s) dev;
              Some (True, s\<lparr>devs := (devs s)(dev := block_defaults d), devices := ds, device_count := device_count s + 1\<rparr>) } } })"

definition block_get :: "'w block_layer \<Rightarrow> nat \<Rightarrow> nat option" where
  "block_get s index = (if index < device_count s then arr_get (devices s) index else Some 0)"

definition block_count :: "'w block_layer \<Rightarrow> nat" where
  "block_count s = device_count s"

section \<open>Transfers\<close>

text \<open>A buffer is its address, for the alignment check, and its bytes.\<close>

definition validate_range :: "'w block_device_t option \<Rightarrow> nat \<Rightarrow> nat \<Rightarrow> nat \<Rightarrow> bytes option \<Rightarrow> block_status_t" where
  "validate_range dev lba cnt addr buffer = (case (dev, buffer) of
      (Some d, Some _) \<Rightarrow>
        (if cnt = 0 then BLOCK_ERR_INVALID
         else if bd_sector_size d \<noteq> BLOCKDEV_SECTOR_SIZE \<or> bd_sector_count d = 0 then BLOCK_ERR_INVALID
         else if bd_buffer_alignment d \<noteq> 0 \<and> addr mod bd_buffer_alignment d \<noteq> 0 then BLOCK_ERR_INVALID
         else if bd_max_transfer_sectors d \<noteq> 0 \<and> cnt > bd_max_transfer_sectors d then BLOCK_ERR_RANGE
         else if lba \<ge> bd_sector_count d then BLOCK_ERR_RANGE
         else if cnt > bd_sector_count d - lba then BLOCK_ERR_RANGE
         else BLOCK_OK)
    | _ \<Rightarrow> BLOCK_ERR_INVALID)"

definition block_read :: "'w block_device_t option \<Rightarrow> nat \<Rightarrow> nat \<Rightarrow> nat \<Rightarrow> bytes option \<Rightarrow> (block_status_t \<times> bytes option) option" where
  "block_read dev lba cnt addr buffer = (case dev of None \<Rightarrow> Some (BLOCK_ERR_INVALID, buffer) | Some d \<Rightarrow>
     (case bd_read d of None \<Rightarrow> Some (BLOCK_ERR_INVALID, buffer) | Some f \<Rightarrow>
        (let r = validate_range dev lba cnt addr buffer in
         if r \<noteq> BLOCK_OK then Some (r, buffer) else f (bd_ctx d) lba cnt buffer)))"

definition block_write :: "'w block_device_t option \<Rightarrow> nat \<Rightarrow> nat \<Rightarrow> nat \<Rightarrow> bytes option \<Rightarrow> (block_status_t \<times> 'w block_device_t option) option" where
  "block_write dev lba cnt addr buffer = (case dev of None \<Rightarrow> Some (BLOCK_ERR_INVALID, dev) | Some d \<Rightarrow>
     (case bd_write d of None \<Rightarrow> Some (BLOCK_ERR_INVALID, dev) | Some f \<Rightarrow>
        (let r = validate_range dev lba cnt addr buffer in
         if r \<noteq> BLOCK_OK then Some (r, dev)
         else do { (r, ctx) \<leftarrow> f (bd_ctx d) lba cnt buffer; Some (r, Some (d\<lparr>bd_ctx := ctx\<rparr>)) })))"

definition block_flush :: "'w block_device_t option \<Rightarrow> (block_status_t \<times> 'w block_device_t option) option" where
  "block_flush dev = (case dev of None \<Rightarrow> Some (BLOCK_ERR_INVALID, dev) | Some d \<Rightarrow>
     (case bd_flush d of None \<Rightarrow> Some (BLOCK_OK, dev) | Some f \<Rightarrow>
        do { (r, ctx) \<leftarrow> f (bd_ctx d); Some (r, Some (d\<lparr>bd_ctx := ctx\<rparr>)) }))"

definition block_driver_name :: "'w block_device_t option \<Rightarrow> string" where
  "block_driver_name dev = (case dev of None \<Rightarrow> ''unknown'' | Some d \<Rightarrow>
     (case bd_driver d of None \<Rightarrow> ''unknown'' | Some n \<Rightarrow> n))"

fun block_status_name :: "block_status_t \<Rightarrow> string" where
  "block_status_name BLOCK_OK = ''ok''"
| "block_status_name BLOCK_ERR_TIMEOUT = ''timeout''"
| "block_status_name BLOCK_ERR_IO = ''io''"
| "block_status_name BLOCK_ERR_RANGE = ''range''"
| "block_status_name BLOCK_ERR_NO_DEVICE = ''no-device''"
| "block_status_name BLOCK_ERR_INVALID = ''invalid''"

section \<open>The boot RAM disk driver\<close>

record bootramdisk_t =
  rd_base :: bytes
  rd_size :: nat

definition ramdisk_extent :: "bootramdisk_t \<Rightarrow> nat \<Rightarrow> nat \<Rightarrow> (nat \<times> nat) option" where
  "ramdisk_extent rd lba cnt = (case (mul_overflow lba BLOCKDEV_SECTOR_SIZE, mul_overflow cnt BLOCKDEV_SECTOR_SIZE) of
      (Some off, Some sz) \<Rightarrow> if off > rd_size rd \<or> sz > rd_size rd - off then None else Some (off, sz)
    | _ \<Rightarrow> None)"

definition bootramdisk_read :: "bootramdisk_t block_read_fn" where
  "bootramdisk_read ctx lba cnt buffer = (case (ctx, buffer) of
      (Some rd, Some b) \<Rightarrow>
        if cnt = 0 then Some (BLOCK_ERR_INVALID, buffer)
        else (case ramdisk_extent rd lba cnt of None \<Rightarrow> Some (BLOCK_ERR_RANGE, buffer)
          | Some (off, sz) \<Rightarrow>
              if off + sz \<le> length (rd_base rd)
              then map_option (\<lambda>b'. (BLOCK_OK, Some b')) (copy_in b 0 (take sz (drop off (rd_base rd)))) else None)
    | _ \<Rightarrow> Some (BLOCK_ERR_INVALID, buffer))"

definition bootramdisk_write :: "bootramdisk_t block_write_fn" where
  "bootramdisk_write ctx lba cnt buffer = (case (ctx, buffer) of
      (Some rd, Some b) \<Rightarrow>
        if cnt = 0 then Some (BLOCK_ERR_INVALID, ctx)
        else (case ramdisk_extent rd lba cnt of None \<Rightarrow> Some (BLOCK_ERR_RANGE, ctx)
          | Some (off, sz) \<Rightarrow>
              if sz \<le> length b
              then map_option (\<lambda>d. (BLOCK_OK, Some (rd\<lparr>rd_base := d\<rparr>))) (copy_in (rd_base rd) off (take sz b)) else None)
    | _ \<Rightarrow> Some (BLOCK_ERR_INVALID, ctx))"

definition BOOTRAMDISK_MAX :: nat where "BOOTRAMDISK_MAX = 4"

definition ramdisk_device :: "nat \<Rightarrow> bytes \<Rightarrow> bytes \<Rightarrow> nat \<Rightarrow> bootramdisk_t block_device_t" where
  "ramdisk_device k name base sz =
     \<lparr>bd_name = name, bd_driver = Some ''bootramdisk'', bd_sector_count = sz div BLOCKDEV_SECTOR_SIZE,
      bd_sector_size = BLOCKDEV_SECTOR_SIZE, bd_buffer_alignment = 1, bd_max_transfer_sectors = 128, bd_flags = 0,
      bd_ctx = Some \<lparr>rd_base = base, rd_size = sz\<rparr>,
      bd_read = Some bootramdisk_read, bd_write = Some bootramdisk_write, bd_flush = None\<rparr>"

text \<open>
  One round of \<open>bootramdisk_init\<close> per module; \<open>slot\<close> gives the address of the device structure
  \<^verbatim>\<open>g_bootramdisks[k]\<close> (the log line is left out).
\<close>

fun ramdisk_loop ::
  "pmem \<Rightarrow> (nat \<Rightarrow> nat) \<Rightarrow> nat \<Rightarrow> nat \<Rightarrow> bootramdisk_t block_layer \<Rightarrow> nat \<Rightarrow> (bootramdisk_t block_layer \<times> nat) option" where
  "ramdisk_loop m slot a 0 s cnt = Some (s, cnt)"
| "ramdisk_loop m slot a (Suc n) s cnt =
     (if cnt < BOOTRAMDISK_MAX then do {
        x \<leftarrow> ld_module m a;
        if m_base x = 0 \<or> m_size x < BLOCKDEV_SECTOR_SIZE \<or> m_size x mod BLOCKDEV_SECTOR_SIZE \<noteq> 0
        then ramdisk_loop m slot (a + MODULE_SIZEOF) n s cnt
        else do {
          base \<leftarrow> rd_bytes m (m_base x) (m_size x);
          (w, nb) \<leftarrow> kvsnprintf (Some (replicate 16 0)) 16 (Some (cbytes ''ramdisk%llu'')) [VNum (of_nat cnt)];
          name \<leftarrow> nb;
          let s = s\<lparr>devs := (devs s)(slot cnt := ramdisk_device cnt name base (m_size x))\<rparr>;
          (ok, s) \<leftarrow> block_register s (slot cnt);
          ramdisk_loop m slot (a + MODULE_SIZEOF) n s (if ok then cnt + 1 else cnt) } }
      else Some (s, cnt))"

definition bootramdisk_init ::
  "pmem \<Rightarrow> (nat \<Rightarrow> nat) \<Rightarrow> nat \<Rightarrow> bootramdisk_t block_layer \<Rightarrow> nat \<Rightarrow> (bootramdisk_t block_layer \<times> nat) option" where
  "bootramdisk_init m slot p s cnt = do {
     ok \<leftarrow> bootinfo_validate m p;
     if \<not> ok then Some (s, cnt)
     else do {
       info \<leftarrow> ld_bootinfo m p;
       if bi_module_count info = 0 \<or> bi_modules_addr info = 0 then Some (s, cnt)
       else ramdisk_loop m slot (bi_modules_addr info) (bi_module_count info) s cnt } }"

section \<open>Partition tables\<close>

record mbr_partition_t =
  mp_bootable :: bool
  mp_type :: u8
  mp_lba_first :: u32
  mp_sector_count :: u32

type_synonym mbr_table_t = "mbr_partition_t list"

definition le32 :: "bytes \<Rightarrow> nat \<Rightarrow> u32 option" where
  "le32 p i = do {
     a \<leftarrow> arr_get p i; b \<leftarrow> arr_get p (i + 1); c \<leftarrow> arr_get p (i + 2); d \<leftarrow> arr_get p (i + 3);
     Some (ucast a OR push_bit 8 (ucast b) OR push_bit 16 (ucast c) OR push_bit 24 (ucast d)) }"

definition mbr_zero :: mbr_table_t where
  "mbr_zero = replicate 4 \<lparr>mp_bootable = False, mp_type = 0, mp_lba_first = 0, mp_sector_count = 0\<rparr>"

fun mbr_parse_loop :: "bytes \<Rightarrow> nat \<Rightarrow> nat \<Rightarrow> mbr_table_t \<Rightarrow> (bool \<times> mbr_table_t) option" where
  "mbr_parse_loop sector i 0 out = Some (True, out)"
| "mbr_parse_loop sector i (Suc n) out = do {
     let p = 446 + i * 16;
     b \<leftarrow> arr_get sector p;
     if b \<noteq> 0 \<and> b \<noteq> 0x80 then Some (False, out)
     else do {
       t \<leftarrow> arr_get sector (p + 4);
       first \<leftarrow> le32 sector (p + 8);
       cnt \<leftarrow> le32 sector (p + 12);
       out \<leftarrow> arr_set out i \<lparr>mp_bootable = (b = 0x80), mp_type = t, mp_lba_first = first, mp_sector_count = cnt\<rparr>;
       if t = 0 \<and> (first \<noteq> 0 \<or> cnt \<noteq> 0) then Some (False, out)
       else if t \<noteq> 0 \<and> cnt = 0 then Some (False, out)
       else mbr_parse_loop sector (Suc i) n out } }"

definition mbr_parse_sector :: "bytes option \<Rightarrow> mbr_table_t option \<Rightarrow> (bool \<times> mbr_table_t option) option" where
  "mbr_parse_sector sector out = (case (sector, out) of
      (Some s, Some t) \<Rightarrow> do {
        a \<leftarrow> arr_get s 510; b \<leftarrow> arr_get s 511;
        if a \<noteq> 0x55 \<or> b \<noteq> 0xaa then Some (False, out)
        else do { (ok, t) \<leftarrow> mbr_parse_loop s 0 4 mbr_zero; Some (ok, Some t) } }
    | _ \<Rightarrow> Some (False, out))"

text \<open>\<open>addr\<close> and \<open>junk\<close> are the address and the uninitialised contents of the local sector buffer.\<close>

definition mbr_read :: "nat \<Rightarrow> bytes \<Rightarrow> 'w block_device_t option \<Rightarrow> mbr_table_t option \<Rightarrow> (bool \<times> mbr_table_t option) option" where
  "mbr_read addr junk dev out = do {
     (r, sector) \<leftarrow> block_read dev 0 1 addr (Some junk);
     if r \<noteq> BLOCK_OK then Some (False, out) else mbr_parse_sector sector out }"

definition mbr_partition_valid :: "'w block_device_t option \<Rightarrow> mbr_partition_t option \<Rightarrow> bool" where
  "mbr_partition_valid dev part = (case (dev, part) of
      (Some d, Some p) \<Rightarrow>
        (if mp_sector_count p = 0 then False
         else if bd_sector_count d = 0 then True
         else if unat (mp_lba_first p) \<ge> bd_sector_count d then False
         else if unat (mp_sector_count p) > bd_sector_count d - unat (mp_lba_first p) then False
         else True)
    | _ \<Rightarrow> False)"

text \<open>The partition searches return the index of the partition.\<close>

fun find_part :: "(mbr_partition_t \<Rightarrow> bool) \<Rightarrow> mbr_table_t \<Rightarrow> nat \<Rightarrow> nat \<Rightarrow> nat option option" where
  "find_part P t i 0 = Some None"
| "find_part P t i (Suc n) = do { p \<leftarrow> arr_get t i; if P p then Some (Some i) else find_part P t (Suc i) n }"

definition mbr_find_linux :: "mbr_table_t option \<Rightarrow> nat option option" where
  "mbr_find_linux mbr = (case mbr of None \<Rightarrow> Some None
     | Some t \<Rightarrow> find_part (\<lambda>p. mp_type p = 0x83 \<and> mp_sector_count p \<noteq> 0) t 0 4)"

definition mbr_part_nonempty :: "mbr_partition_t \<Rightarrow> bool" where
  "mbr_part_nonempty p = (mp_type p \<noteq> 0 \<and> mp_sector_count p \<noteq> 0)"

definition mbr_parts_overlap :: "mbr_partition_t \<Rightarrow> mbr_partition_t \<Rightarrow> bool" where
  "mbr_parts_overlap a b =
     (if \<not> mbr_part_nonempty a \<or> \<not> mbr_part_nonempty b then False
      else let a_first = unat (mp_lba_first a); b_first = unat (mp_lba_first b) in
        (case add_overflow a_first (unat (mp_sector_count a) - 1) of None \<Rightarrow> True
         | Some a_last \<Rightarrow>
             (case add_overflow b_first (unat (mp_sector_count b) - 1) of None \<Rightarrow> True
              | Some b_last \<Rightarrow> a_first \<le> b_last \<and> b_first \<le> a_last)))"

fun overlap_scan :: "mbr_table_t \<Rightarrow> mbr_partition_t \<Rightarrow> nat \<Rightarrow> nat \<Rightarrow> bool option" where
  "overlap_scan t p j 0 = Some False"
| "overlap_scan t p j (Suc n) = do { q \<leftarrow> arr_get t j; if mbr_parts_overlap p q then Some True else overlap_scan t p (Suc j) n }"

fun table_scan :: "'w block_device_t option \<Rightarrow> mbr_table_t \<Rightarrow> nat \<Rightarrow> nat \<Rightarrow> bool option" where
  "table_scan dev t i 0 = Some True"
| "table_scan dev t i (Suc n) = do {
     p \<leftarrow> arr_get t i;
     if \<not> mbr_part_nonempty p then table_scan dev t (Suc i) n
     else if \<not> mbr_partition_valid dev (Some p) then Some False
     else do {
       bad \<leftarrow> overlap_scan t p (Suc i) n;
       if bad then Some False else table_scan dev t (Suc i) n } }"

definition mbr_table_valid_for_device :: "'w block_device_t option \<Rightarrow> mbr_table_t option \<Rightarrow> bool option" where
  "mbr_table_valid_for_device dev mbr = (case mbr of None \<Rightarrow> Some False | Some t \<Rightarrow> table_scan dev t 0 4)"

definition mbr_find_linux_on_device :: "'w block_device_t option \<Rightarrow> mbr_table_t option \<Rightarrow> nat option option" where
  "mbr_find_linux_on_device dev mbr = do {
     ok \<leftarrow> mbr_table_valid_for_device dev mbr;
     if \<not> ok then Some None
     else do { t \<leftarrow> mbr; find_part (\<lambda>p. mp_type p = 0x83 \<and> mbr_partition_valid dev (Some p)) t 0 4 } }"

section \<open>Device names\<close>

lemma strncmp_whole:
  assumes "cstr h a xs" "cstr h b ys" "length xs < n"
  shows "\<exists>r. strncmp_loop h a b 0 n = Some r \<and> (r = 0 \<longleftrightarrow> xs = ys)"
proof -
  have "take n xs = take n ys \<longleftrightarrow> xs = ys"
    using assms(3) by (cases "length ys \<le> n") (auto dest: arg_cong [where f = length])
  then show ?thesis using strncmp_loop_cstr [OF assms(1,2), of 0 n] by simp
qed

definition cname :: "bytes \<Rightarrow> bytes" where
  "cname a = takeWhile (\<lambda>c. c \<noteq> 0) a"

lemma cname_cstr:
  assumes "0 \<in> set a"
  shows "drop 0 a = cname a @ 0 # tl (dropWhile (\<lambda>c. c \<noteq> 0) a)" and "0 \<notin> set (cname a)"
proof -
  obtain z zs where z: "dropWhile (\<lambda>c. c \<noteq> 0) a = z # zs"
    using assms by (cases "dropWhile (\<lambda>c. c \<noteq> 0) a") (auto simp: dropWhile_eq_Nil_conv)
  then have "z = 0" using hd_dropWhile [of "\<lambda>c. c \<noteq> 0" a] by simp
  then show "drop 0 a = cname a @ 0 # tl (dropWhile (\<lambda>c. c \<noteq> 0) a)"
    using z takeWhile_dropWhile_id [of "\<lambda>c. c \<noteq> 0" a] by (simp add: cname_def)
  show "0 \<notin> set (cname a)" by (auto simp: cname_def dest: set_takeWhileD)
qed

lemma same_name_spec:
  assumes "0 \<in> set a" and "0 \<in> set b" and "length (cname a) < 16"
  shows "same_name a b = Some (cname a = cname b)"
proof -
  let ?h = "\<lambda>k. if k = 0 then a else b"
  have "cstr ?h (Some (0, 0)) (cname a)" "cstr ?h (Some (1, 0)) (cname b)"
    using cname_cstr [OF assms(1)] cname_cstr [OF assms(2)] by (auto simp: cstr_def)
  then obtain r where "strncmp_loop ?h (Some (0, 0)) (Some (1, 0)) 0 16 = Some r" "r = 0 \<longleftrightarrow> cname a = cname b"
    using strncmp_whole [of ?h "Some (0, 0)" "cname a" "Some (1, 0)" "cname b" 16] assms(3) by auto
  then show ?thesis by (simp add: same_name_def strncmp_def)
qed

section \<open>The registry\<close>

text \<open>
  Every registered device is a usable one, and no two have the same address or the same
  name. Device names lie in 16-byte arrays.
\<close>

definition dev_ok :: "'w block_device_t \<Rightarrow> bool" where
  "dev_ok d \<longleftrightarrow> bd_read d \<noteq> None \<and> bd_sector_count d \<noteq> 0 \<and> bd_sector_size d = BLOCKDEV_SECTOR_SIZE \<and>
     length (bd_name d) = 16 \<and> 0 \<in> set (bd_name d) \<and> cname (bd_name d) \<noteq> [] \<and>
     bd_buffer_alignment d \<noteq> 0 \<and> bd_max_transfer_sectors d \<noteq> 0 \<and> bd_driver d \<noteq> None"

definition block_inv :: "'w block_layer \<Rightarrow> bool" where
  "block_inv s \<longleftrightarrow>
     length (devices s) = MAX_BLOCK_DEVS \<and> device_count s \<le> MAX_BLOCK_DEVS \<and>
     (\<forall>i < device_count s. devices s ! i \<noteq> 0 \<and> dev_ok (devs s (devices s ! i))) \<and>
     (\<forall>i < device_count s. \<forall>j < device_count s. i \<noteq> j \<longrightarrow>
        devices s ! i \<noteq> devices s ! j \<and>
        cname (bd_name (devs s (devices s ! i))) \<noteq> cname (bd_name (devs s (devices s ! j))))"

lemma cname_length:
  assumes "length a = 16" and "0 \<in> set a"
  shows "length (cname a) < 16"
proof -
  have "length (drop 0 a) = length (cname a) + Suc (length (tl (dropWhile (\<lambda>c. c \<noteq> 0) a)))"
    by (subst cname_cstr(1) [OF assms(2)]) simp
  then show ?thesis using assms(1) by simp
qed

lemma register_scan_spec:
  assumes inv: "block_inv s" and nm: "0 \<in> set (bd_name (devs s dev))"
  shows "i + n \<le> device_count s \<Longrightarrow>
    register_scan s dev i n = Some (\<forall>k \<in> {i ..< i + n}. devices s ! k \<noteq> dev \<and>
      cname (bd_name (devs s (devices s ! k))) \<noteq> cname (bd_name (devs s dev)))"
proof (induction n arbitrary: i)
  case (Suc n)
  have i: "i < length (devices s)" "i < device_count s" using inv Suc.prems by (auto simp: block_inv_def)
  let ?p = "devices s ! i"
  have p: "?p \<noteq> 0" "dev_ok (devs s ?p)" using inv i(2) by (auto simp: block_inv_def)
  then have "same_name (bd_name (devs s ?p)) (bd_name (devs s dev)) =
      Some (cname (bd_name (devs s ?p)) = cname (bd_name (devs s dev)))"
    using nm by (intro same_name_spec) (auto simp: dev_ok_def cname_length)
  moreover have "{i ..< i + Suc n} = insert i {Suc i ..< Suc i + n}" by auto
  ultimately show ?case using i p Suc.IH [of "Suc i"] Suc.prems by auto
qed simp

lemma block_defaults_simps [simp]:
  "bd_name (block_defaults d) = bd_name d" "bd_sector_count (block_defaults d) = bd_sector_count d"
  "bd_sector_size (block_defaults d) = bd_sector_size d" "bd_read (block_defaults d) = bd_read d"
  "bd_write (block_defaults d) = bd_write d" "bd_ctx (block_defaults d) = bd_ctx d"
  by (simp_all add: block_defaults_def Let_def)

lemma block_defaults_nonzero [simp]:
  "bd_buffer_alignment (block_defaults d) \<noteq> 0" "bd_max_transfer_sectors (block_defaults d) \<noteq> 0"
  "bd_driver (block_defaults d) \<noteq> None"
  by (simp_all add: block_defaults_def Let_def)

text \<open>What registration checks of a device that is not in the table yet.\<close>

definition registrable :: "'w block_layer \<Rightarrow> nat \<Rightarrow> bool" where
  "registrable s dev \<longleftrightarrow>
     dev \<noteq> 0 \<and> device_count s < MAX_BLOCK_DEVS \<and> bd_read (devs s dev) \<noteq> None \<and>
     bd_sector_count (devs s dev) \<noteq> 0 \<and> bd_sector_size (devs s dev) = BLOCKDEV_SECTOR_SIZE \<and>
     0 \<in> set (bd_name (devs s dev)) \<and> cname (bd_name (devs s dev)) \<noteq> [] \<and>
     (\<forall>k < device_count s. devices s ! k \<noteq> dev \<and> cname (bd_name (devs s (devices s ! k))) \<noteq> cname (bd_name (devs s dev)))"

lemma strnlen_loop_full: "0 \<notin> set xs \<Longrightarrow> n \<le> length xs \<Longrightarrow> strnlen_loop (\<lambda>_. xs) (Some (b, 0)) (length xs) n = Some (length xs)"
proof (induction "length xs - n" arbitrary: n)
  case 0
  then show ?case by (subst strnlen_loop.simps) simp
next
  case (Suc d)
  then have "n < length xs" "xs ! n \<noteq> 0" by (auto simp: in_set_conv_nth)
  then show ?case using Suc by (subst strnlen_loop.simps) simp
qed

lemma strnlen_name:
  assumes "length a = 16"
  shows "strnlen (\<lambda>_. a) (Some (0, 0)) 16 = Some (if 0 \<in> set a then length (cname a) else 16)"
proof (cases "0 \<in> set a")
  case True
  then have "cstr (\<lambda>_. a) (Some (0, 0)) (cname a)" using cname_cstr [OF True] by (auto simp: cstr_def)
  then show ?thesis using True strnlen_cstr cname_length [OF assms True] by fastforce
next
  case False
  then show ?thesis using strnlen_loop_full [of a 0 0] assms by (simp add: strnlen_def)
qed

lemma block_register_spec:
  assumes "block_inv s" and "length (bd_name (devs s dev)) = 16"
  shows "block_register s dev = Some (if registrable s dev
     then (True, s\<lparr>devs := (devs s)(dev := block_defaults (devs s dev)),
                  devices := (devices s)[device_count s := dev], device_count := device_count s + 1\<rparr>)
     else (False, s))"
proof (cases "dev = 0 \<or> bd_read (devs s dev) = None \<or> device_count s \<ge> MAX_BLOCK_DEVS \<or>
    bd_sector_count (devs s dev) = 0 \<or> bd_sector_size (devs s dev) \<noteq> BLOCKDEV_SECTOR_SIZE")
  case True
  then show ?thesis by (auto simp: block_register_def registrable_def Let_def)
next
  case False
  let ?a = "bd_name (devs s dev)"
  have c0: "arr_get ?a 0 = Some (?a ! 0)" using assms(2) by simp
  have hd: "?a ! 0 = 0 \<longleftrightarrow> cname ?a = []" using assms(2) by (cases ?a) (auto simp: cname_def)
  note nl = strnlen_name [OF assms(2)]
  show ?thesis
  proof (cases "0 \<in> set ?a \<and> cname ?a \<noteq> []")
    case bad: False
    then show ?thesis
      using False c0 hd nl by (auto simp: block_register_def registrable_def Let_def)
  next
    case good: True
    have "length (cname ?a) < 16" using good cname_length [OF assms(2)] by simp
    moreover have "register_scan s dev 0 (device_count s) = Some (\<forall>k < device_count s. devices s ! k \<noteq> dev \<and>
        cname (bd_name (devs s (devices s ! k))) \<noteq> cname ?a)"
      using register_scan_spec [OF assms(1), of dev 0 "device_count s"] good by auto
    moreover have "device_count s < length (devices s)" using False assms(1) by (auto simp: block_inv_def)
    ultimately show ?thesis
      using False good c0 hd nl by (auto simp: block_register_def registrable_def Let_def)
  qed
qed

lemma block_register_inv:
  assumes inv: "block_inv s" and "length (bd_name (devs s dev)) = 16" and reg: "block_register s dev = Some (ok, s')"
  shows "block_inv s'"
proof (cases "registrable s dev")
  case False
  then show ?thesis using block_register_spec [OF assms(1,2)] inv reg by simp
next
  case True
  let ?n = "device_count s" let ?ds = "(devices s)[?n := dev]" let ?D = "(devs s)(dev := block_defaults (devs s dev))"
  have s': "s' = s\<lparr>devs := ?D, devices := ?ds, device_count := ?n + 1\<rparr>"
    using True block_register_spec [OF assms(1,2)] reg by simp
  have r: "dev \<noteq> 0" "?n < MAX_BLOCK_DEVS" and fresh: "\<forall>k < ?n. devices s ! k \<noteq> dev"
    and names: "\<forall>k < ?n. cname (bd_name (devs s (devices s ! k))) \<noteq> cname (bd_name (devs s dev))"
    and ok: "dev_ok (block_defaults (devs s dev))"
    using True assms(2) by (auto simp: registrable_def dev_ok_def)
  have old: "?ds ! k = devices s ! k" "?D (?ds ! k) = devs s (devices s ! k)" if "k < ?n" for k
    using that fresh by auto
  have new: "?ds ! ?n = dev" using inv r(2) by (auto simp: block_inv_def)
  have len: "length (devices s) = MAX_BLOCK_DEVS" using inv by (simp add: block_inv_def)
  have a: "\<forall>i < Suc ?n. ?ds ! i \<noteq> 0 \<and> dev_ok (?D (?ds ! i))"
    using inv old new ok r(1) by (auto simp: less_Suc_eq block_inv_def)
  have b: "?ds ! i \<noteq> ?ds ! j \<and> cname (bd_name (?D (?ds ! i))) \<noteq> cname (bd_name (?D (?ds ! j)))"
    if ij: "i < Suc ?n" "j < Suc ?n" "i \<noteq> j" for i j
  proof -
    consider "i < ?n" "j < ?n" | "i = ?n" "j < ?n" | "i < ?n" "j = ?n" using ij by linarith
    then show ?thesis
    proof cases
      case 1
      then show ?thesis using inv old ij(3) by (simp add: block_inv_def)
    next
      case 2
      then show ?thesis using fresh names old(2) [of j] new by auto
    next
      case 3
      then show ?thesis using fresh names old(2) [of i] new by auto
    qed
  qed
  show ?thesis unfolding s' block_inv_def using a b r(2) len by simp
qed

text \<open>
  The life of the registry: it starts empty, drivers fill in device structures that are not
  registered yet, and register them.
\<close>

inductive block_reach :: "'w block_layer \<Rightarrow> bool" where
  boot: "block_reach \<lparr>devs = D, devices = replicate MAX_BLOCK_DEVS 0, device_count = 0\<rparr>"
| fill: "block_reach s \<Longrightarrow> \<forall>k < device_count s. devices s ! k \<noteq> p \<Longrightarrow> block_reach (s\<lparr>devs := (devs s)(p := d)\<rparr>)"
| register: "block_reach s \<Longrightarrow> length (bd_name (devs s p)) = 16 \<Longrightarrow> block_register s p = Some (ok, s') \<Longrightarrow> block_reach s'"

lemma block_reach_inv: "block_reach s \<Longrightarrow> block_inv s"
proof (induction rule: block_reach.induct)
  case (boot D)
  then show ?case by (simp add: block_inv_def)
next
  case (fill s p d)
  then show ?case by (simp add: block_inv_def)
next
  case (register s p ok s')
  then show ?case using block_register_inv by blast
qed

section \<open>Sector stores\<close>

text \<open>
  What a file system relies on of a disk: an array of sectors that reads return and writes
  replace, with every request that does not fit refused and without effect.
\<close>

locale sector_store =
  fixes good :: "'d \<Rightarrow> bool"
    and sectors :: "'d \<Rightarrow> nat"
    and max_transfer :: "'d \<Rightarrow> nat"
    and contents :: "'d \<Rightarrow> bytes"
    and rd :: "'d \<Rightarrow> nat \<Rightarrow> nat \<Rightarrow> bytes \<Rightarrow> (block_status_t \<times> bytes) option"
    and wr :: "'d \<Rightarrow> nat \<Rightarrow> nat \<Rightarrow> bytes \<Rightarrow> (block_status_t \<times> 'd) option"
  assumes contents_length: "good d \<Longrightarrow> length (contents d) = sectors d * 512"
    and read_ok: "good d \<Longrightarrow> 0 < n \<Longrightarrow> n \<le> max_transfer d \<Longrightarrow> l + n \<le> sectors d \<Longrightarrow> n * 512 \<le> length b \<Longrightarrow>
      rd d l n b = Some (BLOCK_OK, blit b 0 (take (n * 512) (drop (l * 512) (contents d))))"
    and write_ok: "good d \<Longrightarrow> 0 < n \<Longrightarrow> n \<le> max_transfer d \<Longrightarrow> l + n \<le> sectors d \<Longrightarrow> n * 512 \<le> length b \<Longrightarrow>
      \<exists>d'. wr d l n b = Some (BLOCK_OK, d') \<and> good d' \<and> sectors d' = sectors d \<and> max_transfer d' = max_transfer d \<and>
        contents d' = blit (contents d) (l * 512) (take (n * 512) b)"
    and refused: "good d \<Longrightarrow> n = 0 \<or> max_transfer d < n \<or> sectors d < l + n \<Longrightarrow>
      (\<exists>e. e \<noteq> BLOCK_OK \<and> rd d l n b = Some (e, b)) \<and> (\<exists>e. e \<noteq> BLOCK_OK \<and> wr d l n b = Some (e, d))"
begin

lemma write_read:
  assumes "good d" and "0 < n" and "n \<le> max_transfer d" and "l + n \<le> sectors d" and "n * 512 \<le> length b"
  shows "\<exists>d'. wr d l n b = Some (BLOCK_OK, d') \<and> good d' \<and> sectors d' = sectors d \<and> max_transfer d' = max_transfer d \<and>
     (\<forall>c. n * 512 \<le> length c \<longrightarrow> rd d' l n c = Some (BLOCK_OK, take (n * 512) b @ drop (n * 512) c)) \<and>
     (\<forall>l' k c. 0 < k \<and> k \<le> max_transfer d \<and> l' + k \<le> sectors d \<and> k * 512 \<le> length c \<and> (l' + k \<le> l \<or> l + n \<le> l') \<longrightarrow>
        rd d' l' k c = rd d l' k c)"
proof -
  obtain d' where d': "wr d l n b = Some (BLOCK_OK, d')" "good d'" "sectors d' = sectors d" "max_transfer d' = max_transfer d"
      "contents d' = blit (contents d) (l * 512) (take (n * 512) b)"
    using write_ok [OF assms] by blast
  have len: "length (contents d) = sectors d * 512" using contents_length [OF assms(1)] .
  have fit: "l * 512 + n * 512 \<le> length (contents d)" using assms(4) len by simp
  have same: "take (n * 512) (drop (l * 512) (contents d')) = take (n * 512) b"
    using blit_slice [of "l * 512" "take (n * 512) b" "contents d"] fit assms(5) d'(5) by simp
  have other: "take (k * 512) (drop (l' * 512) (contents d')) = take (k * 512) (drop (l' * 512) (contents d))"
    if "l' + k \<le> l \<or> l + n \<le> l'" "l' + k \<le> sectors d" for l' k
  proof (rule nth_equalityI)
    have l2: "length (contents d') = length (contents d)" using d'(5) fit assms(5) by simp
    then show "length (take (k * 512) (drop (l' * 512) (contents d'))) = length (take (k * 512) (drop (l' * 512) (contents d)))"
      by simp
    fix i assume "i < length (take (k * 512) (drop (l' * 512) (contents d')))"
    then have i: "i < k * 512" "l' * 512 + i < length (contents d)" using l2 by auto
    have "l' * 512 + i < l * 512 \<or> l * 512 + n * 512 \<le> l' * 512 + i" using that(1) i(1) by linarith
    then have "contents d' ! (l' * 512 + i) = contents d ! (l' * 512 + i)"
      using blit_nth_other [of "l * 512" "take (n * 512) b" "contents d" "l' * 512 + i"] fit assms(5) i(2) d'(5) by simp
    then show "take (k * 512) (drop (l' * 512) (contents d')) ! i = take (k * 512) (drop (l' * 512) (contents d)) ! i"
      using i l2 by simp
  qed
  show ?thesis
  proof (intro exI conjI allI impI)
    show "wr d l n b = Some (BLOCK_OK, d')" "good d'" "sectors d' = sectors d" "max_transfer d' = max_transfer d"
      using d' by auto
    show "rd d' l n c = Some (BLOCK_OK, take (n * 512) b @ drop (n * 512) c)" if "n * 512 \<le> length c" for c
      using read_ok [OF d'(2) assms(2), of l c] assms(3-5) d'(3,4) that same by (simp add: blit_def)
    show "rd d' l' k c = rd d l' k c"
      if "0 < k \<and> k \<le> max_transfer d \<and> l' + k \<le> sectors d \<and> k * 512 \<le> length c \<and> (l' + k \<le> l \<or> l + n \<le> l')" for l' k c
      using read_ok [OF d'(2), of k l' c] read_ok [OF assms(1), of k l' c] other [of l' k] d'(3,4) that by simp
  qed
qed

end

text \<open>A RAM disk device that covers its memory, as \<open>ramdisk_device\<close> sets it up.\<close>

definition ramdisk_ok :: "bootramdisk_t block_device_t \<Rightarrow> bool" where
  "ramdisk_ok d \<longleftrightarrow>
     bd_read d = Some bootramdisk_read \<and> bd_write d = Some bootramdisk_write \<and> bd_sector_size d = BLOCKDEV_SECTOR_SIZE \<and>
     bd_buffer_alignment d = 1 \<and> bd_max_transfer_sectors d = 128 \<and> bd_sector_count d \<noteq> 0 \<and>
     (\<exists>rd. bd_ctx d = Some rd \<and> rd_size rd = length (rd_base rd) \<and> rd_size rd \<le> U64_MAX \<and>
        rd_size rd = bd_sector_count d * BLOCKDEV_SECTOR_SIZE)"

definition ramdisk_contents :: "bootramdisk_t block_device_t \<Rightarrow> bytes" where
  "ramdisk_contents d = (case bd_ctx d of None \<Rightarrow> [] | Some rd \<Rightarrow> rd_base rd)"

text \<open>The block-layer calls with the buffer in hand, at any address.\<close>

definition blk_rd :: "nat \<Rightarrow> 'w block_device_t \<Rightarrow> nat \<Rightarrow> nat \<Rightarrow> bytes \<Rightarrow> (block_status_t \<times> bytes) option" where
  "blk_rd addr d l n b = do { (e, b') \<leftarrow> block_read (Some d) l n addr (Some b); b' \<leftarrow> b'; Some (e, b') }"

definition blk_wr :: "nat \<Rightarrow> 'w block_device_t \<Rightarrow> nat \<Rightarrow> nat \<Rightarrow> bytes \<Rightarrow> (block_status_t \<times> 'w block_device_t) option" where
  "blk_wr addr d l n b = do { (e, d') \<leftarrow> block_write (Some d) l n addr (Some b); d' \<leftarrow> d'; Some (e, d') }"

lemma ramdisk_extent_ok:
  assumes "rd_size rd = s * 512" and "rd_size rd \<le> U64_MAX" and "l + n \<le> s"
  shows "ramdisk_extent rd l n = Some (l * 512, n * 512)"
proof -
  have "l * 512 + n * 512 \<le> s * 512" using assms(3) by simp
  then show ?thesis
    using assms by (simp add: ramdisk_extent_def mul_overflow_def BLOCKDEV_SECTOR_SIZE_def)
qed

lemma validate_ok:
  "ramdisk_ok d \<Longrightarrow> validate_range (Some d) l n addr (Some b) =
     (if n = 0 then BLOCK_ERR_INVALID else if 128 < n \<or> bd_sector_count d < l + n then BLOCK_ERR_RANGE else BLOCK_OK)"
  by (auto simp: validate_range_def ramdisk_ok_def)

lemma ramdisk_read_ok:
  assumes d: "ramdisk_ok d" and "0 < n" and "n \<le> 128" and fit: "l + n \<le> bd_sector_count d" and "n * 512 \<le> length b"
  shows "block_read (Some d) l n addr (Some b) =
     Some (BLOCK_OK, Some (blit b 0 (take (n * 512) (drop (l * 512) (ramdisk_contents d)))))"
proof -
  obtain rd where rd: "bd_ctx d = Some rd" "rd_size rd = length (rd_base rd)" "rd_size rd \<le> U64_MAX"
      "rd_size rd = bd_sector_count d * 512"
    using d by (auto simp: ramdisk_ok_def BLOCKDEV_SECTOR_SIZE_def)
  have len: "l * 512 + n * 512 \<le> length (rd_base rd)" using fit rd(2,4) by simp
  have "bootramdisk_read (Some rd) l n (Some b) =
      Some (BLOCK_OK, Some (blit b 0 (take (n * 512) (drop (l * 512) (rd_base rd)))))"
    using ramdisk_extent_ok [OF rd(4,3) fit] len assms(2,5) by (simp add: bootramdisk_read_def)
  moreover have "bd_read d = Some bootramdisk_read" using d by (simp add: ramdisk_ok_def)
  moreover have "validate_range (Some d) l n addr (Some b) = BLOCK_OK" using validate_ok [OF d] assms(2-4) by simp
  ultimately show ?thesis using rd(1) by (simp add: block_read_def ramdisk_contents_def Let_def)
qed

lemma ramdisk_write_ok:
  assumes d: "ramdisk_ok d" and "0 < n" and "n \<le> 128" and fit: "l + n \<le> bd_sector_count d" and "n * 512 \<le> length b"
  shows "\<exists>d'. block_write (Some d) l n addr (Some b) = Some (BLOCK_OK, Some d') \<and> ramdisk_ok d' \<and>
     bd_sector_count d' = bd_sector_count d \<and> ramdisk_contents d' = blit (ramdisk_contents d) (l * 512) (take (n * 512) b)"
proof -
  obtain rd where rd: "bd_ctx d = Some rd" "rd_size rd = length (rd_base rd)" "rd_size rd \<le> U64_MAX"
      "rd_size rd = bd_sector_count d * 512"
    using d by (auto simp: ramdisk_ok_def BLOCKDEV_SECTOR_SIZE_def)
  have len: "l * 512 + n * 512 \<le> length (rd_base rd)" using fit rd(2,4) by simp
  let ?c = "blit (rd_base rd) (l * 512) (take (n * 512) b)"
  have w: "bootramdisk_write (Some rd) l n (Some b) = Some (BLOCK_OK, Some (rd\<lparr>rd_base := ?c\<rparr>))"
    using ramdisk_extent_ok [OF rd(4,3) fit] len assms(2,5) by (simp add: bootramdisk_write_def)
  have v: "validate_range (Some d) l n addr (Some b) = BLOCK_OK" using validate_ok [OF d] assms(2-4) by simp
  let ?d = "d\<lparr>bd_ctx := Some (rd\<lparr>rd_base := ?c\<rparr>)\<rparr>"
  have "bd_write d = Some bootramdisk_write" using d by (simp add: ramdisk_ok_def)
  then have "block_write (Some d) l n addr (Some b) = Some (BLOCK_OK, Some ?d)"
    using w v rd(1) by (simp add: block_write_def Let_def)
  moreover have "length ?c = length (rd_base rd)" using len assms(5) by (intro length_blit) simp
  then have "ramdisk_ok ?d" using d rd by (simp add: ramdisk_ok_def BLOCKDEV_SECTOR_SIZE_def)
  moreover have "ramdisk_contents ?d = blit (ramdisk_contents d) (l * 512) (take (n * 512) b)"
    using rd(1) by (simp add: ramdisk_contents_def)
  ultimately show ?thesis by (intro exI [of _ ?d]) simp
qed

lemma ramdisk_refused:
  assumes d: "ramdisk_ok d" and "n = 0 \<or> 128 < n \<or> bd_sector_count d < l + n"
  shows "\<exists>e. e \<noteq> BLOCK_OK \<and> block_read (Some d) l n addr (Some b) = Some (e, Some b) \<and>
     block_write (Some d) l n addr (Some b) = Some (e, Some d)"
proof -
  have "validate_range (Some d) l n addr (Some b) \<noteq> BLOCK_OK"
    using validate_ok [OF d] assms(2) by auto
  moreover have "bd_read d = Some bootramdisk_read" "bd_write d = Some bootramdisk_write"
    using d by (simp_all add: ramdisk_ok_def)
  ultimately show ?thesis by (simp add: block_read_def block_write_def Let_def)
qed

interpretation ram: sector_store ramdisk_ok bd_sector_count bd_max_transfer_sectors ramdisk_contents "blk_rd addr" "blk_wr addr"
  for addr
proof unfold_locales
  show "length (ramdisk_contents d) = bd_sector_count d * 512" if "ramdisk_ok d" for d
    using that by (auto simp: ramdisk_ok_def ramdisk_contents_def BLOCKDEV_SECTOR_SIZE_def)
  have mt: "bd_max_transfer_sectors d = 128" if "ramdisk_ok d" for d using that by (simp add: ramdisk_ok_def)
  show "blk_rd addr d l n b = Some (BLOCK_OK, blit b 0 (take (n * 512) (drop (l * 512) (ramdisk_contents d))))"
    if "ramdisk_ok d" "0 < n" "n \<le> bd_max_transfer_sectors d" "l + n \<le> bd_sector_count d" "n * 512 \<le> length b" for d n l b
    using ramdisk_read_ok that mt by (simp add: blk_rd_def)
  show "\<exists>d'. blk_wr addr d l n b = Some (BLOCK_OK, d') \<and> ramdisk_ok d' \<and> bd_sector_count d' = bd_sector_count d \<and>
      bd_max_transfer_sectors d' = bd_max_transfer_sectors d \<and>
      ramdisk_contents d' = blit (ramdisk_contents d) (l * 512) (take (n * 512) b)"
    if r: "ramdisk_ok d" "0 < n" "n \<le> bd_max_transfer_sectors d" "l + n \<le> bd_sector_count d" "n * 512 \<le> length b" for d n l b
  proof -
    obtain d' where "block_write (Some d) l n addr (Some b) = Some (BLOCK_OK, Some d')" "ramdisk_ok d'"
        "bd_sector_count d' = bd_sector_count d" "ramdisk_contents d' = blit (ramdisk_contents d) (l * 512) (take (n * 512) b)"
      using ramdisk_write_ok [of d n l b addr] r mt [of d] by auto
    then show ?thesis using mt r(1) by (intro exI [of _ d']) (simp add: blk_wr_def)
  qed
  show "(\<exists>e. e \<noteq> BLOCK_OK \<and> blk_rd addr d l n b = Some (e, b)) \<and> (\<exists>e. e \<noteq> BLOCK_OK \<and> blk_wr addr d l n b = Some (e, d))"
    if "ramdisk_ok d" "n = 0 \<or> bd_max_transfer_sectors d < n \<or> bd_sector_count d < l + n" for d n l b
    using ramdisk_refused [of d n l addr b] that mt [of d] by (auto simp: blk_rd_def blk_wr_def)
qed

section \<open>Partition tables\<close>

definition part_sectors :: "mbr_partition_t \<Rightarrow> nat set" where
  "part_sectors p = {unat (mp_lba_first p) ..< unat (mp_lba_first p) + unat (mp_sector_count p)}"

lemma unat_u32_bound: "unat (w :: u32) \<le> 4294967295"
  using unsigned_less [of w, where 'a = nat] by simp

lemma overlap_iff:
  "mbr_parts_overlap a b \<longleftrightarrow> mbr_part_nonempty a \<and> mbr_part_nonempty b \<and> part_sectors a \<inter> part_sectors b \<noteq> {}"
proof (cases "mbr_part_nonempty a \<and> mbr_part_nonempty b")
  case True
  let ?a = "unat (mp_lba_first a)" and ?b = "unat (mp_lba_first b)"
  let ?m = "unat (mp_sector_count a)" and ?n = "unat (mp_sector_count b)"
  have mn: "?m \<noteq> 0" "?n \<noteq> 0" using True by (auto simp: mbr_part_nonempty_def unat_eq_0)
  have "?a + (?m - 1) \<le> U64_MAX" "?b + (?n - 1) \<le> U64_MAX"
    using unat_u32_bound [of "mp_lba_first a"] unat_u32_bound [of "mp_lba_first b"]
      unat_u32_bound [of "mp_sector_count a"] unat_u32_bound [of "mp_sector_count b"] by linarith+
  then have "mbr_parts_overlap a b \<longleftrightarrow> ?a \<le> ?b + (?n - 1) \<and> ?b \<le> ?a + (?m - 1)"
    using True by (simp add: mbr_parts_overlap_def add_overflow_def Let_def)
  also have "\<dots> \<longleftrightarrow> {?a ..< ?a + ?m} \<inter> {?b ..< ?b + ?n} \<noteq> {}"
  proof
    assume "?a \<le> ?b + (?n - 1) \<and> ?b \<le> ?a + (?m - 1)"
    then have "max ?a ?b \<in> {?a ..< ?a + ?m} \<inter> {?b ..< ?b + ?n}" using mn by auto
    then show "{?a ..< ?a + ?m} \<inter> {?b ..< ?b + ?n} \<noteq> {}" by blast
  qed auto
  finally show ?thesis using True by (simp add: part_sectors_def)
qed (auto simp: mbr_parts_overlap_def)

lemma find_part_spec:
  "i + n \<le> length t \<Longrightarrow>
   \<exists>r. find_part P t i n = Some r \<and>
     (case r of
        None \<Rightarrow> \<forall>k \<in> {i ..< i + n}. \<not> P (t ! k)
      | Some k \<Rightarrow> k \<in> {i ..< i + n} \<and> P (t ! k) \<and> (\<forall>j \<in> {i ..< k}. \<not> P (t ! j)))"
proof (induction n arbitrary: i)
  case (Suc n)
  show ?case
  proof (cases "P (t ! i)")
    case True
    then show ?thesis using Suc.prems by (intro exI [of _ "Some i"]) simp
  next
    case False
    obtain r where r: "find_part P t (Suc i) n = Some r"
        "case r of None \<Rightarrow> \<forall>k \<in> {Suc i ..< Suc i + n}. \<not> P (t ! k)
         | Some k \<Rightarrow> k \<in> {Suc i ..< Suc i + n} \<and> P (t ! k) \<and> (\<forall>j \<in> {Suc i ..< k}. \<not> P (t ! j))"
      using Suc.IH [of "Suc i"] Suc.prems by auto
    have "{i ..< i + Suc n} = insert i {Suc i ..< Suc i + n}" by auto
    moreover have "{i ..< k} = insert i {Suc i ..< k}" if "Suc i \<le> k" for k using that by auto
    ultimately show ?thesis using r False Suc.prems by (intro exI [of _ r]) (auto split: option.splits)
  qed
qed simp

lemma overlap_scan_spec:
  "j + n \<le> length t \<Longrightarrow> overlap_scan t p j n = Some (\<exists>k \<in> {j ..< j + n}. mbr_parts_overlap p (t ! k))"
proof (induction n arbitrary: j)
  case (Suc n)
  moreover have "{j ..< j + Suc n} = insert j {Suc j ..< Suc j + n}" by auto
  ultimately show ?case by simp
qed simp

text \<open>A table fits a device: every used partition is valid for it and the used ones are disjoint.\<close>

definition table_fits :: "'w block_device_t \<Rightarrow> mbr_table_t \<Rightarrow> bool" where
  "table_fits d t \<longleftrightarrow>
     (\<forall>k < length t. mbr_part_nonempty (t ! k) \<longrightarrow> mbr_partition_valid (Some d) (Some (t ! k))) \<and>
     (\<forall>j < length t. \<forall>k < length t. j \<noteq> k \<and> mbr_part_nonempty (t ! j) \<and> mbr_part_nonempty (t ! k) \<longrightarrow>
        part_sectors (t ! j) \<inter> part_sectors (t ! k) = {})"

lemma table_scan_spec:
  "i + n = length t \<Longrightarrow>
   table_scan (Some d) t i n = Some (\<forall>k \<in> {i ..< i + n}. mbr_part_nonempty (t ! k) \<longrightarrow>
     mbr_partition_valid (Some d) (Some (t ! k)) \<and> (\<forall>j \<in> {Suc k ..< i + n}. \<not> mbr_parts_overlap (t ! k) (t ! j)))"
proof (induction n arbitrary: i)
  case (Suc n)
  have "{i ..< i + Suc n} = insert i {Suc i ..< Suc i + n}" by auto
  then show ?case
    using Suc.IH [of "Suc i"] Suc.prems overlap_scan_spec [of "Suc i" n t "t ! i"] by auto
qed simp

lemma table_valid_spec:
  assumes "length t = 4"
  shows "mbr_table_valid_for_device (Some d) (Some t) = Some (table_fits d t)"
proof -
  have "(\<forall>k \<in> {0 ..< 4}. mbr_part_nonempty (t ! k) \<longrightarrow>
      mbr_partition_valid (Some d) (Some (t ! k)) \<and> (\<forall>j \<in> {Suc k ..< 4}. \<not> mbr_parts_overlap (t ! k) (t ! j))) \<longleftrightarrow>
    table_fits d t" (is "?L \<longleftrightarrow> ?R")
  proof
    assume L: ?L
    have dis: "part_sectors (t ! j) \<inter> part_sectors (t ! k) = {}"
      if "j < 4" "k < 4" "j < k" "mbr_part_nonempty (t ! j)" "mbr_part_nonempty (t ! k)" for j k
      using L that by (auto simp: overlap_iff)
    have "part_sectors (t ! j) \<inter> part_sectors (t ! k) = {}"
      if "j < 4" "k < 4" "j \<noteq> k" "mbr_part_nonempty (t ! j)" "mbr_part_nonempty (t ! k)" for j k
      using dis [of j k] dis [of k j] that by (cases "j < k") (auto simp: Int_commute)
    then show ?R using L assms by (auto simp: table_fits_def)
  next
    assume ?R
    then show ?L using assms by (auto simp: table_fits_def overlap_iff)
  qed
  then show ?thesis using table_scan_spec [of 0 4 t d] assms by (simp add: mbr_table_valid_for_device_def)
qed

lemma partition_valid_sectors:
  "mbr_partition_valid (Some d) (Some p) \<Longrightarrow> bd_sector_count d \<noteq> 0 \<Longrightarrow>
   part_sectors p \<noteq> {} \<and> part_sectors p \<subseteq> {..< bd_sector_count d}"
  by (auto simp: mbr_partition_valid_def part_sectors_def unat_eq_0 split: if_splits)

section \<open>Writing and reading a table\<close>

text \<open>The on-disk form of a table: what a partitioning tool writes.\<close>

definition le4 :: "u32 \<Rightarrow> bytes" where
  "le4 w = [ucast w, ucast (drop_bit 8 w), ucast (drop_bit 16 w), ucast (drop_bit 24 w)]"

definition entry_bytes :: "mbr_partition_t \<Rightarrow> bytes" where
  "entry_bytes p = [if mp_bootable p then 0x80 else 0, 0, 0, 0, mp_type p, 0, 0, 0] @ le4 (mp_lba_first p) @ le4 (mp_sector_count p)"

definition mbr_sector :: "bytes \<Rightarrow> mbr_table_t \<Rightarrow> bytes" where
  "mbr_sector code t = code @ concat (map entry_bytes t) @ [0x55, 0xaa]"

definition entry_wf :: "mbr_partition_t \<Rightarrow> bool" where
  "entry_wf p \<longleftrightarrow> (if mp_type p = 0 then mp_lba_first p = 0 \<and> mp_sector_count p = 0 else mp_sector_count p \<noteq> 0)"

lemma le32_bytes:
  "ucast (ucast w :: u8) OR push_bit 8 (ucast (ucast (drop_bit 8 w) :: u8)) OR
     push_bit 16 (ucast (ucast (drop_bit 16 w) :: u8)) OR push_bit 24 (ucast (ucast (drop_bit 24 w) :: u8)) = (w :: u32)"
proof (rule bit_word_eqI)
  fix n assume n: "n < LENGTH(32)"
  then show "bit (ucast (ucast w :: u8) OR push_bit 8 (ucast (ucast (drop_bit 8 w) :: u8)) OR
     push_bit 16 (ucast (ucast (drop_bit 16 w) :: u8)) OR push_bit 24 (ucast (ucast (drop_bit 24 w) :: u8)) :: u32) n = bit w n"
    by (cases "n < 8"; cases "n < 16"; cases "n < 24")
      (auto simp: bit_or_iff bit_push_bit_iff bit_unsigned_iff bit_drop_bit_eq not_le not_less)
qed

lemma length_entry_bytes [simp]: "length (entry_bytes p) = 16"
  by (simp add: entry_bytes_def le4_def)

lemma mbr_parse_loop_entries:
  "drop (446 + i * 16) sec = concat (map entry_bytes ps) @ rest \<Longrightarrow> list_all entry_wf ps \<Longrightarrow> i + length ps \<le> length out \<Longrightarrow>
   mbr_parse_loop sec i (length ps) out = Some (True, take i out @ ps @ drop (i + length ps) out)"
proof (induction ps arbitrary: i out)
  case (Cons p ps)
  let ?o = "446 + i * 16"
  have at: "arr_get sec (?o + k) = Some (entry_bytes p ! k)" if "k < 16" for k
    using drop_arr_get [OF Cons.prems(1), of k] that by (simp add: nth_append)
  have d: "drop (446 + Suc i * 16) sec = concat (map entry_bytes ps) @ rest"
    using arg_cong [OF Cons.prems(1), of "drop 16"] by (simp add: add.commute add.left_commute)
  have bytes: "arr_get sec ?o = Some (if mp_bootable p then 0x80 else 0)" "arr_get sec (?o + 4) = Some (mp_type p)"
    using at [of 0] at [of 4] by (simp_all add: entry_bytes_def)
  have l1: "le32 sec (?o + 8) = Some (mp_lba_first p)" and l2: "le32 sec (?o + 12) = Some (mp_sector_count p)"
    using at [of 8] at [of 9] at [of 10] at [of 11] at [of 12] at [of 13] at [of 14] at [of 15]
    by (simp_all add: le32_def entry_bytes_def le4_def le32_bytes add.assoc)
  have wf: "entry_wf p" using Cons.prems(2) by simp
  have "mbr_parse_loop sec i (Suc (length ps)) out = mbr_parse_loop sec (Suc i) (length ps) (out[i := p])"
    using bytes l1 l2 wf Cons.prems(3) by (cases p) (auto simp: entry_wf_def Let_def)
  also have "\<dots> = Some (True, take (Suc i) (out[i := p]) @ ps @ drop (Suc i + length ps) (out[i := p]))"
    using Cons.prems d by (intro Cons.IH) auto
  also have "\<dots> = Some (True, take i out @ (p # ps) @ drop (i + length (p # ps)) out)"
    using Cons.prems(3) by (simp add: take_Suc_conv_app_nth)
  finally show ?case by simp
qed simp

section \<open>Properties\<close>

text \<open>
  C6: the RAM disk is a faithful array of sectors behind the block layer. A write of \<open>n\<close>
  sectors inside the device succeeds, reading them back into any buffer yields the written
  bytes, every read of other sectors is unaffected, and the device stays usable; a request
  of no sectors, of too many or outside the device is refused and changes neither the disk
  nor the buffer.
\<close>

theorem ramdisk_write_read:
  assumes "ramdisk_ok d"
  shows "(0 < n \<and> n \<le> 128 \<and> l + n \<le> bd_sector_count d \<and> n * 512 \<le> length b \<longrightarrow>
       (\<exists>d'. block_write (Some d) l n addr (Some b) = Some (BLOCK_OK, Some d') \<and> ramdisk_ok d' \<and>
          (\<forall>c. n * 512 \<le> length c \<longrightarrow>
             block_read (Some d') l n addr (Some c) = Some (BLOCK_OK, Some (take (n * 512) b @ drop (n * 512) c))) \<and>
          (\<forall>l' k c. 0 < k \<and> k \<le> 128 \<and> l' + k \<le> bd_sector_count d \<and> k * 512 \<le> length c \<and> (l' + k \<le> l \<or> l + n \<le> l') \<longrightarrow>
             block_read (Some d') l' k addr (Some c) = block_read (Some d) l' k addr (Some c)))) \<and>
     (n = 0 \<or> 128 < n \<or> bd_sector_count d < l + n \<longrightarrow>
       (\<exists>e. e \<noteq> BLOCK_OK \<and> block_read (Some d) l n addr (Some b) = Some (e, Some b) \<and>
          block_write (Some d) l n addr (Some b) = Some (e, Some d)))"
proof (intro conjI impI)
  have rdb: "blk_rd addr x l k c = Some (BLOCK_OK, c') \<Longrightarrow> ramdisk_ok x \<Longrightarrow> 0 < k \<and> k \<le> 128 \<and> l + k \<le> bd_sector_count x \<and> k * 512 \<le> length c \<Longrightarrow>
      block_read (Some x) l k addr (Some c) = Some (BLOCK_OK, Some c')" for x l k c c'
    using ramdisk_read_ok [of x k l c addr] by (simp add: blk_rd_def)
  assume a: "0 < n \<and> n \<le> 128 \<and> l + n \<le> bd_sector_count d \<and> n * 512 \<le> length b"
  have mt: "bd_max_transfer_sectors d = 128" using assms by (simp add: ramdisk_ok_def)
  obtain d' where d': "blk_wr addr d l n b = Some (BLOCK_OK, d')" "ramdisk_ok d'" "bd_sector_count d' = bd_sector_count d"
      "\<forall>c. n * 512 \<le> length c \<longrightarrow> blk_rd addr d' l n c = Some (BLOCK_OK, take (n * 512) b @ drop (n * 512) c)"
      "\<forall>l' k c. 0 < k \<and> k \<le> 128 \<and> l' + k \<le> bd_sector_count d \<and> k * 512 \<le> length c \<and> (l' + k \<le> l \<or> l + n \<le> l') \<longrightarrow>
         blk_rd addr d' l' k c = blk_rd addr d l' k c"
    using ram.write_read [OF assms, of n l b addr] a mt by auto
  have "block_write (Some d) l n addr (Some b) = Some (BLOCK_OK, Some d')"
    using d'(1) ramdisk_write_ok [OF assms, of n l b addr] a by (auto simp: blk_wr_def)
  moreover have "block_read (Some d') l n addr (Some c) = Some (BLOCK_OK, Some (take (n * 512) b @ drop (n * 512) c))"
    if "n * 512 \<le> length c" for c
    using rdb [OF _ d'(2)] d'(3,4) a that by simp
  moreover have "block_read (Some d') l' k addr (Some c) = block_read (Some d) l' k addr (Some c)"
    if "0 < k \<and> k \<le> 128 \<and> l' + k \<le> bd_sector_count d \<and> k * 512 \<le> length c \<and> (l' + k \<le> l \<or> l + n \<le> l')" for l' k c
    using d'(5) [rule_format, OF that] d'(3) ramdisk_read_ok [OF d'(2), of k l' c addr] ramdisk_read_ok [OF assms, of k l' c addr] that
    by (simp add: blk_rd_def)
  ultimately show "\<exists>d'. block_write (Some d) l n addr (Some b) = Some (BLOCK_OK, Some d') \<and> ramdisk_ok d' \<and>
      (\<forall>c. n * 512 \<le> length c \<longrightarrow>
         block_read (Some d') l n addr (Some c) = Some (BLOCK_OK, Some (take (n * 512) b @ drop (n * 512) c))) \<and>
      (\<forall>l' k c. 0 < k \<and> k \<le> 128 \<and> l' + k \<le> bd_sector_count d \<and> k * 512 \<le> length c \<and> (l' + k \<le> l \<or> l + n \<le> l') \<longrightarrow>
         block_read (Some d') l' k addr (Some c) = block_read (Some d) l' k addr (Some c))"
    using d'(2) by blast
qed (use ramdisk_refused [OF assms] in blast)

theorem ramdisk_write_read_witness:
  "\<exists>d'. block_write (Some (ramdisk_device 0 [] (replicate 1024 0) 1024)) 1 1 0 (Some (replicate 512 7)) = Some (BLOCK_OK, Some d') \<and>
     block_read (Some d') 1 1 0 (Some (replicate 512 0)) = Some (BLOCK_OK, Some (replicate 512 7))"
proof -
  have "ramdisk_ok (ramdisk_device 0 [] (replicate 1024 0) 1024)"
    by (simp add: ramdisk_ok_def ramdisk_device_def BLOCKDEV_SECTOR_SIZE_def)
  from ramdisk_write_read [OF this, of 1 1 "replicate 512 7" 0] obtain d' where
    "block_write (Some (ramdisk_device 0 [] (replicate 1024 0) 1024)) 1 1 0 (Some (replicate 512 7)) = Some (BLOCK_OK, Some d')"
    "\<forall>c. 1 * 512 \<le> length c \<longrightarrow> block_read (Some d') 1 1 0 (Some c) =
       Some (BLOCK_OK, Some (take (1 * 512) (replicate 512 7) @ drop (1 * 512) c))"
    by (auto simp: ramdisk_device_def BLOCKDEV_SECTOR_SIZE_def)
  then show ?thesis by auto
qed

text \<open>
  C25: the device registry keeps its invariant in every reachable state: at most eight
  devices, each with a reader, sectors of 512 bytes and a nonempty terminated name, and no
  two with the same address or the same name; every index below the count gets such a device.
\<close>

theorem block_registry_invariant:
  assumes "block_reach s"
  shows "block_inv s \<and> (\<forall>i < block_count s. \<exists>p. block_get s i = Some p \<and> p \<noteq> 0 \<and> dev_ok (devs s p))"
  using block_reach_inv [OF assms] by (auto simp: block_inv_def block_get_def block_count_def arr_get_def)

theorem block_registry_invariant_witness:
  "\<exists>s. block_reach (s :: bootramdisk_t block_layer) \<and> block_count s = 1 \<and> block_inv s"
proof -
  let ?d = "ramdisk_device 0 (0x72 # replicate 15 0) (replicate 512 0) 512"
  let ?s0 = "\<lparr>devs = \<lambda>_. ?d, devices = replicate MAX_BLOCK_DEVS 0, device_count = 0\<rparr>"
  have r0: "block_reach ?s0" by (rule block_reach.boot)
  have "registrable ?s0 1"
    by (simp add: registrable_def ramdisk_device_def MAX_BLOCK_DEVS_def BLOCKDEV_SECTOR_SIZE_def cname_def)
  then obtain s' where s': "block_register ?s0 1 = Some (True, s')" "device_count s' = 1"
    using block_register_spec [OF block_reach_inv [OF r0], of 1] by (auto simp: ramdisk_device_def)
  have "block_reach s'" using block_reach.register [OF r0 _ s'(1)] by (simp add: ramdisk_device_def)
  from block_registry_invariant [OF this] show ?thesis using \<open>block_reach s'\<close> s'(2) by (auto simp: block_count_def)
qed

text \<open>
  C15: the root partition the kernel picks is safe to use. On a partition table of four
  entries the search returns; it finds a partition exactly when the table fits the device
  and has a valid Linux partition, and what it finds is the first such: it lies inside the
  device and shares no sector with any other partition in use.
\<close>

theorem mbr_find_linux_sound:
  assumes "length t = 4" and "bd_sector_count d \<noteq> 0"
  shows "\<exists>r. mbr_find_linux_on_device (Some d) (Some t) = Some r \<and>
     (case r of
        None \<Rightarrow> \<not> table_fits d t \<or> (\<forall>k < 4. \<not> (mp_type (t ! k) = 0x83 \<and> mbr_partition_valid (Some d) (Some (t ! k))))
      | Some k \<Rightarrow> k < 4 \<and> mp_type (t ! k) = 0x83 \<and> part_sectors (t ! k) \<noteq> {} \<and>
          part_sectors (t ! k) \<subseteq> {..< bd_sector_count d} \<and>
          (\<forall>j < 4. j \<noteq> k \<and> mbr_part_nonempty (t ! j) \<longrightarrow> part_sectors (t ! j) \<inter> part_sectors (t ! k) = {}))"
proof (cases "table_fits d t")
  case False
  then show ?thesis using table_valid_spec [OF assms(1), of d] by (simp add: mbr_find_linux_on_device_def)
next
  case True
  let ?P = "\<lambda>p. mp_type p = 0x83 \<and> mbr_partition_valid (Some d) (Some p)"
  obtain r where r: "find_part ?P t 0 4 = Some r"
      "case r of None \<Rightarrow> \<forall>k \<in> {0 ..< 0 + 4}. \<not> ?P (t ! k)
       | Some k \<Rightarrow> k \<in> {0 ..< 0 + 4} \<and> ?P (t ! k) \<and> (\<forall>j \<in> {0 ..< k}. \<not> ?P (t ! j))"
    using find_part_spec [of 0 4 t ?P] assms(1) by auto
  have call: "mbr_find_linux_on_device (Some d) (Some t) = Some r"
    using table_valid_spec [OF assms(1), of d] True r(1) by (simp add: mbr_find_linux_on_device_def)
  show ?thesis
  proof (cases r)
    case None
    then show ?thesis using call r(2) by auto
  next
    case (Some k)
    then have k: "k < 4" "mp_type (t ! k) = 0x83" "mbr_partition_valid (Some d) (Some (t ! k))" using r(2) by auto
    have "mbr_part_nonempty (t ! k)"
      using k by (auto simp: mbr_part_nonempty_def mbr_partition_valid_def)
    then have "\<forall>j < 4. j \<noteq> k \<and> mbr_part_nonempty (t ! j) \<longrightarrow> part_sectors (t ! j) \<inter> part_sectors (t ! k) = {}"
      using True k(1) assms(1) by (simp add: table_fits_def)
    then show ?thesis using Some call k partition_valid_sectors [OF k(3) assms(2)] by simp
  qed
qed

theorem mbr_find_linux_sound_witness:
  "\<exists>k. mbr_find_linux_on_device (Some (ramdisk_device 0 [] [] (512 * 100)))
       (Some ([\<lparr>mp_bootable = True, mp_type = 0x83, mp_lba_first = 10, mp_sector_count = 20\<rparr>] @ tl mbr_zero)) = Some (Some k) \<and> k < 4"
proof -
  let ?d = "ramdisk_device 0 [] [] (512 * 100)"
  let ?t = "[\<lparr>mp_bootable = True, mp_type = 0x83, mp_lba_first = 10, mp_sector_count = 20\<rparr>] @ tl mbr_zero"
  have sc: "bd_sector_count ?d = 100" by (simp add: ramdisk_device_def BLOCKDEV_SECTOR_SIZE_def)
  have len: "length ?t = 4" by (simp add: mbr_zero_def)
  have rest: "?t ! k = \<lparr>mp_bootable = False, mp_type = 0, mp_lba_first = 0, mp_sector_count = 0\<rparr>" if "k \<noteq> 0" "k < 4" for k
    using that by (cases k) (auto simp: mbr_zero_def)
  have v: "mbr_partition_valid (Some ?d) (Some (?t ! 0))" using sc by (simp add: mbr_partition_valid_def)
  have "table_fits ?d ?t"
    unfolding table_fits_def len using v rest by (metis (no_types, lifting) mbr_part_nonempty_def mbr_partition_t.select_convs(2))
  moreover have "mp_type (?t ! 0) = 0x83" by simp
  ultimately have "\<not> (\<not> table_fits ?d ?t \<or> (\<forall>k < 4. \<not> (mp_type (?t ! k) = 0x83 \<and> mbr_partition_valid (Some ?d) (Some (?t ! k)))))"
    using v by (metis zero_less_numeral)
  moreover obtain r where "mbr_find_linux_on_device (Some ?d) (Some ?t) = Some r"
      "case r of None \<Rightarrow> \<not> table_fits ?d ?t \<or> (\<forall>k < 4. \<not> (mp_type (?t ! k) = 0x83 \<and> mbr_partition_valid (Some ?d) (Some (?t ! k))))
       | Some k \<Rightarrow> k < 4"
    using mbr_find_linux_sound [OF len, of ?d] sc by (auto split: option.splits)
  ultimately show ?thesis by (cases r) auto
qed

text \<open>
  C31: reading a partition table inverts writing it: the sector that holds a boot code of 446
  bytes, the four entries of a well-formed table and the signature parses to that table.
\<close>

theorem mbr_parse_roundtrip:
  assumes "length code = 446" and "length t = 4" and "list_all entry_wf t"
  shows "mbr_parse_sector (Some (mbr_sector code t)) (Some out) = Some (True, Some t)"
proof -
  let ?s = "mbr_sector code t"
  have len: "length (concat (map entry_bytes t)) = 64"
    using assms(2) by (simp add: length_concat comp_def sum_list_triv)
  have "drop (446 + 0 * 16) ?s = concat (map entry_bytes t) @ [0x55, 0xaa]"
    using assms(1) by (simp add: mbr_sector_def)
  then have "mbr_parse_loop ?s 0 (length t) mbr_zero = Some (True, take 0 mbr_zero @ t @ drop (0 + length t) mbr_zero)"
    using assms by (intro mbr_parse_loop_entries) (auto simp: mbr_zero_def)
  moreover have "drop 510 ?s = [0x55, 0xaa]" using assms(1) len by (simp add: mbr_sector_def)
  then have "arr_get ?s 510 = Some 0x55" "arr_get ?s 511 = Some 0xaa"
    using drop_arr_get [of 510 ?s "[0x55, 0xaa]" 0] drop_arr_get [of 510 ?s "[0x55, 0xaa]" 1] by auto
  ultimately show ?thesis using assms(2) by (simp add: mbr_parse_sector_def mbr_zero_def)
qed

theorem mbr_parse_roundtrip_witness:
  "mbr_parse_sector (Some (mbr_sector (replicate 446 0) mbr_zero)) (Some []) = Some (True, Some mbr_zero)"
  using mbr_parse_roundtrip [of "replicate 446 0" mbr_zero "[]"] by (simp add: mbr_zero_def entry_wf_def list_all_iff)

end
