(* ===== verification/Log.thy ===== *)
theory Log
  imports Phys_Mem Printf
begin

text \<open>
  The kernel log, \<^verbatim>\<open>kernel/core/log.c\<close>: a ring of fixed-length lines that starts in a static
  array and moves to a larger heap array once the heap is up. Lines are byte arrays; a
  write returns, beside the new state, the lines it passed to \<^verbatim>\<open>console_write\<close> and
  \<^verbatim>\<open>serial_write\<close>. Each operation runs under \<^verbatim>\<open>log_lock\<close> with interrupts off and is one
  step here. Line numbers stay below \<^verbatim>\<open>LOG_HEAP_LINES\<close>, so their \<^verbatim>\<open>u32\<close> sums never wrap.
  The log is shown to hold exactly the most recent lines of everything written to it.
\<close>

section \<open>State and operations\<close>

definition LOG_TRACE :: nat where "LOG_TRACE = 0"
definition LOG_INFO :: nat where "LOG_INFO = 1"
definition LOG_WARN :: nat where "LOG_WARN = 2"
definition LOG_ERROR :: nat where "LOG_ERROR = 3"
definition LOG_FATAL :: nat where "LOG_FATAL = 4"

definition LOG_EARLY_LINES :: nat where "LOG_EARLY_LINES = 64"
definition LOG_EARLY_LINE_LEN :: nat where "LOG_EARLY_LINE_LEN = 192"
definition LOG_HEAP_LINES :: nat where "LOG_HEAP_LINES = 4096"
definition LOG_HEAP_LINE_LEN :: nat where "LOG_HEAP_LINE_LEN = 384"

record log_t =
  ring_storage :: "bytes list"
  ring_lines :: nat
  ring_line_len :: nat
  write_index :: nat
  total_lines :: nat
  heap_ring_active :: bool

definition console_min_level :: nat where "console_min_level = LOG_ERROR"
definition serial_min_level :: nat where "serial_min_level = LOG_WARN"

definition ring_line :: "log_t \<Rightarrow> nat \<Rightarrow> bytes option" where
  "ring_line s idx = arr_get (ring_storage s) idx"

definition log_level_name :: "nat \<Rightarrow> bytes" where
  "log_level_name level =
     (if level = LOG_TRACE then cbytes ''TRACE''
      else if level = LOG_INFO then cbytes ''INFO''
      else if level = LOG_WARN then cbytes ''WARN''
      else if level = LOG_ERROR then cbytes ''ERROR''
      else if level = LOG_FATAL then cbytes ''FATAL''
      else cbytes ''UNKNOWN'')"

text \<open>The C disjunction: operands are evaluated from the left until one is true.\<close>

fun first_true :: "bool option list \<Rightarrow> bool option" where
  "first_true [] = Some False"
| "first_true (x # xs) = do { b \<leftarrow> x; if b then Some True else first_true xs }"

definition strstr_in :: "bytes \<Rightarrow> string \<Rightarrow> bool option" where
  "strstr_in line s =
     map_option (\<lambda>p. p \<noteq> None) (strstr (\<lambda>k. if k = 0 then line else cbytes s) (Some (0, 0)) (Some (1, 0)))"

definition strncmp_eq :: "bytes \<Rightarrow> string \<Rightarrow> nat \<Rightarrow> bool option" where
  "strncmp_eq line s n =
     map_option (\<lambda>r. r = 0) (strncmp (\<lambda>k. if k = 0 then line else cbytes s) (Some (0, 0)) (Some (1, 0)) n)"

definition log_line_has_attention_marker :: "bytes option \<Rightarrow> bool option" where
  "log_line_has_attention_marker line = (case line of None \<Rightarrow> Some False | Some l \<Rightarrow>
     first_true [strstr_in l ''[ fail  ]'', strstr_in l ''KTEST_STATUS: FAIL'', strstr_in l ''[ ambiguous ]'',
       strstr_in l ''[ inconclusive ]'', strstr_in l ''[ unknown ]''])"

definition log_formatted_line_should_emit_serial :: "bytes option \<Rightarrow> bool option" where
  "log_formatted_line_should_emit_serial line = (case line of None \<Rightarrow> Some False | Some l \<Rightarrow>
     first_true [strncmp_eq l ''[WARN]'' 6, strncmp_eq l ''[ERROR]'' 7, strncmp_eq l ''[FATAL]'' 7,
       log_line_has_attention_marker line])"

definition log_line_should_emit_serial :: "nat \<Rightarrow> bytes option \<Rightarrow> bool option" where
  "log_line_should_emit_serial level line =
     first_true [Some (level \<ge> serial_min_level), log_formatted_line_should_emit_serial line]"

definition log_init :: log_t where
  "log_init = \<lparr>ring_storage = replicate LOG_EARLY_LINES (replicate LOG_EARLY_LINE_LEN 0),
     ring_lines = LOG_EARLY_LINES, ring_line_len = LOG_EARLY_LINE_LEN, write_index = 0, total_lines = 0,
     heap_ring_active = False\<rparr>"

text \<open>Line \<open>i\<close> of the oldest-first order that starts at \<open>start\<close>, and the copies of the first \<open>n\<close> lines.\<close>

definition copy_line :: "bytes \<Rightarrow> bytes option" where
  "copy_line src = do {
     (n, h) \<leftarrow> strlcpy (\<lambda>k. if k = 0 then replicate LOG_HEAP_LINE_LEN 0 else src) (Some (0, 0)) (Some (1, 0)) LOG_HEAP_LINE_LEN;
     arr_set (h 0) (LOG_HEAP_LINE_LEN - 1) 0 }"

fun copy_lines :: "log_t \<Rightarrow> nat \<Rightarrow> nat \<Rightarrow> nat \<Rightarrow> bytes list \<Rightarrow> bytes list option" where
  "copy_lines s old_start i 0 new = Some new"
| "copy_lines s old_start i (Suc n) new = do {
     src \<leftarrow> ring_line s ((old_start + i) mod ring_lines s);
     dst \<leftarrow> copy_line src;
     new \<leftarrow> arr_set new i dst;
     copy_lines s old_start (Suc i) n new }"

text \<open>\<open>calloc_ok\<close> says whether \<^verbatim>\<open>kcalloc\<close> returned zeroed memory or null.\<close>

definition log_enable_heap_ring :: "bool \<Rightarrow> log_t \<Rightarrow> log_t option" where
  "log_enable_heap_ring calloc_ok s =
     (if heap_ring_active s \<or> \<not> calloc_ok then Some s
      else do {
        let copy_count = (if total_lines s > LOG_HEAP_LINES then LOG_HEAP_LINES else total_lines s);
        let old_start = (if total_lines s = ring_lines s then write_index s else 0);
        let old_start = (if total_lines s > copy_count then (old_start + (total_lines s - copy_count)) mod ring_lines s else old_start);
        new \<leftarrow> copy_lines s old_start 0 copy_count (replicate LOG_HEAP_LINES (replicate LOG_HEAP_LINE_LEN 0));
        Some \<lparr>ring_storage = new, ring_lines = LOG_HEAP_LINES, ring_line_len = LOG_HEAP_LINE_LEN,
          write_index = (if copy_count = LOG_HEAP_LINES then 0 else copy_count), total_lines = copy_count,
          heap_ring_active = True\<rparr> })"

text \<open>Formatting one line into its slot.\<close>

definition format_line :: "nat \<Rightarrow> nat \<Rightarrow> bytes option \<Rightarrow> bytes option \<Rightarrow> varg list \<Rightarrow> bytes \<Rightarrow> bytes option" where
  "format_line len level component fmt args dst = do {
     l \<leftarrow> rabbitbone_buf_init (Some \<lparr>bo_buf = None, bo_cap = 0, bo_used = 0\<rparr>) (Some dst) len;
     l \<leftarrow> rabbitbone_buf_vappendf l (Some (cbytes ''[%s] %s: ''))
            [VStr (Some (log_level_name level)), VStr (Some (case component of None \<Rightarrow> cbytes ''kernel'' | Some c \<Rightarrow> c))];
     l \<leftarrow> rabbitbone_buf_vappendf l (Some (case fmt of None \<Rightarrow> cbytes '''' | Some f \<Rightarrow> f)) args;
     l \<leftarrow> rabbitbone_buf_append_raw l (Some (cbytes ''\<newline>''));
     o' \<leftarrow> l;
     dst \<leftarrow> bo_buf o';
     arr_set dst (len - 1) 0 }"

definition log_vwrite :: "nat \<Rightarrow> bytes option \<Rightarrow> bytes option \<Rightarrow> varg list \<Rightarrow> log_t \<Rightarrow> (log_t \<times> bytes list \<times> bytes list) option" where
  "log_vwrite level component fmt args s = do {
     dst \<leftarrow> ring_line s (write_index s);
     dst \<leftarrow> format_line (ring_line_len s) level component fmt args dst;
     storage \<leftarrow> arr_set (ring_storage s) (write_index s) dst;
     let con = (if level \<ge> console_min_level then [dst] else []);
     ser \<leftarrow> log_line_should_emit_serial level (Some dst);
     Some (s\<lparr>ring_storage := storage, write_index := (write_index s + 1) mod ring_lines s,
             total_lines := (if total_lines s < ring_lines s then total_lines s + 1 else total_lines s)\<rparr>,
           con, if ser then [dst] else []) }"

definition log_write :: "nat \<Rightarrow> bytes option \<Rightarrow> bytes option \<Rightarrow> varg list \<Rightarrow> log_t \<Rightarrow> (log_t \<times> bytes list \<times> bytes list) option" where
  "log_write level component fmt args s = log_vwrite level component fmt args s"

text \<open>The arguments of one \<^verbatim>\<open>KLOG\<close>, as other components return them: level, component, format, values.\<close>

type_synonym klog_call = "nat \<times> bytes \<times> bytes \<times> varg list"

text \<open>A dump is the list of lines the writer callback is called with, in order.\<close>

fun dump_lines :: "log_t \<Rightarrow> nat \<Rightarrow> nat \<Rightarrow> nat \<Rightarrow> bytes list option" where
  "dump_lines s start i 0 = Some []"
| "dump_lines s start i (Suc n) = do {
     l \<leftarrow> ring_line s ((start + i) mod ring_lines s);
     ls \<leftarrow> dump_lines s start (Suc i) n;
     Some (l # ls) }"

definition dump_start :: "log_t \<Rightarrow> nat" where
  "dump_start s = (if total_lines s = ring_lines s then write_index s else 0)"

definition log_dump_ring_ctx :: "bool \<Rightarrow> log_t \<Rightarrow> bytes list option" where
  "log_dump_ring_ctx writer s = (if \<not> writer then Some [] else dump_lines s (dump_start s) 0 (total_lines s))"

text \<open>The budget loop, counting back from the newest line; \<open>n\<close> lines have been looked at.\<close>

function tail_count :: "log_t \<Rightarrow> nat \<Rightarrow> nat \<Rightarrow> usize \<Rightarrow> nat \<Rightarrow> nat \<Rightarrow> usize \<Rightarrow> nat option" where
  "tail_count s start cnt max_bytes n emit_count used =
     (if n < cnt then do {
        let logical = cnt - 1 - n;
        l \<leftarrow> ring_line s ((start + logical) mod ring_lines s);
        len \<leftarrow> strnlen (\<lambda>_. l) (Some (0, 0)) (ring_line_len s);
        if emit_count \<noteq> 0 \<and> len > sub64 max_bytes used then Some emit_count
        else if emit_count = 0 \<and> len > max_bytes then Some 1
        else if used + len \<ge> max_bytes then Some (emit_count + 1)
        else tail_count s start cnt max_bytes (Suc n) (emit_count + 1) (used + len) }
      else Some emit_count)"
  by pat_completeness auto
termination
  by (relation "measure (\<lambda>(s, start, cnt, max_bytes, n, emit_count, used). cnt - n)") auto

declare tail_count.simps [simp del]

definition log_dump_ring_tail_ctx :: "bool \<Rightarrow> usize \<Rightarrow> log_t \<Rightarrow> bytes list option" where
  "log_dump_ring_tail_ctx writer max_bytes s =
     (if \<not> writer then Some []
      else do {
        let cnt = total_lines s;
        let start = dump_start s;
        emit_count \<leftarrow> (if cnt \<noteq> 0 \<and> max_bytes \<noteq> 0 then tail_count s start cnt max_bytes 0 0 0 else Some 0);
        let first = (if cnt \<ge> emit_count then cnt - emit_count else 0);
        dump_lines s start first (cnt - first) })"

text \<open>The variant without a context wraps the writer, which may be null, in a callback that is not.\<close>

definition log_dump_compat_line :: "bool \<Rightarrow> bytes \<Rightarrow> bytes list" where
  "log_dump_compat_line writer line = (if writer then [line] else [])"

definition log_dump_ring :: "bool \<Rightarrow> log_t \<Rightarrow> bytes list option" where
  "log_dump_ring writer s = map_option (\<lambda>ls. concat (map (log_dump_compat_line writer) ls)) (log_dump_ring_ctx True s)"

section \<open>The ring as a history\<close>

definition line_text :: "bytes \<Rightarrow> bytes" where
  "line_text l = takeWhile (\<lambda>c. c \<noteq> 0) l"

definition log_seq :: "log_t \<Rightarrow> bytes list" where
  "log_seq s = map (\<lambda>i. ring_storage s ! ((dump_start s + i) mod ring_lines s)) [0..<total_lines s]"

definition last_n :: "nat \<Rightarrow> 'a list \<Rightarrow> 'a list" where
  "last_n n xs = drop (length xs - n) xs"

text \<open>Every line slot has room for the ring's line length and a NUL within it.\<close>

definition line_ok :: "nat \<Rightarrow> bytes \<Rightarrow> bool" where
  "line_ok len l \<longleftrightarrow> 0 < len \<and> len \<le> length l \<and> l ! (len - 1) = 0"

definition log_inv :: "log_t \<Rightarrow> bool" where
  "log_inv s \<longleftrightarrow>
     ring_lines s = (if heap_ring_active s then LOG_HEAP_LINES else LOG_EARLY_LINES) \<and>
     ring_line_len s = (if heap_ring_active s then LOG_HEAP_LINE_LEN else LOG_EARLY_LINE_LEN) \<and>
     length (ring_storage s) = ring_lines s \<and> (\<forall>l \<in> set (ring_storage s). line_ok (ring_line_len s) l) \<and>
     write_index s < ring_lines s \<and> total_lines s \<le> ring_lines s \<and>
     (total_lines s < ring_lines s \<longrightarrow> write_index s = total_lines s)"

lemmas log_consts = LOG_EARLY_LINES_def LOG_EARLY_LINE_LEN_def LOG_HEAP_LINES_def LOG_HEAP_LINE_LEN_def

lemma log_inv_lines:
  assumes "log_inv s"
  shows "0 < ring_lines s" and "0 < ring_line_len s" and "ring_line_len s \<le> LOG_HEAP_LINE_LEN" and "ring_lines s \<le> LOG_HEAP_LINES"
  using assms by (auto simp: log_inv_def log_consts split: if_splits)

lemma ring_line_inv:
  assumes "log_inv s"
  shows "ring_line s (k mod ring_lines s) = Some (ring_storage s ! (k mod ring_lines s))"
    and "line_ok (ring_line_len s) (ring_storage s ! (k mod ring_lines s))"
  using assms log_inv_lines(1) [OF assms] by (auto simp: ring_line_def log_inv_def)

lemma dump_lines_spec:
  assumes "log_inv s"
  shows "dump_lines s start i n = Some (map (\<lambda>k. ring_storage s ! ((start + k) mod ring_lines s)) [i..<i + n])"
  by (induction n arbitrary: i) (simp_all add: ring_line_inv [OF assms] upt_conv_Cons del: upt_Suc)

lemma dump_lines_seq:
  assumes "log_inv s" and "i \<le> total_lines s"
  shows "dump_lines s (dump_start s) i (total_lines s - i) = Some (drop i (log_seq s))"
  using assms by (simp add: dump_lines_spec log_seq_def drop_map)

lemma length_log_seq [simp]: "length (log_seq s) = total_lines s"
  by (simp add: log_seq_def)

lemma log_dump_ring_seq: "log_inv s \<Longrightarrow> log_dump_ring True s = Some (log_seq s)"
  using dump_lines_seq [of s 0]
  by (simp add: log_dump_ring_def log_dump_ring_ctx_def log_dump_compat_line_def [abs_def])

text \<open>Storing at the write index appends to the sequence, dropping its head when the ring is full.\<close>

lemma log_seq_push:
  assumes "log_inv s"
    and s': "s' = s\<lparr>ring_storage := (ring_storage s)[write_index s := l], write_index := (write_index s + 1) mod ring_lines s,
             total_lines := (if total_lines s < ring_lines s then total_lines s + 1 else total_lines s)\<rparr>"
  shows "log_seq s' = last_n (ring_lines s) (log_seq s @ [l])"
proof (cases "total_lines s < ring_lines s")
  case True
  then have w: "write_index s = total_lines s" "total_lines s < length (ring_storage s)" using assms(1) by (auto simp: log_inv_def)
  have st: "dump_start s = 0" using True by (simp add: dump_start_def)
  show ?thesis
  proof (rule nth_equalityI)
    fix i assume "i < length (log_seq s')"
    then have i: "i < Suc (total_lines s)" using s' True by simp
    show "log_seq s' ! i = last_n (ring_lines s) (log_seq s @ [l]) ! i"
    proof (cases "Suc (total_lines s) = ring_lines s")
      case True
      then have "dump_start s' = 0" using s' w by (simp add: dump_start_def)
      then show ?thesis using i True s' w st
        by (cases "i = total_lines s") (simp_all add: log_seq_def last_n_def nth_append del: upt_Suc)
    next
      case False
      then have "dump_start s' = 0" using s' w True by (simp add: dump_start_def)
      then show ?thesis using i False True s' w st
        by (cases "i = total_lines s") (simp_all add: log_seq_def last_n_def nth_append del: upt_Suc)
    qed
  qed (use True s' in \<open>simp add: last_n_def\<close>)
next
  case False
  then have t: "total_lines s = ring_lines s" "length (ring_storage s) = ring_lines s" and w: "write_index s < ring_lines s"
    using assms(1) by (auto simp: log_inv_def)
  let ?N = "ring_lines s" let ?w = "write_index s"
  have st: "dump_start s = ?w" "dump_start s' = (?w + 1) mod ?N" using t s' by (simp_all add: dump_start_def)
  show ?thesis
  proof (rule nth_equalityI)
    fix i assume "i < length (log_seq s')"
    then have i: "i < ?N" using s' t by simp
    have ix: "((?w + 1) mod ?N + i) mod ?N = (?w + Suc i) mod ?N" by (simp add: mod_add_left_eq)
    have "(?w + Suc i) mod ?N = ?w \<longleftrightarrow> Suc i = ?N"
      using i w by (auto simp: mod_if)
    then show "log_seq s' ! i = last_n ?N (log_seq s @ [l]) ! i"
      using i t s' w st ix by (auto simp: log_seq_def last_n_def nth_append mod_less_divisor)
  qed (use t s' in \<open>simp add: last_n_def\<close>)
qed

section \<open>Lines as C strings\<close>

lemma line_text_no_nul [simp]: "0 \<notin> set (line_text l)"
  by (auto simp: line_text_def dest: set_takeWhileD)

lemma line_text_split:
  assumes "0 \<in> set l"
  obtains rest where "l = line_text l @ 0 # rest"
proof -
  have "dropWhile (\<lambda>c. c \<noteq> 0) l \<noteq> []" using assms by simp
  then obtain x rest where x: "dropWhile (\<lambda>c. c \<noteq> 0) l = x # rest" by (meson list.exhaust)
  then have "x = 0" using hd_dropWhile [of "\<lambda>c. c \<noteq> 0" l] by simp
  then have "l = line_text l @ 0 # rest"
    using takeWhile_dropWhile_id [of "\<lambda>c. c \<noteq> 0" l] x by (simp add: line_text_def)
  then show thesis by (rule that)
qed

lemma cstr_line: "0 \<in> set (h k) \<Longrightarrow> cstr h (Some (k, 0)) (line_text (h k))"
  by (rule line_text_split [of "h k"]) (auto simp: cstr_def)

lemma line_text_append_nul: "0 \<notin> set t \<Longrightarrow> line_text (t @ 0 # rest) = t"
  by (auto simp: line_text_def takeWhile_append)

lemma line_text_set_nul:
  assumes "0 \<notin> set t" and "length t \<le> k"
  shows "line_text ((t @ 0 # rest)[k := 0]) = t"
  using assms by (cases "k - length t") (simp_all add: list_update_append line_text_append_nul)

lemma line_ok_nul:
  assumes "line_ok len l"
  shows "0 \<in> set l"
proof -
  have "len - 1 < length l" using assms by (simp add: line_ok_def) linarith
  from nth_mem [OF this] show ?thesis using assms by (simp add: line_ok_def)
qed

lemma line_ok_text_length: 
  assumes "line_ok len l"
  shows "length (line_text l) < len"
proof (rule ccontr)
  assume "\<not> length (line_text l) < len"
  then have k: "len - 1 < length (line_text l)" using assms by (simp add: line_ok_def) linarith
  then have "line_text l ! (len - 1) = l ! (len - 1)" by (simp add: line_text_def takeWhile_nth)
  then show False using nth_mem [OF k] assms by (simp add: line_ok_def)
qed

lemma copy_line_spec:
  assumes "line_ok len l" and "len \<le> LOG_HEAP_LINE_LEN"
  shows "\<exists>l'. copy_line l = Some l' \<and> line_ok LOG_HEAP_LINE_LEN l' \<and> line_text l' = line_text l"
proof -
  let ?h = "\<lambda>k :: nat. if k = 0 then replicate LOG_HEAP_LINE_LEN 0 else l"
  let ?t = "line_text l"
  have len: "length ?t < LOG_HEAP_LINE_LEN" using line_ok_text_length [OF assms(1)] assms(2) by simp
  then have tk: "take (LOG_HEAP_LINE_LEN - 1) ?t = ?t" by simp
  have "cstr ?h (Some (1, 0)) ?t" using cstr_line [of ?h 1] line_ok_nul [OF assms(1)] by simp
  from strlcpy_spec [OF this, of 0 0 LOG_HEAP_LINE_LEN]
  have "strlcpy ?h (Some (0, 0)) (Some (1, 0)) LOG_HEAP_LINE_LEN =
      Some (length ?t, ?h(0 := blit (replicate LOG_HEAP_LINE_LEN 0) 0 (?t @ [0])))"
    unfolding tk by (simp add: LOG_HEAP_LINE_LEN_def)
  moreover define b where "b = blit (replicate LOG_HEAP_LINE_LEN 0) 0 (?t @ [0])"
  moreover have lb: "length b = LOG_HEAP_LINE_LEN" unfolding b_def using len by (subst length_blit) auto
  ultimately have "copy_line l = Some (b[LOG_HEAP_LINE_LEN - 1 := 0])"
    by (simp add: copy_line_def LOG_HEAP_LINE_LEN_def)
  moreover obtain rest where "b = ?t @ 0 # rest"
    using len by (simp add: b_def blit_def)
  then have "line_text (b[LOG_HEAP_LINE_LEN - 1 := 0]) = ?t" using len by (simp add: line_text_set_nul)
  moreover have "line_ok LOG_HEAP_LINE_LEN (b[LOG_HEAP_LINE_LEN - 1 := 0])"
    using lb by (simp add: line_ok_def LOG_HEAP_LINE_LEN_def)
  ultimately show ?thesis by blast
qed

section \<open>Moving to the heap ring\<close>

lemma copy_lines_spec:
  assumes "log_inv s"
  shows "i + n \<le> length new \<Longrightarrow>
    \<exists>new'. copy_lines s a i n new = Some new' \<and> length new' = length new \<and>
      (\<forall>k < length new. if i \<le> k \<and> k < i + n
         then line_ok LOG_HEAP_LINE_LEN (new' ! k) \<and> line_text (new' ! k) = line_text (ring_storage s ! ((a + k) mod ring_lines s))
         else new' ! k = new ! k)"
proof (induction n arbitrary: i new)
  case (Suc n)
  obtain l where l: "copy_line (ring_storage s ! ((a + i) mod ring_lines s)) = Some l" "line_ok LOG_HEAP_LINE_LEN l"
      "line_text l = line_text (ring_storage s ! ((a + i) mod ring_lines s))"
    using copy_line_spec [OF ring_line_inv(2) [OF assms] log_inv_lines(3) [OF assms]] by blast
  obtain new' where n: "copy_lines s a (Suc i) n (new[i := l]) = Some new'" "length new' = length new"
      "\<forall>k < length new. if Suc i \<le> k \<and> k < Suc i + n
         then line_ok LOG_HEAP_LINE_LEN (new' ! k) \<and> line_text (new' ! k) = line_text (ring_storage s ! ((a + k) mod ring_lines s))
         else new' ! k = new[i := l] ! k"
    using Suc.IH [of "Suc i" "new[i := l]"] Suc.prems by auto
  have "if i \<le> k \<and> k < i + Suc n
         then line_ok LOG_HEAP_LINE_LEN (new' ! k) \<and> line_text (new' ! k) = line_text (ring_storage s ! ((a + k) mod ring_lines s))
         else new' ! k = new ! k" if k: "k < length new" for k
    using n(3) [rule_format, OF k] l k by (cases "k = i") auto
  then show ?case using l(1) n(1,2) Suc.prems by (simp add: ring_line_inv [OF assms])
qed auto

lemma enable_heap_ring_spec:
  assumes "log_inv s"
  shows "\<exists>s'. log_enable_heap_ring ok s = Some s' \<and> log_inv s' \<and> total_lines s' = total_lines s \<and>
     map line_text (log_seq s') = map line_text (log_seq s) \<and> (heap_ring_active s' \<longleftrightarrow> heap_ring_active s \<or> ok)"
proof (cases "heap_ring_active s \<or> \<not> ok")
  case True
  then show ?thesis using assms by (auto simp: log_enable_heap_ring_def)
next
  case False
  then have t: "total_lines s \<le> LOG_EARLY_LINES" using assms by (simp add: log_inv_def)
  then have t': "total_lines s < LOG_HEAP_LINES" by (simp add: log_consts)
  let ?new = "replicate LOG_HEAP_LINES (replicate LOG_HEAP_LINE_LEN 0) :: bytes list"
  obtain new where n: "copy_lines s (dump_start s) 0 (total_lines s) ?new = Some new" "length new = LOG_HEAP_LINES"
      "\<forall>k < LOG_HEAP_LINES. if k < total_lines s
         then line_ok LOG_HEAP_LINE_LEN (new ! k) \<and> line_text (new ! k) = line_text (ring_storage s ! ((dump_start s + k) mod ring_lines s))
         else new ! k = ?new ! k"
    using copy_lines_spec [OF assms, of 0 "total_lines s" ?new "dump_start s"] t' by auto
  let ?s = "\<lparr>ring_storage = new, ring_lines = LOG_HEAP_LINES, ring_line_len = LOG_HEAP_LINE_LEN,
      write_index = total_lines s, total_lines = total_lines s, heap_ring_active = True\<rparr>"
  have "log_enable_heap_ring ok s = Some ?s"
    using False n(1) t' by (simp add: log_enable_heap_ring_def Let_def dump_start_def)
  moreover have "line_ok LOG_HEAP_LINE_LEN (new ! k)" if "k < LOG_HEAP_LINES" for k
    using n(3) [rule_format, OF that] that by (auto simp: line_ok_def LOG_HEAP_LINE_LEN_def split: if_splits)
  then have "log_inv ?s" using n(2) t' by (auto simp: log_inv_def in_set_conv_nth)
  moreover have "map line_text (log_seq ?s) = map line_text (log_seq s)"
    using n(3) t' by (auto simp: log_seq_def dump_start_def)
  ultimately show ?thesis using False by auto
qed

section \<open>Writing a line\<close>

definition ascii :: "string \<Rightarrow> bytes" where
  "ascii s = map of_char s"

definition comp_name :: "bytes option \<Rightarrow> bytes" where
  "comp_name c = (case c of None \<Rightarrow> ascii ''kernel'' | Some b \<Rightarrow> line_text b)"

text \<open>The whole line a call asks for, before it is cut to the length of a slot.\<close>

definition full_line :: "nat \<Rightarrow> bytes option \<Rightarrow> bytes \<Rightarrow> bytes" where
  "full_line level c msg =
     ascii ''['' @ line_text (log_level_name level) @ ascii ''] '' @ comp_name c @ ascii '': '' @ msg @ [10]"

lemma prefix_render:
  assumes "0 \<in> set lvl" and "0 \<in> set c"
  shows "render (cbytes ''[%s] %s: '') [VStr (Some lvl), VStr (Some c)] 0 =
    Some ([0x5b] @ line_text lvl @ [0x5d, 0x20] @ line_text c @ [0x3a, 0x20])"
proof -
  let ?f = "[0x5b, 0x25, 0x73, 0x5d, 0x20, 0x25, 0x73, 0x3a, 0x20, 0] :: bytes"
  have f: "cbytes ''[%s] %s: '' = ?f" by code_simp
  let ?sp = "\<lparr>pad_zero = False, width = 0, long_flag = False, long_long_flag = False\<rparr>"
  have p: "parse_spec ?f 2 = Some (?sp, 2)" "parse_spec ?f 6 = Some (?sp, 6)" by code_simp+
  have st: "str_text (Some lvl) = Some (line_text lvl)" "str_text (Some c) = Some (line_text c)"
    using assms by (simp_all add: str_text_def line_text_def)
  have "render ?f [] 7 = Some [0x3a, 0x20]" by code_simp
  moreover have "render ?f [VStr (Some c)] 5 = map_option (\<lambda>u. line_text c @ u) (render ?f [] 7)"
    by (subst render.simps) (simp add: p st conv_text_def)
  moreover have "render ?f [VStr (Some c)] 4 = map_option (\<lambda>t. 0x20 # t) (render ?f [VStr (Some c)] 5)"
    by (subst render.simps) simp
  moreover have "render ?f [VStr (Some c)] 3 = map_option (\<lambda>t. 0x5d # t) (render ?f [VStr (Some c)] 4)"
    by (subst render.simps) simp
  moreover have "render ?f [VStr (Some lvl), VStr (Some c)] 1 = map_option (\<lambda>u. line_text lvl @ u) (render ?f [VStr (Some c)] 3)"
    by (subst render.simps) (simp add: p [unfolded numeral_2_eq_2] st conv_text_def numeral_3_eq_3)
  moreover have "render ?f [VStr (Some lvl), VStr (Some c)] 0 = map_option (\<lambda>t. 0x5b # t) (render ?f [VStr (Some lvl), VStr (Some c)] 1)"
    by (subst render.simps) simp
  ultimately show ?thesis unfolding f by simp
qed

lemma log_level_name_nul [simp]: "0 \<in> set (log_level_name level)"
  by (simp add: log_level_name_def cbytes_def)

lemma buf_init_text:
  assumes "0 < len" and "len \<le> length dst" and "len \<le> U64_MAX"
  shows "\<exists>o'. rabbitbone_buf_init (Some out) (Some dst) len = Some (Some o') \<and> bo_cap o' = len \<and> buf_text o' []"
proof -
  have "0 < length dst" using assms(1,2) by linarith
  then show ?thesis using assms by (auto simp: rabbitbone_buf_init_def buf_text_def)
qed

lemma take_fill: "take n a @ take (n - length (take n a)) b = take n (a @ b)"
  by (simp add: min_def)

lemma format_line_spec:
  assumes "line_ok len dst" and "len \<le> LOG_HEAP_LINE_LEN"
    and "render f args 0 = Some r" and "0 \<notin> set r" and "case c of None \<Rightarrow> True | Some b \<Rightarrow> 0 \<in> set b"
  shows "\<exists>l. format_line len level c (Some f) args dst = Some l \<and> line_ok len l \<and>
     line_text l = take (len - 1) (full_line level c r)"
proof -
  have len: "0 < len" "len \<le> length dst" "len \<le> U64_MAX" "len - 1 \<le> 2147483647"
    using assms(1,2) by (auto simp: line_ok_def LOG_HEAP_LINE_LEN_def)
  define cb where "cb = (case c of None \<Rightarrow> cbytes ''kernel'' | Some b \<Rightarrow> b)"
  have cb: "0 \<in> set cb" "line_text cb = comp_name c"
    using assms(5) by (auto simp: cb_def comp_name_def cbytes_def ascii_def split: option.splits) code_simp
  define pre where "pre = [0x5b] @ line_text (log_level_name level) @ [0x5d, 0x20] @ comp_name c @ [0x3a, 0x20]"
  have pre: "render (cbytes ''[%s] %s: '') [VStr (Some (log_level_name level)), VStr (Some cb)] 0 = Some pre"
    using prefix_render [OF log_level_name_nul cb(1)] cb(2) by (simp add: pre_def)
  obtain o1 where o1: "rabbitbone_buf_init (Some \<lparr>bo_buf = None, bo_cap = 0, bo_used = 0\<rparr>) (Some dst) len = Some (Some o1)"
      "bo_cap o1 = len" "buf_text o1 []"
    using buf_init_text [OF len(1-3)] by blast
  obtain o2 where o2: "rabbitbone_buf_vappendf (Some o1) (Some (cbytes ''[%s] %s: ''))
        [VStr (Some (log_level_name level)), VStr (Some cb)] = Some (Some o2)"
      "bo_cap o2 = len" "buf_text o2 (take (len - 1) pre)"
    using vappendf_spec [OF o1(3) pre] o1(2) len(4) by (auto simp: min_absorb1)
  obtain o3 where o3: "rabbitbone_buf_vappendf (Some o2) (Some f) args = Some (Some o3)"
      "bo_cap o3 = len" "buf_text o3 (take (len - 1) (pre @ r))"
  proof -
    have "min (len - 1 - length (take (len - 1) pre)) 2147483647 = len - 1 - length (take (len - 1) pre)"
      using len(4) by linarith
    then show thesis
      using vappendf_spec [OF o2(3) assms(3)] o2(2) that by (metis take_fill)
  qed
  obtain o4 where o4: "rabbitbone_buf_append_raw (Some o3) (Some ([10] @ [0])) = Some (Some o4)"
      "bo_cap o4 = len" "buf_text o4 (take (len - 1) (pre @ r @ [10]))"
    using append_raw_spec [OF o3(3), of "[10]"] o3(2) take_fill [of "len - 1" "pre @ r" "[10]"] by auto
  obtain b where b: "bo_buf o4 = Some b" "len \<le> length b" "bo_used o4 < len" "b ! bo_used o4 = 0"
      "take (bo_used o4) b = take (len - 1) (pre @ r @ [10])"
    using o4(2,3) by (auto simp: buf_text_def)
  have nl: "cbytes ''\<newline>'' = [10] @ [0]" by code_simp
  have "format_line len level c (Some f) args dst = Some (b[len - 1 := 0])"
    using o1(1) o2(1) o3(1) o4(1) b(1,2) len(1) by (simp add: format_line_def nl cb_def [symmetric])
  moreover have "line_ok len (b[len - 1 := 0])" using b(2) len(1) by (simp add: line_ok_def)
  moreover have "line_text (b[len - 1 := 0]) = take (len - 1) (full_line level c r)"
  proof -
    have "b = take (bo_used o4) b @ 0 # drop (Suc (bo_used o4)) b"
      using b(2-4) by (metis id_take_nth_drop less_le_trans)
    moreover have "0 \<notin> set pre" "0 \<notin> set r"
      using assms(4) by (auto simp: pre_def comp_name_def ascii_def split: option.splits)
    then have "0 \<notin> set (take (bo_used o4) b)" unfolding b(5) by (auto dest: in_set_takeD)
    ultimately have "line_text (b[len - 1 := 0]) = take (bo_used o4) b"
      using b(2,3) line_text_set_nul [of "take (bo_used o4) b" "len - 1" "drop (Suc (bo_used o4)) b"] by auto
    moreover have "full_line level c r = pre @ r @ [10]"
      by (simp add: full_line_def pre_def ascii_def)
    ultimately show ?thesis using b(5) by simp
  qed
  ultimately show ?thesis by blast
qed

definition serial_text :: "bytes \<Rightarrow> bool" where
  "serial_text t \<longleftrightarrow> take 6 t = ascii ''[WARN]'' \<or> take 7 t = ascii ''[ERROR]'' \<or> take 7 t = ascii ''[FATAL]'' \<or>
     (\<exists>m \<in> {''[ fail  ]'', ''KTEST_STATUS: FAIL'', ''[ ambiguous ]'', ''[ inconclusive ]'', ''[ unknown ]''}.
        sublist (ascii m) t)"

lemma cstr_cbytes:
  assumes "0 \<notin> set (ascii s)"
  shows "cstr (\<lambda>k. if k = 0 then l else cbytes s) (Some (1, 0)) (ascii s)"
  using assms by (simp add: cstr_def cbytes_def ascii_def)

lemma strstr_in_spec:
  assumes "0 \<in> set l" and "0 \<notin> set (ascii s)"
  shows "strstr_in l s = Some (sublist (ascii s) (line_text l))"
proof -
  let ?h = "\<lambda>k :: nat. if k = 0 then l else cbytes s"
  have "cstr ?h (Some (0, 0)) (line_text l)" using cstr_line [of ?h 0] assms(1) by simp
  from strstr_sublist [OF this cstr_cbytes [OF assms(2)]] show ?thesis by (auto simp: strstr_in_def)
qed

lemma strncmp_eq_spec:
  assumes "0 \<in> set l" and "0 \<notin> set (ascii s)"
  shows "strncmp_eq l s n = Some (take n (line_text l) = take n (ascii s))"
proof -
  let ?h = "\<lambda>k :: nat. if k = 0 then l else cbytes s"
  have "cstr ?h (Some (0, 0)) (line_text l)" using cstr_line [of ?h 0] assms(1) by simp
  from strncmp_cstr [OF this cstr_cbytes [OF assms(2)]] show ?thesis by (auto simp: strncmp_eq_def)
qed

lemma first_true_spec: "first_true (map Some bs) = Some (True \<in> set bs)"
  by (induction bs) auto

lemma serial_decision:
  assumes "0 \<in> set l"
  shows "log_line_should_emit_serial level (Some l) = Some (level \<ge> serial_min_level \<or> serial_text (line_text l))"
proof -
  let ?t = "line_text l"
  have m: "log_line_has_attention_marker (Some l) = first_true (map Some
      [sublist (ascii ''[ fail  ]'') ?t, sublist (ascii ''KTEST_STATUS: FAIL'') ?t, sublist (ascii ''[ ambiguous ]'') ?t,
       sublist (ascii ''[ inconclusive ]'') ?t, sublist (ascii ''[ unknown ]'') ?t])"
    unfolding log_line_has_attention_marker_def option.case list.map
    by (intro arg_cong [of _ _ first_true] arg_cong2 [of _ _ _ _ "(#)"] refl strstr_in_spec [OF assms]; code_simp)
  have c: "strncmp_eq l ''[WARN]'' 6 = Some (take 6 ?t = ascii ''[WARN]'')"
      "strncmp_eq l ''[ERROR]'' 7 = Some (take 7 ?t = ascii ''[ERROR]'')"
      "strncmp_eq l ''[FATAL]'' 7 = Some (take 7 ?t = ascii ''[FATAL]'')"
    by (subst strncmp_eq_spec [OF assms]; simp add: ascii_def)+
  show ?thesis
    unfolding log_line_should_emit_serial_def log_formatted_line_should_emit_serial_def option.case c m first_true_spec
    by (auto simp: serial_text_def)
qed

lemma log_vwrite_spec:
  assumes "log_inv s" and "render f args 0 = Some r" and "0 \<notin> set r" and "case c of None \<Rightarrow> True | Some b \<Rightarrow> 0 \<in> set b"
  shows "\<exists>s' l. log_vwrite level c (Some f) args s =
       Some (s', if level \<ge> LOG_ERROR then [l] else [], if level \<ge> LOG_WARN \<or> serial_text (line_text l) then [l] else []) \<and>
     log_inv s' \<and> heap_ring_active s' = heap_ring_active s \<and> log_seq s' = last_n (ring_lines s) (log_seq s @ [l]) \<and>
     line_text l = take (ring_line_len s - 1) (full_line level c r)"
proof -
  have w: "write_index s < ring_lines s" "length (ring_storage s) = ring_lines s" using assms(1) by (simp_all add: log_inv_def)
  then have slot: "ring_line s (write_index s) = Some (ring_storage s ! write_index s)"
      "line_ok (ring_line_len s) (ring_storage s ! write_index s)"
    using ring_line_inv [OF assms(1), of "write_index s"] by simp_all
  obtain l where l: "format_line (ring_line_len s) level c (Some f) args (ring_storage s ! write_index s) = Some l"
      "line_ok (ring_line_len s) l" "line_text l = take (ring_line_len s - 1) (full_line level c r)"
    using format_line_spec [OF slot(2) log_inv_lines(3) [OF assms(1)] assms(2-4)] by blast
  define s' where "s' = s\<lparr>ring_storage := (ring_storage s)[write_index s := l], write_index := (write_index s + 1) mod ring_lines s,
      total_lines := (if total_lines s < ring_lines s then total_lines s + 1 else total_lines s)\<rparr>"
  have "log_vwrite level c (Some f) args s =
       Some (s', if level \<ge> LOG_ERROR then [l] else [], if level \<ge> LOG_WARN \<or> serial_text (line_text l) then [l] else [])"
    using slot l(1) w serial_decision [OF line_ok_nul [OF l(2)]]
    by (simp add: log_vwrite_def s'_def console_min_level_def serial_min_level_def)
  moreover have "log_inv s'"
    using assms(1) l(2) w by (auto simp: log_inv_def s'_def dest!: subsetD [OF set_update_subset_insert])
  moreover have "heap_ring_active s' = heap_ring_active s" by (simp add: s'_def)
  ultimately show ?thesis using log_seq_push [OF assms(1) s'_def] l(3) by blast
qed

section \<open>The bounded dump\<close>

definition text_total :: "bytes list \<Rightarrow> nat" where
  "text_total ls = sum_list (map (\<lambda>l. length (line_text l)) ls)"

text \<open>
  \<open>k\<close> newest lines are the most that fit a budget of \<open>mx\<close> bytes, except that one line is kept
  even when it alone exceeds the budget.
\<close>

definition tail_ok :: "bytes list \<Rightarrow> nat \<Rightarrow> nat \<Rightarrow> bool" where
  "tail_ok ls mx k \<longleftrightarrow> k \<le> length ls \<and> (ls \<noteq> [] \<longrightarrow> 1 \<le> k) \<and>
     (text_total (last_n k ls) \<le> mx \<or> k = 1) \<and>
     (k < length ls \<longrightarrow> mx < text_total (last_n (Suc k) ls) \<or> text_total (last_n k ls) = mx)"

lemma last_n_Suc: "n < length xs \<Longrightarrow> last_n (Suc n) xs = xs ! (length xs - 1 - n) # last_n n xs"
proof -
  assume n: "n < length xs"
  then have "Suc (length xs - Suc n) = length xs - n" by linarith
  then show ?thesis using n Cons_nth_drop_Suc [of "length xs - Suc n" xs] by (simp add: last_n_def)
qed

lemma length_last_n [simp]: "length (last_n n xs) = min n (length xs)"
  by (simp add: last_n_def)

lemma last_n_0 [simp]: "last_n 0 xs = []"
  by (simp add: last_n_def)

lemma tail_count_spec:
  assumes "log_inv s" and "0 < mx" and "mx \<le> U64_MAX"
  shows "n \<le> total_lines s \<Longrightarrow> u = text_total (last_n n (log_seq s)) \<Longrightarrow> n = 0 \<or> u < mx \<Longrightarrow>
    \<exists>k. tail_count s (dump_start s) (total_lines s) mx n n u = Some k \<and> tail_ok (log_seq s) mx k"
proof (induction "total_lines s - n" arbitrary: n u)
  case 0
  then show ?case
    by (subst tail_count.simps) (auto simp: tail_ok_def text_total_def simp flip: length_0_conv)
next
  case (Suc d)
  then have n: "n < total_lines s" by simp
  define l where "l = log_seq s ! (total_lines s - 1 - n)"
  have l': "l = ring_storage s ! ((dump_start s + (total_lines s - 1 - n)) mod ring_lines s)"
    using n by (simp add: l_def log_seq_def)
  have rl: "ring_line s ((dump_start s + (total_lines s - 1 - n)) mod ring_lines s) = Some l" "line_ok (ring_line_len s) l"
    unfolding l' by (rule ring_line_inv [OF assms(1)])+
  have ln: "strnlen (\<lambda>_. l) (Some (0, 0)) (ring_line_len s) = Some (length (line_text l))"
    using strnlen_cstr [OF cstr_line [of "\<lambda>_. l" 0]] line_ok_nul [OF rl(2)] line_ok_text_length [OF rl(2)]
    by (simp add: min_absorb2)
  have tot: "text_total (last_n (Suc n) (log_seq s)) = u + length (line_text l)"
    using n Suc.prems(2) last_n_Suc [of n "log_seq s"] by (simp add: text_total_def l_def)
  have u0: "u = 0" if "n = 0" using that Suc.prems(2) by (simp add: text_total_def)
  note step = tail_count.simps [of s "dump_start s" "total_lines s" mx n n u]
  consider (stop) "n \<noteq> 0" "mx < u + length (line_text l)" | (one) "n = 0" "mx < u + length (line_text l)"
    | (hit) "u + length (line_text l) = mx" | (more) "u + length (line_text l) < mx" by linarith
  then show ?case
  proof cases
    case stop
    then have "length (line_text l) > sub64 mx u" using Suc.prems(3) assms(3) by auto
    then have "tail_count s (dump_start s) (total_lines s) mx n n u = Some n"
      using step rl(1) ln n stop(1) by (simp add: Let_def)
    moreover have "tail_ok (log_seq s) mx n" using stop n tot Suc.prems by (auto simp: tail_ok_def)
    ultimately show ?thesis by blast
  next
    case one
    then have "tail_count s (dump_start s) (total_lines s) mx n n u = Some 1"
      using step rl(1) ln n u0 by (simp add: Let_def)
    moreover have "text_total (last_n (Suc 1) (log_seq s)) > mx" if "1 < total_lines s"
      using that one tot Suc.prems(2) last_n_Suc [of 1 "log_seq s"] by (simp add: text_total_def)
    then have "tail_ok (log_seq s) mx 1" using n by (auto simp: tail_ok_def)
    ultimately show ?thesis by blast
  next
    case hit
    have "sub64 mx u = length (line_text l)" using hit assms(3) by auto
    then have "tail_count s (dump_start s) (total_lines s) mx n n u = Some (n + 1)"
      using step rl(1) ln n hit by (simp add: Let_def)
    moreover have "tail_ok (log_seq s) mx (n + 1)" using n tot hit by (auto simp: tail_ok_def)
    ultimately show ?thesis by blast
  next
    case more
    have "sub64 mx u \<ge> length (line_text l)" using more assms(3) by auto
    then have "tail_count s (dump_start s) (total_lines s) mx n n u =
        tail_count s (dump_start s) (total_lines s) mx (Suc n) (Suc n) (u + length (line_text l))"
      using step rl(1) ln n more by (simp add: Let_def)
    moreover have "d = total_lines s - Suc n" using Suc.hyps(2) by simp
    ultimately show ?thesis using Suc.hyps(1) [of "Suc n"] n more tot by auto
  qed
qed

lemma dump_tail_spec:
  assumes "log_inv s" and "0 < mx" and "mx \<le> U64_MAX"
  shows "\<exists>k. log_dump_ring_tail_ctx True mx s = Some (last_n k (log_seq s)) \<and> tail_ok (log_seq s) mx k"
proof (cases "total_lines s = 0")
  case True
  then have "log_seq s = []" by (simp flip: length_0_conv)
  then show ?thesis using True
    by (intro exI [of _ 0]) (simp add: log_dump_ring_tail_ctx_def tail_ok_def text_total_def)
next
  case False
  obtain k where k: "tail_count s (dump_start s) (total_lines s) mx 0 0 0 = Some k" "tail_ok (log_seq s) mx k"
    using tail_count_spec [OF assms, of 0] by (auto simp: text_total_def)
  then have "k \<le> total_lines s" by (simp add: tail_ok_def)
  then have "log_dump_ring_tail_ctx True mx s = Some (last_n k (log_seq s))"
    using False k(1) assms dump_lines_seq [OF assms(1), of "total_lines s - k"]
    by (simp add: log_dump_ring_tail_ctx_def last_n_def)
  then show ?thesis using k(2) by blast
qed

section \<open>Histories\<close>

text \<open>The states the log can be in, with the line texts written so far, oldest first.\<close>

inductive log_reach :: "log_t \<Rightarrow> bytes list \<Rightarrow> bool" where
  reach_init: "log_reach log_init []"
| reach_write: "log_reach s hs \<Longrightarrow> log_write level c (Some f) args s = Some (s', con, ser) \<Longrightarrow>
    render f args 0 = Some r \<Longrightarrow> 0 \<notin> set r \<Longrightarrow> (case c of None \<Rightarrow> True | Some b \<Rightarrow> 0 \<in> set b) \<Longrightarrow>
    log_reach s' (hs @ [take (ring_line_len s - 1) (full_line level c r)])"
| reach_heap: "log_reach s hs \<Longrightarrow> log_enable_heap_ring ok s = Some s' \<Longrightarrow> log_reach s' hs"

lemma log_init_inv: "log_inv log_init"
  by (simp add: log_inv_def log_init_def line_ok_def log_consts)

lemma last_n_last_n_snoc:
  assumes "t \<le> length hs" and "t \<le> n"
  shows "last_n n (last_n t hs @ [h]) = last_n (min n (Suc t)) (hs @ [h])"
proof -
  have "length (last_n t hs) = t" using assms(1) by (simp add: last_n_def)
  moreover have "drop (Suc t - n) (drop (length hs - t) hs @ [h]) = drop (Suc (length hs) - min n (Suc t)) (hs @ [h])"
  proof (cases "Suc t \<le> n")
    case True
    then show ?thesis using assms by (simp add: min_absorb2)
  next
    case False
    then have "t = n" using assms(2) by simp
    then show ?thesis using assms by (cases "n = 0") (auto simp: min_absorb1 Suc_diff_le)
  qed
  ultimately show ?thesis by (simp add: last_n_def)
qed

lemma map_last_n: "map g (last_n n xs) = last_n n (map g xs)"
  by (simp add: last_n_def drop_map)

lemma log_reach_inv:
  "log_reach s hs \<Longrightarrow> log_inv s \<and> map line_text (log_seq s) = last_n (total_lines s) hs \<and>
     total_lines s \<le> length hs \<and> min (length hs) LOG_EARLY_LINES \<le> total_lines s"
proof (induction rule: log_reach.induct)
  case reach_init
  then show ?case using log_init_inv by (simp add: log_init_def log_seq_def last_n_def)
next
  case (reach_write s hs level c f args s' con ser r)
  let ?h = "take (ring_line_len s - 1) (full_line level c r)"
  obtain l where l: "log_inv s'" "log_seq s' = last_n (ring_lines s) (log_seq s @ [l])" "line_text l = ?h"
    using log_vwrite_spec [of s f args r c level] reach_write by (auto simp: log_write_def)
  have t: "total_lines s \<le> ring_lines s" "LOG_EARLY_LINES \<le> ring_lines s"
    using reach_write.IH by (auto simp: log_inv_def log_consts)
  have len: "total_lines s' = min (ring_lines s) (Suc (total_lines s))"
    using arg_cong [OF l(2), of length] by simp
  have "map line_text (log_seq s') = last_n (ring_lines s) (last_n (total_lines s) hs @ [?h])"
    using reach_write.IH l(2,3) by (simp add: map_last_n)
  then have "map line_text (log_seq s') = last_n (total_lines s') (hs @ [?h])"
    using last_n_last_n_snoc [of "total_lines s" hs "ring_lines s"] reach_write.IH t len by simp
  then show ?case using l(1) reach_write.IH t len by (simp add: min_def split: if_splits)
next
  case (reach_heap s hs ok s')
  then show ?case using enable_heap_ring_spec [of s ok] by auto
qed

section \<open>Properties\<close>

text \<open>
  C10: the log holds exactly the most recent lines. After any sequence of writes and the move
  to the heap ring, a dump neither faults nor loses order: it passes to the writer the last
  \<^verbatim>\<open>total_lines\<close> lines written, oldest first, and these are all of them as long as no more
  than the 64 lines of the early ring have been written.
\<close>

theorem log_holds_recent_lines:
  assumes "log_reach s hs"
  shows "\<exists>ls. log_dump_ring True s = Some ls \<and> map line_text ls = last_n (total_lines s) hs \<and>
     min (length hs) LOG_EARLY_LINES \<le> total_lines s \<and> total_lines s \<le> min (length hs) (ring_lines s)"
  using log_reach_inv [OF assms] log_dump_ring_seq [of s] by (auto simp: log_inv_def)

theorem log_holds_recent_lines_witness:
  "\<exists>s ls. log_reach s [full_line LOG_INFO None [0x68]] \<and> log_dump_ring True s = Some ls \<and>
     map line_text ls = [full_line LOG_INFO None [0x68]]"
proof -
  have r: "render [0x68, 0] [] 0 = Some [0x68]" by code_simp
  obtain s l where s: "log_write LOG_INFO None (Some [0x68, 0]) [] log_init = Some (s, [],
      if serial_text (line_text l) then [l] else [])"
    using log_vwrite_spec [OF log_init_inv r, of None LOG_INFO]
    by (auto simp: log_write_def LOG_INFO_def LOG_ERROR_def LOG_WARN_def)
  let ?h = "full_line LOG_INFO None [0x68]"
  have "take (ring_line_len log_init - 1) ?h = ?h" by code_simp
  then have reach: "log_reach s [?h]" using log_reach.reach_write [OF reach_init s r] by simp
  from log_holds_recent_lines [OF this] obtain ls where
    ls: "log_dump_ring True s = Some ls" "map line_text ls = last_n (total_lines s) [?h]"
      "min 1 LOG_EARLY_LINES \<le> total_lines s"
    by auto
  then have "map line_text ls = [?h]" by (simp add: last_n_def LOG_EARLY_LINES_def)
  then show ?thesis using reach ls(1) by (intro exI [of _ s] exI [of _ ls]) simp
qed

text \<open>
  a write formats and routes one line. On a well-formed log, with a format whose text is
  \<open>r\<close>, it never faults; the stored line is the level, component and message cut to the slot,
  always terminated; the console receives it exactly at level ERROR and above, the serial
  port at WARN and above or when the line carries one of the attention markers.
\<close>

theorem log_write_routes:
  assumes "log_inv s" and "render f args 0 = Some r" and "0 \<notin> set r" and "case c of None \<Rightarrow> True | Some b \<Rightarrow> 0 \<in> set b"
  shows "\<exists>s' l. log_write level c (Some f) args s =
       Some (s', if level \<ge> LOG_ERROR then [l] else [], if level \<ge> LOG_WARN \<or> serial_text (line_text l) then [l] else []) \<and>
     log_inv s' \<and> log_seq s' = last_n (ring_lines s) (log_seq s @ [l]) \<and>
     line_text l = take (ring_line_len s - 1) (full_line level c r)"
  using log_vwrite_spec [OF assms] unfolding log_write_def by blast

theorem log_write_routes_witness:
  "\<exists>s l. log_write LOG_FATAL None (Some [0x68, 0]) [] log_init = Some (s, [l], [l]) \<and>
     line_text l = take 191 (full_line LOG_FATAL None [0x68])"
proof -
  have r: "render [0x68, 0] [] 0 = Some [0x68]" by code_simp
  have "(case None of None \<Rightarrow> True | Some b \<Rightarrow> (0 :: u8) \<in> set b)" by simp
  from log_write_routes [OF log_init_inv r _ this, of LOG_FATAL] show ?thesis
    by (auto simp: log_init_def log_consts LOG_FATAL_def LOG_ERROR_def LOG_WARN_def)
qed

text \<open>
  the bounded dump keeps its budget. With a budget of \<open>mx\<close> bytes it emits a suffix of the
  log: the newest lines, as many as fit, so that one more line would exceed the budget or
  the budget is already used up; a single newest line is emitted even when it alone is longer.
\<close>

theorem log_dump_tail_bounded:
  assumes "log_inv s" and "0 < mx" and "mx \<le> U64_MAX"
  shows "\<exists>k. log_dump_ring_tail_ctx True mx s = Some (last_n k (log_seq s)) \<and> tail_ok (log_seq s) mx k"
  using assms by (rule dump_tail_spec)

theorem log_dump_tail_bounded_witness:
  "\<exists>s k. log_inv s \<and> total_lines s = 1 \<and> log_dump_ring_tail_ctx True 4 s = Some (last_n k (log_seq s)) \<and> k = 1"
proof -
  have r: "render [0x68, 0] [] 0 = Some [0x68]" by code_simp
  obtain s' l where s: "log_inv s'" "log_seq s' = last_n (ring_lines log_init) (log_seq log_init @ [l])"
    using log_vwrite_spec [OF log_init_inv r, of None LOG_INFO] by auto
  have one: "total_lines s' = 1"
    using arg_cong [OF s(2), of length] by (simp add: log_init_def log_consts)
  obtain k where "log_dump_ring_tail_ctx True 4 s' = Some (last_n k (log_seq s'))" "tail_ok (log_seq s') 4 k"
    using log_dump_tail_bounded [OF s(1), of 4] by auto
  moreover from this(2) have "k = 1" using one by (auto simp: tail_ok_def simp flip: length_0_conv)
  ultimately show ?thesis using s(1) one by blast
qed

end
