(* ===== verification/Phys_Frames.thy ===== *)
theory Phys_Frames
  imports Bitmap Kernel_Math Bootinfo Log
begin

text \<open>
  The physical page-frame allocator, \<^verbatim>\<open>kernel/arch/x86_64/memory.c\<close>. The allocator state is
  the frame bitmap, the frame count, the amount of usable memory and the table of 16-bit
  reference counts; each operation runs under \<^verbatim>\<open>memory_lock\<close> with interrupts off and is one
  step here. Addresses are natural numbers, 0 the null pointer. The extent of the kernel
  image (\<^verbatim>\<open>__kernel_start\<close>, \<^verbatim>\<open>__kernel_end\<close>, page aligned by \<^verbatim>\<open>scripts/kernel.ld\<close>) is the
  argument \<open>img\<close>. The boot block and its tables are read from a memory \<open>m\<close> that the allocator
  does not write, so they lie outside the bitmap and the reference counts. A panic is the
  fault \<open>None\<close>. The bitmap is used through its bit-set contract (interpretation \<open>bs\<close>).
\<close>

section \<open>Constants and state\<close>

definition PAGE_SIZE :: nat where "PAGE_SIZE = 4096"
definition MEMORY_KERNEL_DIRECT_LIMIT :: nat where "MEMORY_KERNEL_DIRECT_LIMIT = 1024 * 1024 * 1024"
definition MAX_TRACKED_FRAMES :: nat where "MAX_TRACKED_FRAMES = 1024 * 1024"
definition FRAME_BITMAP_PHYS :: nat where "FRAME_BITMAP_PHYS = 0x100000"
definition FRAME_BITMAP_BYTES :: nat where "FRAME_BITMAP_BYTES = MAX_TRACKED_FRAMES div 8"
definition FRAME_REFCOUNT_PHYS :: nat where "FRAME_REFCOUNT_PHYS = 0x400000"
definition FRAME_REFCOUNT_BYTES :: nat where "FRAME_REFCOUNT_BYTES = MAX_TRACKED_FRAMES * 2"
definition RABBITBONE_E820_USABLE :: nat where "RABBITBONE_E820_USABLE = 1"

record memory_t =
  frames :: "bitmap_t option"
  frame_count :: nat
  total_usable :: nat
  FRAME_REFCOUNTS :: "u16 list"

record memory_stats_t =
  st_total_usable :: nat
  st_free_bytes :: nat
  st_used_bytes :: nat
  st_frame_count :: nat
  st_free_frames :: nat

section \<open>Ranges\<close>

definition saturating_add_u64 :: "nat \<Rightarrow> nat \<Rightarrow> nat" where
  "saturating_add_u64 a b = (case add_overflow a b of None \<Rightarrow> U64_MAX | Some c \<Rightarrow> c)"

definition range_end_checked :: "nat \<Rightarrow> nat \<Rightarrow> nat option" where
  "range_end_checked base len =
     (if len = 0 then None
      else case add_overflow base len of None \<Rightarrow> None | Some e \<Rightarrow> if e \<ge> base then Some e else None)"

definition ranges_overlap_u64 :: "nat \<Rightarrow> nat \<Rightarrow> nat \<Rightarrow> nat \<Rightarrow> bool" where
  "ranges_overlap_u64 a_base a_len b_base b_len =
     (case range_end_checked a_base a_len of None \<Rightarrow> False | Some a_end \<Rightarrow>
       (case range_end_checked b_base b_len of None \<Rightarrow> False | Some b_end \<Rightarrow>
          a_base < b_end \<and> b_base < a_end))"

definition range_intersects_reserved :: "nat \<times> nat \<Rightarrow> nat \<Rightarrow> nat \<Rightarrow> bool" where
  "range_intersects_reserved img base len =
     (if len = 0 then True
      else if ranges_overlap_u64 base len 0 0x200000 then True
      else if ranges_overlap_u64 base len (fst img) (sub64 (snd img) (fst img)) then True
      else if ranges_overlap_u64 base len FRAME_BITMAP_PHYS FRAME_BITMAP_BYTES then True
      else if ranges_overlap_u64 base len FRAME_REFCOUNT_PHYS FRAME_REFCOUNT_BYTES then True
      else False)"

definition mark_range :: "nat \<Rightarrow> nat \<Rightarrow> bool \<Rightarrow> memory_t \<Rightarrow> memory_t option" where
  "mark_range base len fr s =
     (case range_end_checked base len of None \<Rightarrow> Some s | Some end_addr \<Rightarrow>
       (case rabbitbone_align_up_u64_checked (of_nat base) (of_nat PAGE_SIZE) of None \<Rightarrow> Some s | Some start_addr \<Rightarrow>
          let start = unat start_addr div PAGE_SIZE;
              e = unat (RABBITBONE_ALIGN_DOWN (of_nat end_addr) (of_nat PAGE_SIZE)) div PAGE_SIZE in
          if start \<ge> frame_count s \<or> e \<le> start then Some s
          else let e = (if e > frame_count s then frame_count s else e) in
            map_option (\<lambda>b. s\<lparr>frames := b\<rparr>)
              (upd_range (if fr then bitmap_clear else bitmap_set) start (e - start) (frames s))))"

section \<open>Initialisation\<close>

fun scan_map :: "pmem \<Rightarrow> nat \<Rightarrow> nat \<Rightarrow> nat \<Rightarrow> nat \<Rightarrow> nat \<Rightarrow> (nat \<times> nat) option" where
  "scan_map m p i 0 max_addr usable = Some (max_addr, usable)"
| "scan_map m p i (Suc n) max_addr usable = do {
     a \<leftarrow> bootinfo_e820 m p i;
     if a = 0 then scan_map m p (Suc i) n max_addr usable
     else do {
       e \<leftarrow> ld_e820 m a;
       if e_length e = 0 then scan_map m p (Suc i) n max_addr usable
       else do {
         let end_addr = saturating_add_u64 (e_base e) (e_length e);
         scan_map m p (Suc i) n (if end_addr > max_addr then end_addr else max_addr)
           (if e_type e = RABBITBONE_E820_USABLE then saturating_add_u64 usable (e_length e) else usable) } } }"

fun mark_usable :: "pmem \<Rightarrow> nat \<Rightarrow> nat \<Rightarrow> nat \<Rightarrow> memory_t \<Rightarrow> memory_t option" where
  "mark_usable m p i 0 s = Some s"
| "mark_usable m p i (Suc n) s = do {
     a \<leftarrow> bootinfo_e820 m p i;
     s \<leftarrow> (if a \<noteq> 0 then do {
              e \<leftarrow> ld_e820 m a;
              if e_type e = RABBITBONE_E820_USABLE then mark_range (e_base e) (e_length e) True s else Some s }
           else Some s);
     mark_usable m p (Suc i) n s }"

fun mark_modules :: "pmem \<Rightarrow> nat \<Rightarrow> nat \<Rightarrow> nat \<Rightarrow> memory_t \<Rightarrow> memory_t option" where
  "mark_modules m mods i 0 s = Some s"
| "mark_modules m mods i (Suc n) s = do {
     x \<leftarrow> ld_module m (mods + i * MODULE_SIZEOF);
     s \<leftarrow> (if m_base x \<noteq> 0 \<and> m_size x \<noteq> 0 then mark_range (m_base x) (m_size x) False s else Some s);
     mark_modules m mods (Suc i) n s }"

fun init_refs :: "bitmap_t option \<Rightarrow> nat \<Rightarrow> nat \<Rightarrow> u16 list \<Rightarrow> u16 list option" where
  "init_refs bm f 0 refs = Some refs"
| "init_refs bm f (Suc n) refs = do {
     t \<leftarrow> bitmap_test bm f;
     refs \<leftarrow> arr_set refs f (if t then 1 else 0);
     init_refs bm (Suc f) n refs }"

text \<open>The highest address and the usable bytes of the memory map; at least 32 MiB are assumed.\<close>

definition map_extent :: "pmem \<Rightarrow> nat \<Rightarrow> (nat \<times> nat) option" where
  "map_extent m p = do {
     ok \<leftarrow> bootinfo_validate m p;
     (max_addr, usable) \<leftarrow> (if ok then do { info \<leftarrow> ld_bootinfo m p; scan_map m p 0 (bi_e820_count info) 0 0 } else Some (0, 0));
     Some (if max_addr < 32 * 1024 * 1024 then 32 * 1024 * 1024 else max_addr, usable) }"

text \<open>The bitmap with every frame used; \<open>ws\<close> is what the words of the bitmap held before.\<close>

definition init_frames :: "u64 list \<Rightarrow> nat \<Rightarrow> bitmap_t option option" where
  "init_frames ws n = do {
     b \<leftarrow> bitmap_init (Some \<lparr>bwords = None, bit_count = 0\<rparr>) (Some ws) n;
     let b = map_option (\<lambda>b. b\<lparr>bwords := map_option (\<lambda>ws. replicate (length ws) (- 1)) (bwords b)\<rparr>) b;
     upd_range bitmap_set 0 n b }"

definition memory_init :: "nat \<times> nat \<Rightarrow> u64 list \<Rightarrow> pmem \<Rightarrow> nat \<Rightarrow> (memory_t \<times> klog_call) option" where
  "memory_init img ws m p = do {
     (max_addr, usable) \<leftarrow> map_extent m p;
     let n = (if max_addr div PAGE_SIZE > MAX_TRACKED_FRAMES then MAX_TRACKED_FRAMES else max_addr div PAGE_SIZE);
     b \<leftarrow> init_frames ws n;
     let s = \<lparr>frames = b, frame_count = n, total_usable = usable, FRAME_REFCOUNTS = replicate MAX_TRACKED_FRAMES 0\<rparr>;
     ok \<leftarrow> bootinfo_validate m p;
     s \<leftarrow> (if ok then do { info \<leftarrow> ld_bootinfo m p; mark_usable m p 0 (bi_e820_count info) s }
           else mark_range 0x200000 (sub64 max_addr 0x200000) True s);
     s \<leftarrow> mark_range 0 0x200000 False s;
     s \<leftarrow> mark_range (fst img) (sub64 (snd img) (fst img)) False s;
     s \<leftarrow> (if ok then do {
              info \<leftarrow> ld_bootinfo m p;
              if bi_module_count info \<noteq> 0 \<and> bi_modules_addr info \<noteq> 0
              then mark_modules m (bi_modules_addr info) 0 (bi_module_count info) s else Some s }
           else Some s);
     s \<leftarrow> mark_range FRAME_BITMAP_PHYS FRAME_BITMAP_BYTES False s;
     s \<leftarrow> mark_range FRAME_REFCOUNT_PHYS FRAME_REFCOUNT_BYTES False s;
     refs \<leftarrow> init_refs (frames s) 0 (frame_count s) (FRAME_REFCOUNTS s);
     Some (s\<lparr>FRAME_REFCOUNTS := refs\<rparr>,
       (LOG_INFO, cbytes ''mem'', cbytes ''frames=%llu usable=%llu KiB'',
        [VNum (of_nat (frame_count s)), VNum (of_nat (total_usable s div 1024))])) }"

section \<open>Allocation\<close>

text \<open>Frames \<open>lo ..< lo + n\<close> become used with one reference each.\<close>

fun claim_loop :: "nat \<Rightarrow> nat \<Rightarrow> bitmap_t option \<Rightarrow> u16 list \<Rightarrow> (bitmap_t option \<times> u16 list) option" where
  "claim_loop lo 0 bm refs = Some (bm, refs)"
| "claim_loop lo (Suc n) bm refs = do {
     bm \<leftarrow> bitmap_set bm lo;
     refs \<leftarrow> arr_set refs lo 1;
     claim_loop (Suc lo) n bm refs }"

function alloc_scan :: "memory_t \<Rightarrow> usize \<Rightarrow> usize \<Rightarrow> usize \<Rightarrow> (nat \<times> memory_t) option" where
  "alloc_scan s pages max_bit b =
     (if b + pages \<le> max_bit then do {
        r \<leftarrow> first_used bitmap_test b 0 pages (frames s);
        case r of
          Some j \<Rightarrow> alloc_scan s pages max_bit (Suc (b + j))
        | None \<Rightarrow> do {
            (bm, refs) \<leftarrow> claim_loop b pages (frames s) (FRAME_REFCOUNTS s);
            Some (b * PAGE_SIZE, s\<lparr>frames := bm, FRAME_REFCOUNTS := refs\<rparr>) } }
      else Some (0, s))"
  by pat_completeness auto
termination
  by (relation "measure (\<lambda>(s, pages, max_bit, b). Suc max_bit - b)") auto

declare alloc_scan.simps [simp del]

definition memory_alloc_contiguous_pages_below :: "usize \<Rightarrow> nat \<Rightarrow> memory_t \<Rightarrow> (nat \<times> memory_t) option" where
  "memory_alloc_contiguous_pages_below pages max_exclusive s =
     (if pages = 0 \<or> max_exclusive < PAGE_SIZE then Some (0, s)
      else let max_bit = max_exclusive div PAGE_SIZE;
               max_bit = (if max_bit > frame_count s then frame_count s else max_bit) in
        if pages > max_bit then Some (0, s) else alloc_scan s pages max_bit 0)"

definition memory_alloc_page_below :: "nat \<Rightarrow> memory_t \<Rightarrow> (nat \<times> memory_t) option" where
  "memory_alloc_page_below max_exclusive s = memory_alloc_contiguous_pages_below 1 max_exclusive s"

definition memory_alloc_page :: "memory_t \<Rightarrow> (nat \<times> memory_t) option" where
  "memory_alloc_page s = memory_alloc_page_below MEMORY_KERNEL_DIRECT_LIMIT s"

text \<open>The checks before a run is freed; a failed one panics.\<close>

fun check_loop :: "nat \<Rightarrow> nat \<Rightarrow> memory_t \<Rightarrow> unit option" where
  "check_loop lo 0 s = Some ()"
| "check_loop lo (Suc n) s = do {
     t \<leftarrow> bitmap_test (frames s) lo;
     r \<leftarrow> arr_get (FRAME_REFCOUNTS s) lo;
     if \<not> t then None else if r \<noteq> 1 then None else check_loop (Suc lo) n s }"

fun release_loop :: "nat \<Rightarrow> nat \<Rightarrow> bitmap_t option \<Rightarrow> u16 list \<Rightarrow> (bitmap_t option \<times> u16 list) option" where
  "release_loop lo 0 bm refs = Some (bm, refs)"
| "release_loop lo (Suc n) bm refs = do {
     refs \<leftarrow> arr_set refs lo 0;
     bm \<leftarrow> bitmap_clear bm lo;
     release_loop (Suc lo) n bm refs }"

definition memory_free_contiguous_pages :: "nat \<times> nat \<Rightarrow> nat \<Rightarrow> usize \<Rightarrow> memory_t \<Rightarrow> memory_t option" where
  "memory_free_contiguous_pages img addr pages s =
     (if addr = 0 \<or> pages = 0 then Some s
      else if addr mod PAGE_SIZE \<noteq> 0 then Some s
      else case mul_overflow pages PAGE_SIZE of None \<Rightarrow> Some s | Some len \<Rightarrow>
        if range_intersects_reserved img addr len then Some s
        else let b = addr div PAGE_SIZE in
          if b \<ge> frame_count s \<or> pages > frame_count s - b then Some s
          else do {
            check_loop b pages s;
            (bm, refs) \<leftarrow> release_loop b pages (frames s) (FRAME_REFCOUNTS s);
            Some (s\<lparr>frames := bm, FRAME_REFCOUNTS := refs\<rparr>) })"

definition memory_free_page :: "nat \<times> nat \<Rightarrow> nat \<Rightarrow> memory_t \<Rightarrow> memory_t option" where
  "memory_free_page img page s = memory_free_contiguous_pages img page 1 s"

section \<open>Reference counts\<close>

definition memory_ref_page :: "nat \<times> nat \<Rightarrow> nat \<Rightarrow> memory_t \<Rightarrow> (bool \<times> memory_t) option" where
  "memory_ref_page img addr s =
     (if addr = 0 then Some (False, s)
      else if addr mod PAGE_SIZE \<noteq> 0 \<or> range_intersects_reserved img addr PAGE_SIZE then Some (False, s)
      else let b = addr div PAGE_SIZE in
        if \<not> b < frame_count s then Some (False, s)
        else do {
          t \<leftarrow> bitmap_test (frames s) b;
          if \<not> t then Some (False, s)
          else do {
            r \<leftarrow> arr_get (FRAME_REFCOUNTS s) b;
            if r > 0 \<and> r < 0xffff then do {
              refs \<leftarrow> arr_set (FRAME_REFCOUNTS s) b (r + 1);
              Some (True, s\<lparr>FRAME_REFCOUNTS := refs\<rparr>) }
            else Some (False, s) } })"

definition memory_unref_page :: "nat \<times> nat \<Rightarrow> nat \<Rightarrow> memory_t \<Rightarrow> (bool \<times> memory_t) option" where
  "memory_unref_page img addr s =
     (if addr = 0 then Some (False, s)
      else if addr mod PAGE_SIZE \<noteq> 0 \<or> range_intersects_reserved img addr PAGE_SIZE then Some (False, s)
      else let b = addr div PAGE_SIZE in
        if b \<ge> frame_count s then Some (False, s)
        else do {
          t \<leftarrow> bitmap_test (frames s) b;
          r \<leftarrow> arr_get (FRAME_REFCOUNTS s) b;
          if \<not> t \<or> r = 0 then Some (False, s)
          else do {
            refs \<leftarrow> arr_set (FRAME_REFCOUNTS s) b (r - 1);
            bm \<leftarrow> (if r - 1 = 0 then bitmap_clear (frames s) b else Some (frames s));
            Some (True, s\<lparr>frames := bm, FRAME_REFCOUNTS := refs\<rparr>) } })"

definition memory_page_refcount :: "nat \<Rightarrow> memory_t \<Rightarrow> nat option" where
  "memory_page_refcount addr s =
     (if addr = 0 then Some 0
      else if addr mod PAGE_SIZE \<noteq> 0 then Some 0
      else let b = addr div PAGE_SIZE in
        if \<not> b < frame_count s then Some 0
        else do {
          t \<leftarrow> bitmap_test (frames s) b;
          if t then map_option unat (arr_get (FRAME_REFCOUNTS s) b) else Some 0 })"

section \<open>Statistics and self-test\<close>

definition memory_get_stats :: "memory_t \<Rightarrow> memory_stats_t option" where
  "memory_get_stats s = do {
     used \<leftarrow> bitmap_count_set (frames s);
     let free_frames = sub64 (frame_count s) used;
     Some \<lparr>st_total_usable = total_usable s, st_free_bytes = mul64 free_frames PAGE_SIZE,
       st_used_bytes = mul64 used PAGE_SIZE, st_frame_count = frame_count s, st_free_frames = free_frames\<rparr> }"

definition memory_dump_map :: "memory_t \<Rightarrow> bytes option" where
  "memory_dump_map s = do {
     st \<leftarrow> memory_get_stats s;
     kout ''memory: total_usable=%llu KiB frames=%llu free=%llu used=%llu\<newline>''
       [VNum (of_nat (st_total_usable st div 1024)), VNum (of_nat (st_frame_count st)),
        VNum (of_nat (st_free_frames st)), VNum (of_nat (st_used_bytes st div 1024))] }"

text \<open>The conjunction of reference-count checks, left to right until one fails.\<close>

definition selftest_refs :: "nat \<times> nat \<Rightarrow> nat \<Rightarrow> memory_t \<Rightarrow> (bool \<times> memory_t) option" where
  "selftest_refs img a s = do {
     c \<leftarrow> memory_page_refcount a s;
     if c \<noteq> 1 then Some (False, s)
     else do {
       (ok, s) \<leftarrow> memory_ref_page img a s;
       if \<not> ok then Some (False, s)
       else do {
         c \<leftarrow> memory_page_refcount a s;
         if c \<noteq> 2 then Some (False, s)
         else do {
           (ok, s) \<leftarrow> memory_unref_page img a s;
           if \<not> ok then Some (False, s)
           else do { c \<leftarrow> memory_page_refcount a s; Some (c = 1, s) } } } } }"

definition memory_selftest :: "nat \<times> nat \<Rightarrow> memory_t \<Rightarrow> (bool \<times> memory_t) option" where
  "memory_selftest img s = do {
     before \<leftarrow> memory_get_stats s;
     (a, s) \<leftarrow> memory_alloc_page s;
     (b, s) \<leftarrow> memory_alloc_page s;
     (c, s) \<leftarrow> memory_alloc_contiguous_pages_below 3 (1024 * 1024 * 1024) s;
     (ok, s) \<leftarrow> (if a \<noteq> 0 \<and> b \<noteq> 0 \<and> c \<noteq> 0 \<and> a \<noteq> b then selftest_refs img a s else Some (False, s));
     let ok = (ok \<and> a mod PAGE_SIZE = 0 \<and> b mod PAGE_SIZE = 0 \<and> c mod PAGE_SIZE = 0);
     s \<leftarrow> (if a \<noteq> 0 then memory_free_page img a s else Some s);
     s \<leftarrow> (if b \<noteq> 0 then memory_free_page img b s else Some s);
     s \<leftarrow> (if c \<noteq> 0 then memory_free_contiguous_pages img c 3 s else Some s);
     if \<not> ok then Some (False, s)
     else do {
       after \<leftarrow> memory_get_stats s;
       Some (st_free_frames after = st_free_frames before \<and> st_used_bytes after = st_used_bytes before, s) } }"

section \<open>Ranges of frames\<close>

lemmas mem_consts = PAGE_SIZE_def MEMORY_KERNEL_DIRECT_LIMIT_def MAX_TRACKED_FRAMES_def FRAME_BITMAP_PHYS_def
  FRAME_BITMAP_BYTES_def FRAME_REFCOUNT_PHYS_def FRAME_REFCOUNT_BYTES_def

lemma PAGE_SIZE_pos [simp]: "0 < PAGE_SIZE" "PAGE_SIZE \<noteq> 0"
  by (simp_all add: PAGE_SIZE_def)

text \<open>The frames below \<open>n\<close> that lie inside a range, and those that a range touches.\<close>

definition full_frames :: "nat \<Rightarrow> nat \<Rightarrow> nat \<Rightarrow> nat set" where
  "full_frames base len n = {f. f < n \<and> base \<le> f * PAGE_SIZE \<and> f * PAGE_SIZE + PAGE_SIZE \<le> base + len}"

definition frame_reserved :: "nat \<times> nat \<Rightarrow> nat \<Rightarrow> bool" where
  "frame_reserved img f = range_intersects_reserved img (f * PAGE_SIZE) PAGE_SIZE"

lemma range_end_checked_eq: "range_end_checked base len = (if len = 0 \<or> U64_MAX < base + len then None else Some (base + len))"
  by (auto simp: range_end_checked_def add_overflow_def)

lemma ranges_overlap_iff:
  assumes "a + n \<le> U64_MAX" and "b + k \<le> U64_MAX"
  shows "ranges_overlap_u64 a n b k \<longleftrightarrow> 0 < n \<and> 0 < k \<and> a < b + k \<and> b < a + n"
  using assms by (auto simp: ranges_overlap_u64_def range_end_checked_eq)

lemma unat_of_nat64: "n \<le> U64_MAX \<Longrightarrow> unat (of_nat n :: u64) = n"
  by (simp add: unat_of_nat)

lemma page_align_up:
  assumes "base \<le> U64_MAX"
  shows "rabbitbone_align_up_u64_checked (of_nat base) (of_nat PAGE_SIZE) =
    (if base + 4095 \<le> U64_MAX then Some (of_nat ((base + 4095) div 4096 * 4096)) else None)"
proof -
  have "(of_nat PAGE_SIZE :: u64) = push_bit 12 1" by (simp add: PAGE_SIZE_def push_bit_eq_mult)
  moreover have "unat (of_nat base :: u64) = base" using assms by (simp add: unat_of_nat)
  ultimately show ?thesis using align_up_spec [of 12 "of_nat base"] by simp
qed

lemma page_align_down:
  assumes "e \<le> U64_MAX"
  shows "unat (RABBITBONE_ALIGN_DOWN (of_nat e) (of_nat PAGE_SIZE)) div PAGE_SIZE = e div 4096"
proof -
  have "(of_nat PAGE_SIZE :: u64) = push_bit 12 1" by (simp add: PAGE_SIZE_def push_bit_eq_mult)
  moreover have "unat (of_nat e :: u64) = e" using assms by (simp add: unat_of_nat)
  ultimately show ?thesis
    using unat_and_not_mask [of 12 "of_nat e"] by (simp add: RABBITBONE_ALIGN_DOWN_def PAGE_SIZE_def)
qed

lemma full_frames_interval: "full_frames base len n = {(base + 4095) div 4096..<min n ((base + len) div 4096)}"
  unfolding full_frames_def PAGE_SIZE_def by auto

definition mem_shape :: "memory_t \<Rightarrow> bool" where
  "mem_shape s \<longleftrightarrow> bitmap_inv (frames s) \<and> bitmap_len (frames s) = frame_count s \<and>
     frame_count s \<le> MAX_TRACKED_FRAMES \<and> length (FRAME_REFCOUNTS s) = MAX_TRACKED_FRAMES"

abbreviation used :: "memory_t \<Rightarrow> nat set" where
  "used s \<equiv> bitmap_bits (frames s)"

lemma mark_range_eq:
  assumes "base + len \<le> U64_MAX"
  shows "mark_range base len fr s =
    (let lo = (base + 4095) div 4096; hi = min (frame_count s) ((base + len) div 4096) in
     if len = 0 \<or> U64_MAX < base + 4095 \<or> hi \<le> lo then Some s
     else map_option (\<lambda>b. s\<lparr>frames := b\<rparr>)
       (upd_range (if fr then bitmap_clear else bitmap_set) lo (hi - lo) (frames s)))"
proof (cases "len = 0 \<or> U64_MAX < base + 4095")
  case True
  then show ?thesis using assms by (auto simp: mark_range_def range_end_checked_eq page_align_up)
next
  case False
  have lo: "unat (of_nat ((base + 4095) div 4096 * 4096) :: u64) div PAGE_SIZE = (base + 4095) div 4096"
  proof -
    have "(base + 4095) div 4096 * 4096 \<le> U64_MAX" using False by linarith
    then show ?thesis by (simp only: unat_of_nat64 PAGE_SIZE_def)
  qed
  have al: "rabbitbone_align_up_u64_checked (of_nat base) (of_nat PAGE_SIZE) = Some (of_nat ((base + 4095) div 4096 * 4096))"
    using False assms by (subst page_align_up) auto
  have e: "range_end_checked base len = Some (base + len)" using False assms by (simp add: range_end_checked_eq)
  show ?thesis
    unfolding mark_range_def e al option.case lo page_align_down [OF assms] Let_def
    using False by (auto simp: min_def)
qed

lemma mark_range_spec:
  assumes "mem_shape s" and "base + len \<le> U64_MAX"
  shows "\<exists>b. mark_range base len fr s = Some (s\<lparr>frames := b\<rparr>) \<and> mem_shape (s\<lparr>frames := b\<rparr>) \<and>
    bitmap_bits b = (if fr then used s - full_frames base len (frame_count s) else used s \<union> full_frames base len (frame_count s))"
proof -
  let ?lo = "(base + 4095) div 4096" let ?hi = "min (frame_count s) ((base + len) div 4096)"
  have same: ?thesis if "mark_range base len fr s = Some s" "full_frames base len (frame_count s) = {}"
    using that assms(1) by (intro exI [of _ "frames s"]) simp
  show ?thesis
  proof (cases "len = 0 \<or> U64_MAX < base + 4095 \<or> ?hi \<le> ?lo")
    case True
    have "full_frames base len (frame_count s) = {}"
    proof (cases "?hi \<le> ?lo")
      case False
      then have "len = 0 \<or> U64_MAX < base + 4095" using True by simp
      then show ?thesis
      proof
        assume "U64_MAX < base + 4095"
        then have "2 ^ 20 < ?lo" by simp
        moreover have "?hi \<le> 2 ^ 20" using assms(1) by (simp add: mem_shape_def MAX_TRACKED_FRAMES_def min.coboundedI1)
        ultimately show ?thesis using False by linarith
      qed (auto simp: full_frames_def PAGE_SIZE_def)
    qed (simp add: full_frames_interval)
    moreover have "mark_range base len fr s = Some s"
      using True by (simp only: mark_range_eq [OF assms(2)] Let_def if_True)
    ultimately show ?thesis using same by blast
  next
    case False
    have eq: "mark_range base len fr s = map_option (\<lambda>b. s\<lparr>frames := b\<rparr>)
        (upd_range (if fr then bitmap_clear else bitmap_set) ?lo (?hi - ?lo) (frames s))"
      using False by (simp only: mark_range_eq [OF assms(2)] Let_def if_False)
    have sh: "bitmap_inv (frames s)" "?lo + (?hi - ?lo) \<le> bitmap_len (frames s)"
      using assms(1) False by (auto simp: mem_shape_def)
    have "{?lo..<?lo + (?hi - ?lo)} = full_frames base len (frame_count s)"
      using False by (simp only: full_frames_interval le_add_diff_inverse nat_le_linear de_Morgan_disj not_le less_imp_le)
    then obtain b where "upd_range (if fr then bitmap_clear else bitmap_set) ?lo (?hi - ?lo) (frames s) = Some b"
        "bitmap_inv b" "bitmap_len b = bitmap_len (frames s)"
        "bitmap_bits b = (if fr then used s - full_frames base len (frame_count s) else used s \<union> full_frames base len (frame_count s))"
      using bs.clear_range_spec [OF sh] bs.set_range_spec [OF sh] by (cases fr) auto
    then show ?thesis using eq assms(1) by (auto simp: mem_shape_def)
  qed
qed

section \<open>The contract of a reference-counted frame pool\<close>

text \<open>
  What the allocator promises its clients, over an abstract state: \<open>rc s f\<close> is the number of
  references to frame \<open>f\<close>, 0 when it is free.
\<close>

definition frame_run :: "nat \<Rightarrow> nat \<Rightarrow> nat set" where
  "frame_run a n = {a div PAGE_SIZE..<a div PAGE_SIZE + n}"

definition owned :: "nat \<Rightarrow> nat \<Rightarrow> nat set" where
  "owned a n = (if a = 0 then {} else frame_run a n)"

locale frame_pool =
  fixes inv :: "'s \<Rightarrow> bool"
    and cnt :: "'s \<Rightarrow> nat"
    and rc :: "'s \<Rightarrow> nat \<Rightarrow> nat"
    and resv :: "nat \<Rightarrow> bool"
    and alloc :: "nat \<Rightarrow> nat \<Rightarrow> 's \<Rightarrow> (nat \<times> 's) option"
    and free :: "nat \<Rightarrow> nat \<Rightarrow> 's \<Rightarrow> 's option"
  assumes alloc_law: "inv s \<Longrightarrow> \<exists>a s'. alloc n mx s = Some (a, s') \<and> inv s' \<and> cnt s' = cnt s \<and> (a = 0 \<longrightarrow> s' = s) \<and>
      (a \<noteq> 0 \<longrightarrow> a mod PAGE_SIZE = 0 \<and> 0 < n \<and> a + n * PAGE_SIZE \<le> mx \<and>
         (\<forall>f \<in> frame_run a n. rc s f = 0 \<and> \<not> resv f) \<and>
         rc s' = (\<lambda>f. if f \<in> frame_run a n then 1 else rc s f))"
    and free_law: "inv s \<Longrightarrow> a mod PAGE_SIZE = 0 \<Longrightarrow> 0 < a \<Longrightarrow> 0 < n \<Longrightarrow>
      \<forall>f \<in> frame_run a n. rc s f = 1 \<and> \<not> resv f \<Longrightarrow>
      \<exists>s'. free a n s = Some s' \<and> inv s' \<and> cnt s' = cnt s \<and>
        rc s' = (\<lambda>f. if f \<in> frame_run a n then 0 else rc s f)"
begin

lemma alloc_cases:
  assumes "inv s"
  obtains (none) "alloc n mx s = Some (0, s)"
  | (run) a s' where "alloc n mx s = Some (a, s')" "inv s'" "cnt s' = cnt s" "0 < a" "a mod PAGE_SIZE = 0" "0 < n" "a + n * PAGE_SIZE \<le> mx"
      "\<forall>f \<in> frame_run a n. rc s f = 0 \<and> \<not> resv f"
      "rc s' = (\<lambda>f. if f \<in> frame_run a n then 1 else rc s f)"
proof -
  obtain a s' where a: "alloc n mx s = Some (a, s')" "inv s'" "cnt s' = cnt s" "a = 0 \<longrightarrow> s' = s"
      "a \<noteq> 0 \<longrightarrow> a mod PAGE_SIZE = 0 \<and> 0 < n \<and> a + n * PAGE_SIZE \<le> mx \<and>
         (\<forall>f \<in> frame_run a n. rc s f = 0 \<and> \<not> resv f) \<and>
         rc s' = (\<lambda>f. if f \<in> frame_run a n then 1 else rc s f)"
    using alloc_law [OF assms, of n mx] by (elim exE conjE) (rule that)
  show thesis
  proof (cases "a = 0")
    case True
    then show ?thesis using a none by simp
  next
    case False
    then show ?thesis using a by (intro run [of a s']) simp_all
  qed
qed

text \<open>The frames an allocation handed out: none when it returned null.\<close>

lemma alloc_owned:
  assumes "inv s" and "alloc n mx s = Some (a, s')"
  shows "inv s'" and "cnt s' = cnt s" and "\<forall>f \<in> owned a n. rc s f = 0"
    and "rc s' = (\<lambda>f. if f \<in> owned a n then 1 else rc s f)"
  by (cases rule: alloc_cases [OF assms(1), where n = n and mx = mx]; use assms in \<open>simp add: owned_def\<close>)+

text \<open>Giving back what was allocated restores its counts, whatever happened to the other frames.\<close>

lemma free_owned:
  assumes "inv s" and "alloc n mx s = Some (a, s')" and "inv t" and "\<forall>f \<in> owned a n. rc t f = 1"
  shows "\<exists>t'. (if a \<noteq> 0 then free a n t else Some t) = Some t' \<and> inv t' \<and> cnt t' = cnt t \<and>
     rc t' = (\<lambda>f. if f \<in> owned a n then rc s f else rc t f)"
proof (cases rule: alloc_cases [OF assms(1), where n = n and mx = mx, case_names none run])
  case none
  then show ?thesis using assms(2,3) by (simp add: owned_def)
next
  case (run a' s1)
  then have a: "a' = a" "owned a n = frame_run a n" using assms(2) by (simp_all add: owned_def)
  have "\<forall>f \<in> frame_run a n. rc t f = 1 \<and> \<not> resv f" using run assms(4) a by simp
  from free_law [OF assms(3) _ _ _ this] obtain t' where
    t: "free a n t = Some t'" "inv t'" "cnt t' = cnt t" "rc t' = (\<lambda>f. if f \<in> frame_run a n then 0 else rc t f)"
    using run a by auto
  have "rc t' = (\<lambda>f. if f \<in> frame_run a n then rc s f else rc t f)"
    using run(8) a unfolding t(4) by (auto simp: fun_eq_iff)
  then show ?thesis using t run(4) a by auto
qed

lemma alloc_free_restores:
  assumes "inv s" and "alloc n mx s = Some (a, s')" and "a \<noteq> 0"
  shows "\<exists>t. free a n s' = Some t \<and> inv t \<and> cnt t = cnt s \<and> rc t = rc s"
proof -
  note s' = alloc_owned [OF assms(1,2)]
  then have "\<forall>f \<in> owned a n. rc s' f = 1" by simp
  from free_owned [OF assms(1,2) s'(1) this] show ?thesis using assms(3) s' by (auto simp: fun_eq_iff)
qed

end

section \<open>The allocator meets the contract\<close>

definition mem_inv :: "nat \<times> nat \<Rightarrow> memory_t \<Rightarrow> bool" where
  "mem_inv img s \<longleftrightarrow> mem_shape s \<and>
     (\<forall>f < frame_count s. f \<in> used s \<longleftrightarrow> FRAME_REFCOUNTS s ! f \<noteq> 0) \<and>
     (\<forall>f < frame_count s. frame_reserved img f \<longrightarrow> f \<in> used s)"

definition rc :: "memory_t \<Rightarrow> nat \<Rightarrow> nat" where
  "rc s f = (if f < frame_count s then unat (FRAME_REFCOUNTS s ! f) else 0)"

lemma upd_range_set:
  "lo + n \<le> length xs \<Longrightarrow> \<exists>ys. upd_range (\<lambda>xs i. arr_set xs i v) lo n xs = Some ys \<and> length ys = length xs \<and>
     (\<forall>k < length xs. ys ! k = (if k \<in> {lo..<lo + n} then v else xs ! k))"
proof (induction n arbitrary: lo xs)
  case (Suc n)
  obtain ys where y: "upd_range (\<lambda>xs i. arr_set xs i v) (Suc lo) n (xs[lo := v]) = Some ys" "length ys = length xs"
      "\<forall>k < length xs. ys ! k = (if k \<in> {Suc lo..<Suc lo + n} then v else xs[lo := v] ! k)"
    using Suc.IH [of "Suc lo" "xs[lo := v]"] Suc.prems by auto
  have "ys ! k = (if k \<in> {lo..<lo + Suc n} then v else xs ! k)" if "k < length xs" for k
    using y(3) that by (cases "k = lo") auto
  then show ?case using y(1,2) Suc.prems by simp
qed simp

lemma claim_loop_eq:
  "claim_loop lo n bm refs = do {
     b \<leftarrow> upd_range bitmap_set lo n bm; r \<leftarrow> upd_range (\<lambda>xs i. arr_set xs i 1) lo n refs; Some (b, r) }"
proof (induction n arbitrary: lo bm refs)
  case (Suc n)
  then show ?case by (cases "bitmap_set bm lo"; cases "arr_set refs lo 1") (auto split: bind_splits)
qed simp

lemma release_loop_eq:
  "release_loop lo n bm refs = do {
     b \<leftarrow> upd_range bitmap_clear lo n bm; r \<leftarrow> upd_range (\<lambda>xs i. arr_set xs i 0) lo n refs; Some (b, r) }"
proof (induction n arbitrary: lo bm refs)
  case (Suc n)
  then show ?case by (cases "bitmap_clear bm lo"; cases "arr_set refs lo 0") (auto split: bind_splits)
qed simp

text \<open>Changing a run of frames to \<open>v\<close> references, as claiming and releasing do.\<close>

definition run_set :: "nat set \<Rightarrow> u16 \<Rightarrow> memory_t \<Rightarrow> memory_t \<Rightarrow> bool" where
  "run_set R v s s' \<longleftrightarrow> mem_shape s' \<and> frame_count s' = frame_count s \<and> total_usable s' = total_usable s \<and>
     used s' = (if v = 0 then used s - R else used s \<union> R) \<and>
     (\<forall>k < MAX_TRACKED_FRAMES. FRAME_REFCOUNTS s' ! k = (if k \<in> R then v else FRAME_REFCOUNTS s ! k))"

lemma claim_spec:
  assumes "mem_shape s" and "lo + n \<le> frame_count s"
  shows "\<exists>bm refs. claim_loop lo n (frames s) (FRAME_REFCOUNTS s) = Some (bm, refs) \<and>
     run_set {lo..<lo + n} 1 s (s\<lparr>frames := bm, FRAME_REFCOUNTS := refs\<rparr>)"
proof -
  have sh: "bitmap_inv (frames s)" "lo + n \<le> bitmap_len (frames s)" "lo + n \<le> length (FRAME_REFCOUNTS s)"
    using assms by (auto simp: mem_shape_def)
  show ?thesis
    using bs.set_range_spec [OF sh(1,2)] upd_range_set [OF sh(3), of 1] assms
    by (auto simp: claim_loop_eq run_set_def mem_shape_def)
qed

lemma release_spec:
  assumes "mem_shape s" and "lo + n \<le> frame_count s"
  shows "\<exists>bm refs. release_loop lo n (frames s) (FRAME_REFCOUNTS s) = Some (bm, refs) \<and>
     run_set {lo..<lo + n} 0 s (s\<lparr>frames := bm, FRAME_REFCOUNTS := refs\<rparr>)"
proof -
  have sh: "bitmap_inv (frames s)" "lo + n \<le> bitmap_len (frames s)" "lo + n \<le> length (FRAME_REFCOUNTS s)"
    using assms by (auto simp: mem_shape_def)
  show ?thesis
    using bs.clear_range_spec [OF sh(1,2)] upd_range_set [OF sh(3), of 0] assms
    by (auto simp: release_loop_eq run_set_def mem_shape_def)
qed

lemma run_set_inv:
  assumes "mem_inv img s" and "run_set R v s s'" and "v = 0 \<longrightarrow> (\<forall>f \<in> R. \<not> frame_reserved img f)"
    and "R \<subseteq> {..<frame_count s}"
  shows "mem_inv img s'" and "rc s' = (\<lambda>f. if f \<in> R then unat v else rc s f)" and "frame_count s' = frame_count s"
proof -
  have n: "f < MAX_TRACKED_FRAMES" if "f < frame_count s" for f using assms(1) that by (simp add: mem_inv_def mem_shape_def)
  show "mem_inv img s'"
    using assms n unfolding mem_inv_def run_set_def by (auto split: if_splits)
  show "rc s' = (\<lambda>f. if f \<in> R then unat v else rc s f)"
    using assms n by (auto simp: fun_eq_iff rc_def run_set_def)
  show "frame_count s' = frame_count s" using assms(2) by (simp add: run_set_def)
qed

definition run_free :: "memory_t \<Rightarrow> nat \<Rightarrow> nat \<Rightarrow> bool" where
  "run_free s lo n \<longleftrightarrow> used s \<inter> {lo..<lo + n} = {}"

lemma alloc_scan_spec:
  assumes "mem_shape s" and "0 < n" and "mx \<le> frame_count s"
  shows "(\<exists>c s'. alloc_scan s n mx b = Some (c * PAGE_SIZE, s') \<and> b \<le> c \<and> c + n \<le> mx \<and> run_free s c n \<and>
       (\<forall>d. b \<le> d \<and> d < c \<longrightarrow> \<not> run_free s d n) \<and> run_set {c..<c + n} 1 s s') \<or>
     (alloc_scan s n mx b = Some (0, s) \<and> (\<forall>d \<ge> b. d + n \<le> mx \<longrightarrow> \<not> run_free s d n))"
proof (induction "Suc mx - b" arbitrary: b rule: less_induct)
  case less
  show ?case
  proof (cases "b + n \<le> mx")
    case False
    then show ?thesis by (simp add: alloc_scan.simps [of s n mx b])
  next
    case True
    obtain r where r: "first_used bitmap_test b 0 n (frames s) = Some r"
        "case r of None \<Rightarrow> used s \<inter> {b + 0..<b + 0 + n} = {}
         | Some k \<Rightarrow> 0 \<le> k \<and> k < 0 + n \<and> b + k \<in> used s \<and> used s \<inter> {b + 0..<b + k} = {}"
      using bs.first_used_spec [of "frames s" b 0 n] assms(1) unfolding mem_shape_def by blast
    show ?thesis
    proof (cases r)
      case None
      obtain bm refs where c: "claim_loop b n (frames s) (FRAME_REFCOUNTS s) = Some (bm, refs)"
          "run_set {b..<b + n} 1 s (s\<lparr>frames := bm, FRAME_REFCOUNTS := refs\<rparr>)"
        using claim_spec [OF assms(1)] True assms(3) by (meson order_trans)
      then have "alloc_scan s n mx b = Some (b * PAGE_SIZE, s\<lparr>frames := bm, FRAME_REFCOUNTS := refs\<rparr>)"
        using True r(1) None by (simp add: alloc_scan.simps [of s n mx b])
      moreover have "run_free s b n" using r(2) None by (simp add: run_free_def)
      ultimately show ?thesis using c(2) True
        by (intro disjI1 exI [of _ b] exI [of _ "s\<lparr>frames := bm, FRAME_REFCOUNTS := refs\<rparr>"]) auto
    next
      case (Some j)
      have eq: "alloc_scan s n mx b = alloc_scan s n mx (Suc (b + j))"
        using True r(1) Some by (simp add: alloc_scan.simps [of s n mx b])
      have j: "j < n" "b + j \<in> used s" using r(2) Some by auto
      have skip: "\<not> run_free s d n" if "b \<le> d" "d < Suc (b + j)" for d
      proof -
        have "b + j \<in> {d..<d + n}" using that j(1) by auto
        then show ?thesis using j(2) by (auto simp: run_free_def)
      qed
      have "Suc mx - Suc (b + j) < Suc mx - b" using True assms(2) by linarith
      from less [OF this] show ?thesis
      proof (elim disjE exE conjE)
        fix c s' assume c: "alloc_scan s n mx (Suc (b + j)) = Some (c * PAGE_SIZE, s')" "Suc (b + j) \<le> c" "c + n \<le> mx"
          "run_free s c n" "\<forall>d. Suc (b + j) \<le> d \<and> d < c \<longrightarrow> \<not> run_free s d n" "run_set {c..<c + n} 1 s s'"
        have "\<forall>d. b \<le> d \<and> d < c \<longrightarrow> \<not> run_free s d n" using c(5) skip by (meson not_le)
        then show ?thesis using c eq by (intro disjI1 exI [of _ c] exI [of _ s']) simp
      next
        assume c: "alloc_scan s n mx (Suc (b + j)) = Some (0, s)" "\<forall>d \<ge> Suc (b + j). d + n \<le> mx \<longrightarrow> \<not> run_free s d n"
        have "\<forall>d \<ge> b. d + n \<le> mx \<longrightarrow> \<not> run_free s d n" using c(2) skip by (meson not_le)
        then show ?thesis using c(1) eq by simp
      qed
    qed
  qed
qed

lemma frame_zero_used: "mem_inv img s \<Longrightarrow> 0 < frame_count s \<Longrightarrow> 0 \<in> used s"
proof -
  assume s: "mem_inv img s" "0 < frame_count s"
  have "frame_reserved img 0"
    by (simp add: frame_reserved_def range_intersects_reserved_def ranges_overlap_iff PAGE_SIZE_def)
  then show ?thesis using s unfolding mem_inv_def by blast
qed

lemma not_used_not_reserved: "mem_inv img s \<Longrightarrow> f < frame_count s \<Longrightarrow> f \<notin> used s \<Longrightarrow> rc s f = 0 \<and> \<not> frame_reserved img f"
  by (auto simp: mem_inv_def rc_def)

lemma alloc_spec:
  assumes "mem_inv img s"
  shows "(\<exists>c s'. memory_alloc_contiguous_pages_below n mx s = Some (c * PAGE_SIZE, s') \<and> 0 < c \<and> 0 < n \<and> c + n \<le> frame_count s \<and>
       c * PAGE_SIZE + n * PAGE_SIZE \<le> mx \<and> run_free s c n \<and> (\<forall>d < c. \<not> run_free s d n) \<and> run_set {c..<c + n} 1 s s') \<or>
     (memory_alloc_contiguous_pages_below n mx s = Some (0, s) \<and>
       (\<forall>d. 0 < n \<and> d + n \<le> frame_count s \<and> (d + n) * PAGE_SIZE \<le> mx \<longrightarrow> \<not> run_free s d n))"
proof (cases "n = 0 \<or> mx < PAGE_SIZE")
  case True
  have "\<not> (0 < n \<and> (d + n) * PAGE_SIZE \<le> mx)" for d
    using True by (cases n) (auto simp: PAGE_SIZE_def)
  moreover have "memory_alloc_contiguous_pages_below n mx s = Some (0, s)"
    using True by (simp add: memory_alloc_contiguous_pages_below_def)
  ultimately show ?thesis by blast
next
  case False
  let ?mb = "min (mx div PAGE_SIZE) (frame_count s)"
  have sh: "mem_shape s" using assms by (simp add: mem_inv_def)
  have lim: "(d + n) * PAGE_SIZE \<le> mx \<longleftrightarrow> d + n \<le> mx div PAGE_SIZE" for d
    by (simp add: less_eq_div_iff_mult_less_eq PAGE_SIZE_def)
  have eq: "memory_alloc_contiguous_pages_below n mx s = (if n > ?mb then Some (0, s) else alloc_scan s n ?mb 0)"
    using False by (auto simp: memory_alloc_contiguous_pages_below_def Let_def min_def)
  show ?thesis
  proof (cases "n > ?mb")
    case True
    have "\<not> (d + n \<le> frame_count s \<and> (d + n) * PAGE_SIZE \<le> mx)" for d
    proof
      assume "d + n \<le> frame_count s \<and> (d + n) * PAGE_SIZE \<le> mx"
      then have "d + n \<le> ?mb" unfolding lim by simp
      then show False using True by linarith
    qed
    then show ?thesis using True eq by auto
  next
    case le: False
    have n0: "0 < n" and mb: "?mb \<le> frame_count s" using False by auto
    from alloc_scan_spec [OF sh n0 mb, of 0] show ?thesis
    proof (elim disjE exE conjE)
      fix c s' assume c: "alloc_scan s n ?mb 0 = Some (c * PAGE_SIZE, s')" "c + n \<le> ?mb" "run_free s c n"
        "\<forall>d. 0 \<le> d \<and> d < c \<longrightarrow> \<not> run_free s d n" "run_set {c..<c + n} 1 s s'"
      have "c \<noteq> 0"
      proof
        assume c0: "c = 0"
        have "0 < frame_count s" using n0 le by linarith
        then have "0 \<in> used s" by (rule frame_zero_used [OF assms])
        then show False using c(3) c0 n0 by (auto simp: run_free_def)
      qed
      moreover have "c * PAGE_SIZE + n * PAGE_SIZE \<le> mx" using c(2) lim [of c] by (simp add: add_mult_distrib)
      ultimately show ?thesis using c eq le n0 by (intro disjI1 exI [of _ c] exI [of _ s']) simp
    next
      assume c: "alloc_scan s n ?mb 0 = Some (0, s)" "\<forall>d \<ge> 0. d + n \<le> ?mb \<longrightarrow> \<not> run_free s d n"
      have "\<forall>d. 0 < n \<and> d + n \<le> frame_count s \<and> (d + n) * PAGE_SIZE \<le> mx \<longrightarrow> \<not> run_free s d n"
        using c(2) unfolding lim by simp
      then show ?thesis using c(1) eq le by simp
    qed
  qed
qed

lemma check_loop_spec:
  assumes "mem_inv img s"
  shows "lo + n \<le> frame_count s \<Longrightarrow> check_loop lo n s = (if \<forall>f \<in> {lo..<lo + n}. rc s f = 1 then Some () else None)"
proof (induction n arbitrary: lo)
  case (Suc n)
  have lo: "lo < frame_count s" "lo < length (FRAME_REFCOUNTS s)" "bitmap_inv (frames s)"
    using Suc.prems assms by (auto simp: mem_inv_def mem_shape_def)
  have one: "FRAME_REFCOUNTS s ! lo = 1 \<longleftrightarrow> rc s lo = 1" using lo(1) unat_1 by (metis rc_def word_unat_eq_iff)
  have u: "lo \<in> used s" if "FRAME_REFCOUNTS s ! lo = 1" using that assms lo(1) by (simp add: mem_inv_def)
  have "{lo..<lo + Suc n} = insert lo {Suc lo..<Suc lo + n}" by auto
  then show ?case using Suc.IH [of "Suc lo"] Suc.prems lo one u by (auto simp: bitmap_test_spec)
qed simp

lemma frame_in_range_reserved:
  assumes "frame_reserved img f" and "a \<le> f * PAGE_SIZE" and "f * PAGE_SIZE + PAGE_SIZE \<le> a + len" and "a + len \<le> U64_MAX"
  shows "range_intersects_reserved img a len"
proof -
  have "ranges_overlap_u64 a len b k" if "ranges_overlap_u64 (f * PAGE_SIZE) PAGE_SIZE b k" for b k
  proof -
    have "f * PAGE_SIZE + PAGE_SIZE \<le> U64_MAX" using assms(3,4) by linarith
    then show ?thesis using that assms(2-4)
      by (auto simp: ranges_overlap_u64_def range_end_checked_eq PAGE_SIZE_def split: if_splits option.splits)
  qed
  then show ?thesis using assms(1) by (auto simp: frame_reserved_def range_intersects_reserved_def PAGE_SIZE_def split: if_splits)
qed

lemma free_spec:
  assumes "mem_inv img s" and "a mod PAGE_SIZE = 0" and "0 < a" and "0 < n"
    and "a div PAGE_SIZE + n \<le> frame_count s" and "\<not> range_intersects_reserved img a (n * PAGE_SIZE)"
  shows "if \<forall>f \<in> frame_run a n. rc s f = 1
    then \<exists>s'. memory_free_contiguous_pages img a n s = Some s' \<and> run_set (frame_run a n) 0 s s'
    else memory_free_contiguous_pages img a n s = None"
proof -
  have "n * PAGE_SIZE \<le> U64_MAX"
    using assms(1,5) by (simp add: mem_inv_def mem_shape_def mem_consts)
  then have eq: "memory_free_contiguous_pages img a n s = do {
      check_loop (a div PAGE_SIZE) n s;
      (bm, refs) \<leftarrow> release_loop (a div PAGE_SIZE) n (frames s) (FRAME_REFCOUNTS s);
      Some (s\<lparr>frames := bm, FRAME_REFCOUNTS := refs\<rparr>) }"
  proof -
    have "\<not> frame_count s \<le> a div PAGE_SIZE" "\<not> frame_count s - a div PAGE_SIZE < n" using assms(4,5) by linarith+
    then show ?thesis
      using assms(2-4,6) \<open>n * PAGE_SIZE \<le> U64_MAX\<close> by (simp add: memory_free_contiguous_pages_def mul_overflow_def Let_def)
  qed
  have "mem_shape s" using assms(1) by (simp add: mem_inv_def)
  from release_spec [OF this assms(5)] obtain bm refs where
    "release_loop (a div PAGE_SIZE) n (frames s) (FRAME_REFCOUNTS s) = Some (bm, refs)"
    "run_set (frame_run a n) 0 s (s\<lparr>frames := bm, FRAME_REFCOUNTS := refs\<rparr>)"
    unfolding frame_run_def by blast
  then show ?thesis using check_loop_spec [OF assms(1,5)] by (simp add: eq frame_run_def)
qed

text \<open>A run of unreserved frames is, as a range of bytes, free of reserved memory.\<close>

lemma run_not_reserved:
  assumes "0 < n" and "a mod PAGE_SIZE = 0" and "\<forall>f \<in> frame_run a n. \<not> frame_reserved img f"
    and "a div PAGE_SIZE + n \<le> MAX_TRACKED_FRAMES"
  shows "\<not> range_intersects_reserved img a (n * PAGE_SIZE)"
proof
  define c where "c = a div PAGE_SIZE"
  have a: "a = c * PAGE_SIZE" using assms(2) by (simp add: c_def PAGE_SIZE_def mod_eq_0_iff_dvd)
  have top: "(c + n) * PAGE_SIZE \<le> U64_MAX" using assms(4) by (simp add: c_def mem_consts)
  assume "range_intersects_reserved img a (n * PAGE_SIZE)"
  then obtain b k where bk: "ranges_overlap_u64 a (n * PAGE_SIZE) b k"
      "\<And>f. ranges_overlap_u64 (f * PAGE_SIZE) PAGE_SIZE b k \<Longrightarrow> frame_reserved img f"
    using assms(1) by (auto simp: range_intersects_reserved_def frame_reserved_def PAGE_SIZE_def split: if_splits)
  then have k: "0 < k" "b + k \<le> U64_MAX" "a < b + k" "b < a + n * PAGE_SIZE"
    by (auto simp: ranges_overlap_u64_def range_end_checked_eq split: if_splits option.splits)
  define f where "f = max c (b div PAGE_SIZE)"
  have "b div PAGE_SIZE * PAGE_SIZE \<le> b" "b < b div PAGE_SIZE * PAGE_SIZE + PAGE_SIZE"
    by (simp_all add: PAGE_SIZE_def)
  then have "f < c + n \<and> f * PAGE_SIZE < b + k \<and> b < f * PAGE_SIZE + PAGE_SIZE"
  proof (cases "c \<le> b div PAGE_SIZE")
    case True
    have "b < (c + n) * PAGE_SIZE" using k(4) a by (simp add: add_mult_distrib)
    then have "b div PAGE_SIZE < c + n" by (simp add: div_less_iff_less_mult PAGE_SIZE_def)
    moreover have "f = b div PAGE_SIZE" using True by (simp add: f_def max_absorb2)
    ultimately show ?thesis using k(1) \<open>b div PAGE_SIZE * PAGE_SIZE \<le> b\<close> \<open>b < b div PAGE_SIZE * PAGE_SIZE + PAGE_SIZE\<close>
      by (metis less_add_same_cancel1 le_less_trans)
  next
    case False
    then have "Suc (b div PAGE_SIZE) * PAGE_SIZE \<le> c * PAGE_SIZE" by (intro mult_le_mono1) simp
    then show ?thesis using False k(3) a assms(1) \<open>b < b div PAGE_SIZE * PAGE_SIZE + PAGE_SIZE\<close>
      by (simp add: f_def max_absorb1)
  qed
  then have f: "f \<in> frame_run a n" "f * PAGE_SIZE < b + k" "b < f * PAGE_SIZE + PAGE_SIZE" "Suc f \<le> c + n"
    by (auto simp: f_def frame_run_def c_def)
  have "f * PAGE_SIZE + PAGE_SIZE \<le> (c + n) * PAGE_SIZE" using mult_le_mono1 [OF f(4), of PAGE_SIZE] by simp
  then have "ranges_overlap_u64 (f * PAGE_SIZE) PAGE_SIZE b k"
    using f(2,3) k top by (subst ranges_overlap_iff) (auto simp: PAGE_SIZE_def)
  then show False using bk(2) assms(3) f(1) by blast
qed

lemma alloc_contract:
  assumes "mem_inv img s"
  shows "\<exists>a s'. memory_alloc_contiguous_pages_below n mx s = Some (a, s') \<and> mem_inv img s' \<and>
      frame_count s' = frame_count s \<and> (a = 0 \<longrightarrow> s' = s) \<and>
      (a \<noteq> 0 \<longrightarrow> a mod PAGE_SIZE = 0 \<and> 0 < n \<and> a + n * PAGE_SIZE \<le> mx \<and>
         (\<forall>f \<in> frame_run a n. rc s f = 0 \<and> \<not> frame_reserved img f) \<and>
         rc s' = (\<lambda>f. if f \<in> frame_run a n then 1 else rc s f))"
  using alloc_spec [OF assms, of n mx]
proof (elim disjE exE conjE)
  fix c s' assume c: "memory_alloc_contiguous_pages_below n mx s = Some (c * PAGE_SIZE, s')" "0 < c" "0 < n"
    "c + n \<le> frame_count s" "c * PAGE_SIZE + n * PAGE_SIZE \<le> mx" "run_free s c n" "run_set {c..<c + n} 1 s s'"
  have run: "frame_run (c * PAGE_SIZE) n = {c..<c + n}" by (simp add: frame_run_def PAGE_SIZE_def)
  have sub: "{c..<c + n} \<subseteq> {..<frame_count s}" using c(4) by auto
  have "rc s f = 0 \<and> \<not> frame_reserved img f" if "f \<in> {c..<c + n}" for f
  proof -
    have "f < frame_count s" "f \<notin> used s" using that sub c(6) unfolding run_free_def by blast+
    then show ?thesis by (rule not_used_not_reserved [OF assms])
  qed
  moreover have "mem_inv img s'" "rc s' = (\<lambda>f. if f \<in> {c..<c + n} then 1 else rc s f)" "frame_count s' = frame_count s"
    using run_set_inv [OF assms c(7) _ sub, unfolded unat_1] by simp_all
  ultimately show ?thesis using c(1-3,5)
    by (intro exI [of _ "c * PAGE_SIZE"] exI [of _ s']) (simp add: run)
next
  assume "memory_alloc_contiguous_pages_below n mx s = Some (0, s)"
  then show ?thesis using assms by (intro exI [of _ 0] exI [of _ s]) simp
qed

lemma run_below:
  assumes "\<forall>f \<in> frame_run a n. rc s f = 1" and "0 < n"
  shows "a div PAGE_SIZE + n \<le> frame_count s"
proof -
  have "a div PAGE_SIZE + n - 1 \<in> frame_run a n" using assms(2) by (auto simp: frame_run_def)
  then have "rc s (a div PAGE_SIZE + n - 1) = 1" using assms(1) by blast
  then show ?thesis by (simp add: rc_def split: if_splits)
qed

lemma free_contract:
  assumes "mem_inv img s" and "a mod PAGE_SIZE = 0" and "0 < a" and "0 < n"
    and "\<forall>f \<in> frame_run a n. rc s f = 1 \<and> \<not> frame_reserved img f"
  shows "\<exists>s'. memory_free_contiguous_pages img a n s = Some s' \<and> mem_inv img s' \<and> frame_count s' = frame_count s \<and>
     rc s' = (\<lambda>f. if f \<in> frame_run a n then 0 else rc s f)"
proof -
  have b: "a div PAGE_SIZE + n \<le> frame_count s" using run_below assms(4,5) by blast
  then have "a div PAGE_SIZE + n \<le> MAX_TRACKED_FRAMES" using assms(1) by (simp add: mem_inv_def mem_shape_def)
  from run_not_reserved [OF assms(4,2) _ this] have "\<not> range_intersects_reserved img a (n * PAGE_SIZE)"
    using assms(5) by simp
  from free_spec [OF assms(1-4) b this] obtain s' where
    s': "memory_free_contiguous_pages img a n s = Some s'" "run_set (frame_run a n) 0 s s'"
    using assms(5) by (auto split: if_splits)
  have "frame_run a n \<subseteq> {..<frame_count s}" using b by (auto simp: frame_run_def)
  then show ?thesis using s' run_set_inv [OF assms(1) s'(2), unfolded unat_0] assms(5) by simp
qed

interpretation fp: frame_pool "mem_inv img" frame_count rc "frame_reserved img" memory_alloc_contiguous_pages_below
  "memory_free_contiguous_pages img" for img
  by unfold_locales (rule alloc_contract, assumption, rule free_contract)

section \<open>Reference counting\<close>

lemma set_one_ref:
  assumes "mem_inv img s" and "b < frame_count s" and "v \<noteq> 0" and "b \<in> used s"
  shows "mem_inv img (s\<lparr>FRAME_REFCOUNTS := (FRAME_REFCOUNTS s)[b := v]\<rparr>)"
    and "rc (s\<lparr>FRAME_REFCOUNTS := (FRAME_REFCOUNTS s)[b := v]\<rparr>) = (rc s)(b := unat v)"
proof -
  have b: "b < length (FRAME_REFCOUNTS s)" using assms(1,2) by (simp add: mem_inv_def mem_shape_def)
  show "mem_inv img (s\<lparr>FRAME_REFCOUNTS := (FRAME_REFCOUNTS s)[b := v]\<rparr>)"
    using assms b by (auto simp: mem_inv_def mem_shape_def nth_list_update)
  show "rc (s\<lparr>FRAME_REFCOUNTS := (FRAME_REFCOUNTS s)[b := v]\<rparr>) = (rc s)(b := unat v)"
    using assms b by (auto simp: rc_def fun_eq_iff nth_list_update)
qed

lemma used_rc: "mem_inv img s \<Longrightarrow> f < frame_count s \<Longrightarrow> f \<in> used s \<longleftrightarrow> 0 < rc s f"
  by (auto simp: mem_inv_def rc_def unat_gt_0)

lemma page_addr: "a mod PAGE_SIZE = 0 \<Longrightarrow> a div PAGE_SIZE * PAGE_SIZE = a"
  using div_mult_mod_eq [of a PAGE_SIZE] by simp

definition ref_valid :: "nat \<times> nat \<Rightarrow> nat \<Rightarrow> memory_t \<Rightarrow> bool" where
  "ref_valid img a s \<longleftrightarrow> 0 < a \<and> a mod PAGE_SIZE = 0 \<and> \<not> frame_reserved img (a div PAGE_SIZE) \<and> 0 < rc s (a div PAGE_SIZE)"

lemma rc_pos_below: "0 < rc s f \<Longrightarrow> f < frame_count s"
  by (simp add: rc_def split: if_splits)

lemma ref_page_spec:
  assumes "mem_inv img s"
  shows "if ref_valid img a s \<and> rc s (a div PAGE_SIZE) < 65535
    then \<exists>s'. memory_ref_page img a s = Some (True, s') \<and> mem_inv img s' \<and> frame_count s' = frame_count s \<and>
      rc s' = (rc s)(a div PAGE_SIZE := rc s (a div PAGE_SIZE) + 1)
    else memory_ref_page img a s = Some (False, s)"
proof -
  let ?b = "a div PAGE_SIZE" let ?r = "FRAME_REFCOUNTS s ! ?b"
  consider (bad) "a = 0 \<or> a mod PAGE_SIZE \<noteq> 0 \<or> range_intersects_reserved img a PAGE_SIZE \<or> \<not> ?b < frame_count s"
    | (ok) "a \<noteq> 0" "a mod PAGE_SIZE = 0" "\<not> range_intersects_reserved img a PAGE_SIZE" "?b < frame_count s" by blast
  then show ?thesis
  proof cases
    case bad
    then have "\<not> ref_valid img a s"
      by (auto simp: ref_valid_def frame_reserved_def page_addr dest: rc_pos_below)
    moreover have "memory_ref_page img a s = Some (False, s)" using bad by (auto simp: memory_ref_page_def Let_def)
    ultimately show ?thesis by simp
  next
    case ok
    have len: "?b < length (FRAME_REFCOUNTS s)" "bitmap_inv (frames s)" using assms ok(4) by (simp_all add: mem_inv_def mem_shape_def)
    have rv: "ref_valid img a s \<longleftrightarrow> ?b \<in> used s"
      using ok used_rc [OF assms ok(4)] by (simp add: ref_valid_def frame_reserved_def page_addr)
    have r: "rc s ?b = unat ?r" using ok(4) by (simp add: rc_def)
    have lt: "?r < 0xffff \<longleftrightarrow> rc s ?b < 65535" "?r > 0 \<longleftrightarrow> 0 < rc s ?b" unfolding r by (simp_all add: word_less_nat_alt)
    have eq: "memory_ref_page img a s = (if ?b \<in> used s \<and> ?r > 0 \<and> ?r < 0xffff
        then Some (True, s\<lparr>FRAME_REFCOUNTS := (FRAME_REFCOUNTS s)[?b := ?r + 1]\<rparr>) else Some (False, s))"
      using ok len by (simp add: memory_ref_page_def Let_def bitmap_test_spec)
    show ?thesis
    proof (cases "?b \<in> used s \<and> ?r < 0xffff")
      case True
      have "unat (?r + 1) = rc s ?b + 1" using True lt r by (simp add: unat_word_ariths)
      moreover from this have "?r + 1 \<noteq> 0" by auto
      ultimately show ?thesis
        using True lt rv eq used_rc [OF assms ok(4)] set_one_ref [OF assms ok(4), of "?r + 1"] by auto
    next
      case False
      then show ?thesis using lt rv eq by auto
    qed
  qed
qed

lemma unref_page_spec:
  assumes "mem_inv img s"
  shows "if ref_valid img a s
    then \<exists>s'. memory_unref_page img a s = Some (True, s') \<and> mem_inv img s' \<and> frame_count s' = frame_count s \<and>
      rc s' = (rc s)(a div PAGE_SIZE := rc s (a div PAGE_SIZE) - 1)
    else memory_unref_page img a s = Some (False, s)"
proof -
  let ?b = "a div PAGE_SIZE" let ?r = "FRAME_REFCOUNTS s ! ?b"
  consider (bad) "a = 0 \<or> a mod PAGE_SIZE \<noteq> 0 \<or> range_intersects_reserved img a PAGE_SIZE \<or> \<not> ?b < frame_count s"
    | (ok) "a \<noteq> 0" "a mod PAGE_SIZE = 0" "\<not> range_intersects_reserved img a PAGE_SIZE" "?b < frame_count s" by blast
  then show ?thesis
  proof cases
    case bad
    then have "\<not> ref_valid img a s"
      by (auto simp: ref_valid_def frame_reserved_def page_addr dest: rc_pos_below)
    moreover have "memory_unref_page img a s = Some (False, s)"
      using bad by (auto simp: memory_unref_page_def Let_def not_less)
    ultimately show ?thesis by simp
  next
    case ok
    have sh: "mem_shape s" using assms by (simp add: mem_inv_def)
    have len: "?b < length (FRAME_REFCOUNTS s)" "bitmap_inv (frames s)" "?b < bitmap_len (frames s)"
      using sh ok(4) by (simp_all add: mem_shape_def)
    have rv: "ref_valid img a s \<longleftrightarrow> ?b \<in> used s"
      using ok used_rc [OF assms ok(4)] by (simp add: ref_valid_def frame_reserved_def page_addr)
    have nz: "?b \<in> used s \<longleftrightarrow> ?r \<noteq> 0" using assms ok(4) by (simp add: mem_inv_def)
    have nres: "\<not> frame_reserved img ?b" using ok by (simp add: frame_reserved_def page_addr)
    have r: "rc s ?b = unat ?r" using ok(4) by (simp add: rc_def)
    have eq: "memory_unref_page img a s = (if ?b \<notin> used s then Some (False, s) else do {
            bm \<leftarrow> (if ?r - 1 = 0 then bitmap_clear (frames s) ?b else Some (frames s));
            Some (True, s\<lparr>frames := bm, FRAME_REFCOUNTS := (FRAME_REFCOUNTS s)[?b := ?r - 1]\<rparr>) })"
      using ok len nz by (simp add: memory_unref_page_def Let_def bitmap_test_spec)
    consider (free) "?b \<notin> used s" | (last) "?b \<in> used s" "?r - 1 = 0" | (more) "?b \<in> used s" "?r - 1 \<noteq> 0" by blast
    then show ?thesis
    proof cases
      case free
      then show ?thesis using rv eq by simp
    next
      case last
      obtain bm where bm: "bitmap_clear (frames s) ?b = Some bm" "bitmap_inv bm" "bitmap_len bm = bitmap_len (frames s)"
          "bitmap_bits bm = used s - {?b}"
        using bitmap_clear_spec [OF len(2,3)] by blast
      let ?s = "s\<lparr>frames := bm, FRAME_REFCOUNTS := (FRAME_REFCOUNTS s)[?b := 0]\<rparr>"
      have rs: "run_set {?b} 0 s ?s" using bm sh len(1) by (auto simp: run_set_def mem_shape_def nth_list_update)
      have "mem_inv img ?s" "rc ?s = (\<lambda>f. if f \<in> {?b} then 0 else rc s f)"
        using run_set_inv [OF assms rs, unfolded unat_0] nres ok(4) by simp_all
      moreover have "(\<lambda>f. if f \<in> {?b} then 0 else rc s f) = (rc s)(?b := rc s ?b - 1)"
        using last(2) r by (auto simp: fun_eq_iff)
      ultimately show ?thesis using last rv eq bm(1) by simp
    next
      case more
      have "unat (?r - 1) = rc s ?b - 1" using more(1) nz r by (simp add: unat_minus_one)
      then show ?thesis using more rv eq set_one_ref [OF assms ok(4) more(2,1)] by simp
    qed
  qed
qed

lemma page_refcount_spec:
  assumes "mem_inv img s" and "0 < a" and "a mod PAGE_SIZE = 0"
  shows "memory_page_refcount a s = Some (rc s (a div PAGE_SIZE))"
proof (cases "a div PAGE_SIZE < frame_count s")
  case True
  then have "a div PAGE_SIZE < length (FRAME_REFCOUNTS s)" "bitmap_inv (frames s)"
    using assms(1) by (simp_all add: mem_inv_def mem_shape_def)
  moreover have "a div PAGE_SIZE \<in> used s \<longleftrightarrow> FRAME_REFCOUNTS s ! (a div PAGE_SIZE) \<noteq> 0"
    using assms(1) True by (simp add: mem_inv_def)
  ultimately show ?thesis using assms True by (auto simp: memory_page_refcount_def Let_def bitmap_test_spec rc_def)
next
  case False
  then show ?thesis using assms by (simp add: memory_page_refcount_def Let_def rc_def)
qed

section \<open>Statistics\<close>

lemma used_eq_rc:
  assumes "mem_inv img s"
  shows "used s = {f. 0 < rc s f}"
proof -
  have "f < frame_count s" if "f \<in> used s" for f
    using bs.bits_bound [of "frames s"] that assms by (auto simp: mem_inv_def mem_shape_def)
  then show ?thesis using used_rc [OF assms] rc_pos_below by blast
qed

lemma stats_spec:
  assumes "mem_inv img s"
  shows "\<exists>st. memory_get_stats s = Some st \<and> st_free_frames st = card {f. f < frame_count s \<and> rc s f = 0} \<and>
     st_used_bytes st = card {f. 0 < rc s f} * PAGE_SIZE \<and> st_free_frames st * PAGE_SIZE = st_free_bytes st \<and>
     st_free_frames st + card {f. 0 < rc s f} = frame_count s"
proof -
  have sh: "bitmap_inv (frames s)" "bitmap_len (frames s) = frame_count s" "frame_count s \<le> MAX_TRACKED_FRAMES"
    using assms by (simp_all add: mem_inv_def mem_shape_def)
  have c: "bitmap_count_set (frames s) = Some (card {f. 0 < rc s f})"
    using bitmap_count_set_spec [OF sh(1)] used_eq_rc [OF assms] by simp
  have sub: "{f. 0 < rc s f} \<subseteq> {..<frame_count s}" using rc_pos_below by auto
  then have le: "card {f. 0 < rc s f} \<le> frame_count s" using card_mono [OF _ sub] by simp
  have "{f. f < frame_count s \<and> rc s f = 0} = {..<frame_count s} - {f. 0 < rc s f}" by auto
  then have fr: "card {f. f < frame_count s \<and> rc s f = 0} = frame_count s - card {f. 0 < rc s f}"
    using sub by (simp add: card_Diff_subset finite_subset)
  show ?thesis
    using c le sh(3) by (simp add: memory_get_stats_def Let_def fr mem_consts)
qed

section \<open>The self-test as a client of the contract\<close>

lemma selftest_refs_spec:
  assumes "mem_inv img s" and "0 < a" and "a mod PAGE_SIZE = 0" and "\<not> frame_reserved img (a div PAGE_SIZE)"
    and "rc s (a div PAGE_SIZE) = 1"
  shows "\<exists>s'. selftest_refs img a s = Some (True, s') \<and> mem_inv img s' \<and> frame_count s' = frame_count s \<and> rc s' = rc s"
proof -
  let ?f = "a div PAGE_SIZE"
  obtain s1 where s1: "memory_ref_page img a s = Some (True, s1)" "mem_inv img s1" "frame_count s1 = frame_count s" "rc s1 = (rc s)(?f := 2)"
    using ref_page_spec [OF assms(1), of a] assms by (auto simp: ref_valid_def numeral_2_eq_2)
  obtain s2 where s2: "memory_unref_page img a s1 = Some (True, s2)" "mem_inv img s2" "frame_count s2 = frame_count s" "rc s2 = (rc s)(?f := 1)"
    using unref_page_spec [OF s1(2), of a] assms s1(3,4) by (auto simp: ref_valid_def)
  have "rc s2 = rc s" using s2(4) assms(5) by auto
  then show ?thesis
    using s1 s2 assms page_refcount_spec [OF _ assms(2,3)] by (simp add: selftest_refs_def)
qed

lemma selftest_spec:
  assumes "mem_inv img s"
  shows "\<exists>ok s'. memory_selftest img s = Some (ok, s') \<and> mem_inv img s' \<and> frame_count s' = frame_count s \<and> rc s' = rc s"
proof -
  let ?al = memory_alloc_contiguous_pages_below let ?lim = MEMORY_KERNEL_DIRECT_LIMIT
  have page: "memory_alloc_page = ?al 1 ?lim" by (simp add: fun_eq_iff memory_alloc_page_def memory_alloc_page_below_def)
  have lim: "1024 * 1024 * 1024 = ?lim" by (simp add: MEMORY_KERNEL_DIRECT_LIMIT_def)
  obtain a s1 where 1: "?al 1 ?lim s = Some (a, s1)" using alloc_contract [OF assms] by blast
  note a = fp.alloc_owned [OF assms 1]
  obtain b s2 where 2: "?al 1 ?lim s1 = Some (b, s2)" using alloc_contract [OF a(1)] by blast
  note b = fp.alloc_owned [OF a(1) 2]
  obtain c s3 where 3: "?al 3 ?lim s2 = Some (c, s3)" using alloc_contract [OF b(1)] by blast
  note c = fp.alloc_owned [OF b(1) 3]
  obtain st where st: "memory_get_stats s = Some st" using stats_spec [OF assms] by blast
  obtain ok s4 where 4: "(if a \<noteq> 0 \<and> b \<noteq> 0 \<and> c \<noteq> 0 \<and> a \<noteq> b then selftest_refs img a s3 else Some (False, s3)) = Some (ok, s4)"
      "mem_inv img s4" "frame_count s4 = frame_count s" "rc s4 = rc s3"
  proof (cases "a \<noteq> 0 \<and> b \<noteq> 0 \<and> c \<noteq> 0 \<and> a \<noteq> b")
    case True
    have "a mod PAGE_SIZE = 0" "\<not> frame_reserved img (a div PAGE_SIZE)"
      using alloc_contract [OF assms, of 1 ?lim] 1 True by (auto simp: frame_run_def)
    moreover have "a div PAGE_SIZE \<in> owned a 1" using True by (simp add: owned_def frame_run_def)
    then have "rc s3 (a div PAGE_SIZE) = 1" using a(4) b(4) c(4) by simp
    ultimately show thesis using selftest_refs_spec [OF c(1), of a] True that a(2) b(2) c(2) by auto
  next
    case False
    then show thesis using that [of False s3] a(2) b(2) c(1,2) by auto
  qed
  have rc4: "rc s4 = (\<lambda>f. if f \<in> owned c 3 then 1 else if f \<in> owned b 1 then 1 else if f \<in> owned a 1 then 1 else rc s f)"
    by (simp only: 4(4) c(4) b(4) a(4))
  then have "\<forall>f \<in> owned a 1. rc s4 f = 1" by simp
  from fp.free_owned [OF assms 1 4(2) this] obtain t1 where
    t1: "(if a \<noteq> 0 then memory_free_contiguous_pages img a 1 s4 else Some s4) = Some t1" "mem_inv img t1"
      "frame_count t1 = frame_count s4" "rc t1 = (\<lambda>f. if f \<in> owned a 1 then rc s f else rc s4 f)" by blast
  have "rc t1 f = 1" if "f \<in> owned b 1" for f
  proof -
    have "f \<notin> owned a 1" using b(3) that a(4) by auto
    then show ?thesis using t1(4) rc4 that by simp
  qed
  then have "\<forall>f \<in> owned b 1. rc t1 f = 1" by blast
  from fp.free_owned [OF a(1) 2 t1(2) this] obtain t2 where
    t2: "(if b \<noteq> 0 then memory_free_contiguous_pages img b 1 t1 else Some t1) = Some t2" "mem_inv img t2"
      "frame_count t2 = frame_count t1" "rc t2 = (\<lambda>f. if f \<in> owned b 1 then rc s1 f else rc t1 f)" by blast
  have "rc t2 f = 1" if "f \<in> owned c 3" for f
  proof -
    have "f \<notin> owned b 1" "f \<notin> owned a 1" using c(3) that b(4) a(4) by (auto split: if_splits)
    then show ?thesis using t2(4) t1(4) rc4 that by simp
  qed
  then have "\<forall>f \<in> owned c 3. rc t2 f = 1" by blast
  from fp.free_owned [OF b(1) 3 t2(2) this] obtain t3 where
    t3: "(if c \<noteq> 0 then memory_free_contiguous_pages img c 3 t2 else Some t2) = Some t3" "mem_inv img t3"
      "frame_count t3 = frame_count t2" "rc t3 = (\<lambda>f. if f \<in> owned c 3 then rc s2 f else rc t2 f)" by blast
  have "rc t3 f = rc s f" for f
    using a(3) b(3) c(3) unfolding t3(4) t2(4) t1(4) rc4 b(4) a(4) by (auto split: if_splits)
  then have "rc t3 = rc s" by (rule ext)
  moreover obtain sa where sa: "memory_get_stats t3 = Some sa" using stats_spec [OF t3(2)] by blast
  have "\<exists>ok. memory_selftest img s = Some (ok, t3)"
    unfolding memory_selftest_def page lim memory_free_page_def
    by (simp only: st 1 2 3 4(1) t1(1) t2(1) t3(1) sa bind.bind_lunit prod.case Let_def) auto
  ultimately show ?thesis using t3(2,3) t2(3) t1(3) 4(3) by auto
qed

section \<open>Initialisation\<close>

definition img_ok :: "nat \<times> nat \<Rightarrow> bool" where
  "img_ok img \<longleftrightarrow> fst img mod PAGE_SIZE = 0 \<and> snd img mod PAGE_SIZE = 0 \<and> fst img \<le> snd img \<and> snd img \<le> U64_MAX"

lemma saturating_add_le: "saturating_add_u64 a b \<le> U64_MAX"
  by (simp add: saturating_add_u64_def add_overflow_def)

lemma validate_info:
  assumes "identity_mapped m"
  obtains (bad) "bootinfo_validate m p = Some False"
  | (good) info where "bootinfo_validate m p = Some True" "ld_bootinfo m p = Some info" "bootinfo_sound m info"
proof -
  obtain r where r: "bootinfo_validate_reason m p = Some r" using validate_reason_defined [OF assms] by blast
  then show thesis using validate_sound [of m p] bad good by (cases "hd r = CHR ''o''") (auto simp: bootinfo_validate_def)
qed

lemma e820_entry:
  assumes "bootinfo_validate m p = Some True" and "ld_bootinfo m p = Some info" and "bootinfo_sound m info" and "i < bi_e820_count info"
  shows "bootinfo_e820 m p i = Some (bi_e820_addr info + i * E820_SIZEOF)"
    and "\<exists>e. ld_e820 m (bi_e820_addr info + i * E820_SIZEOF) = Some e \<and> (e_length e \<noteq> 0 \<longrightarrow> e_base e + e_length e \<le> U64_MAX)"
  using assms by (auto simp: bootinfo_e820_def bootinfo_sound_def)

lemma scan_map_spec:
  assumes "bootinfo_validate m p = Some True" and "ld_bootinfo m p = Some info" and "bootinfo_sound m info"
  shows "i + n \<le> bi_e820_count info \<Longrightarrow> mx \<le> U64_MAX \<Longrightarrow> \<exists>mx' u'. scan_map m p i n mx u = Some (mx', u') \<and> mx' \<le> U64_MAX"
proof (induction n arbitrary: i mx u)
  case (Suc n)
  let ?a = "bi_e820_addr info + i * E820_SIZEOF"
  have a: "bootinfo_e820 m p i = Some ?a" using e820_entry(1) [OF assms] Suc.prems by simp
  obtain e where e: "ld_e820 m ?a = Some e" using e820_entry(2) [OF assms, of i] Suc.prems by auto
  have IH: "\<exists>mx' u'. scan_map m p (Suc i) n mx1 u1 = Some (mx', u') \<and> mx' \<le> U64_MAX" if "mx1 \<le> U64_MAX" for mx1 u1
    using Suc.IH [of "Suc i"] Suc.prems that by simp
  show ?case
    using IH Suc.prems(2) saturating_add_le by (simp add: a e Let_def)
qed simp

lemma map_extent_spec:
  assumes "identity_mapped m"
  shows "\<exists>mx u. map_extent m p = Some (mx, u) \<and> 32 * 1024 * 1024 \<le> mx \<and> mx \<le> U64_MAX"
proof (cases rule: validate_info [OF assms, of p, case_names bad good])
  case bad
  then show ?thesis by (simp add: map_extent_def)
next
  case (good info)
  then obtain mx u where "scan_map m p 0 (bi_e820_count info) 0 0 = Some (mx, u)" "mx \<le> U64_MAX"
    using scan_map_spec [OF good, of 0 "bi_e820_count info" 0 0] by auto
  then show ?thesis using good by (simp add: map_extent_def)
qed

lemma init_frames_spec:
  assumes "length ws = FRAME_BITMAP_BYTES div 8" and "0 < n" and "n \<le> MAX_TRACKED_FRAMES"
  shows "\<exists>b. init_frames ws n = Some b \<and> bitmap_inv b \<and> bitmap_len b = n \<and> bitmap_bits b = {..<n}"
proof -
  have w: "length ws = 16384" "n \<le> 1048576" using assms by (simp_all add: mem_consts)
  have cap: "(n + 63) div 64 \<le> 16384" using w(2) by simp
  obtain ws' where z: "zero_words 0 ((n + 63) div 64) ws = Some ws'" "length ws' = length ws"
    using zero_words_spec [of 0 "(n + 63) div 64" ws] cap w(1) by auto
  let ?b = "Some \<lparr>bwords = Some (replicate (length ws) (- 1)), bit_count = n\<rparr>"
  have "word_count_checked n = Some ((n + 63) div 64)" using w(2) by (simp add: word_count_checked_def Let_def)
  then have eq: "init_frames ws n = upd_range bitmap_set 0 n ?b"
    using z assms(2) by (simp add: init_frames_def bitmap_init_def)
  have inv: "bitmap_inv ?b" "bitmap_len ?b = n" using w cap by (simp_all add: bitmap_inv_def bitmap_len_def)
  have "bitmap_bits ?b \<subseteq> {..<n}" using bs.bits_bound [OF inv(1)] inv(2) by simp
  then show ?thesis using bs.set_range_spec [OF inv(1), of 0 n] inv(2) eq by (auto simp: Un_absorb1 lessThan_atLeast0)
qed

text \<open>Everything but the bitmap is the same.\<close>

definition same_table :: "memory_t \<Rightarrow> memory_t \<Rightarrow> bool" where
  "same_table s s' \<longleftrightarrow> mem_shape s' \<and> frame_count s' = frame_count s \<and> total_usable s' = total_usable s \<and>
     FRAME_REFCOUNTS s' = FRAME_REFCOUNTS s"

lemma same_table_trans: "same_table s s' \<Longrightarrow> same_table s' s'' \<Longrightarrow> same_table s s''"
  by (simp add: same_table_def)

lemma mark_range_table:
  assumes "mem_shape s" and "len \<noteq> 0 \<longrightarrow> base + len \<le> U64_MAX"
  shows "\<exists>s'. mark_range base len fr s = Some s' \<and> same_table s s' \<and>
    used s' = (if fr then used s - full_frames base len (frame_count s) else used s \<union> full_frames base len (frame_count s))"
proof (cases "len = 0")
  case True
  then show ?thesis using assms(1)
    by (auto simp: mark_range_def range_end_checked_eq same_table_def full_frames_def PAGE_SIZE_def)
next
  case False
  then show ?thesis using mark_range_spec [OF assms(1), of base len fr] assms(2) by (auto simp: same_table_def)
qed

definition usable_frame :: "pmem \<Rightarrow> rabbitbone_bootinfo_t \<Rightarrow> nat \<Rightarrow> bool" where
  "usable_frame m info f \<longleftrightarrow> (\<exists>i e. i < bi_e820_count info \<and> ld_e820 m (bi_e820_addr info + i * E820_SIZEOF) = Some e \<and>
     e_type e = RABBITBONE_E820_USABLE \<and> e_base e \<le> f * PAGE_SIZE \<and> f * PAGE_SIZE + PAGE_SIZE \<le> e_base e + e_length e)"

definition module_frame :: "pmem \<Rightarrow> rabbitbone_bootinfo_t \<Rightarrow> nat \<Rightarrow> bool" where
  "module_frame m info f \<longleftrightarrow> (\<exists>i x. i < bi_module_count info \<and> bi_modules_addr info \<noteq> 0 \<and>
     ld_module m (bi_modules_addr info + i * MODULE_SIZEOF) = Some x \<and>
     m_base x \<le> f * PAGE_SIZE \<and> f * PAGE_SIZE + PAGE_SIZE \<le> m_base x + m_size x)"

lemma mark_usable_spec:
  assumes "bootinfo_validate m p = Some True" and "ld_bootinfo m p = Some info" and "bootinfo_sound m info"
  shows "i + n \<le> bi_e820_count info \<Longrightarrow> mem_shape s \<Longrightarrow>
    \<exists>s'. mark_usable m p i n s = Some s' \<and> same_table s s' \<and> (\<forall>f \<in> used s - used s'. usable_frame m info f)"
proof (induction n arbitrary: i s)
  case 0
  then show ?case by (simp add: same_table_def)
next
  case (Suc n)
  let ?a = "bi_e820_addr info + i * E820_SIZEOF"
  have i: "i < bi_e820_count info" using Suc.prems(1) by simp
  have a: "bootinfo_e820 m p i = Some ?a" using e820_entry(1) [OF assms i] by auto
  obtain e where e: "ld_e820 m ?a = Some e" "e_length e \<noteq> 0 \<longrightarrow> e_base e + e_length e \<le> U64_MAX"
    using e820_entry(2) [OF assms i] by auto
  obtain s1 where s1: "(if ?a \<noteq> 0 \<and> e_type e = RABBITBONE_E820_USABLE then mark_range (e_base e) (e_length e) True s else Some s) = Some s1"
      "same_table s s1" "\<forall>f \<in> used s - used s1. usable_frame m info f"
  proof (cases "?a \<noteq> 0 \<and> e_type e = RABBITBONE_E820_USABLE")
    case True
    obtain s1 where "mark_range (e_base e) (e_length e) True s = Some s1" "same_table s s1"
        "used s1 = used s - full_frames (e_base e) (e_length e) (frame_count s)"
      using mark_range_table [OF Suc.prems(2) e(2), of True] by auto
    moreover have "usable_frame m info f" if "f \<in> full_frames (e_base e) (e_length e) (frame_count s)" for f
      using that i e(1) True by (auto simp: usable_frame_def full_frames_def)
    ultimately show thesis using that True by auto
  next
    case False
    then have "(if ?a \<noteq> 0 \<and> e_type e = RABBITBONE_E820_USABLE then mark_range (e_base e) (e_length e) True s else Some s) = Some s"
      by (simp only: if_False)
    then show thesis using that [of s] Suc.prems(2) unfolding same_table_def by blast
  qed
  then have "mem_shape s1" by (simp add: same_table_def)
  then obtain s2 where "mark_usable m p (Suc i) n s1 = Some s2" "same_table s1 s2"
      "\<forall>f \<in> used s1 - used s2. usable_frame m info f"
    using Suc.IH [of "Suc i" s1] Suc.prems by auto
  moreover have "mark_usable m p i (Suc n) s = mark_usable m p (Suc i) n s1"
    using s1(1) a e(1) by (auto split: if_splits)
  ultimately show ?case using s1(2,3) by (intro exI [of _ s2]) (auto intro: same_table_trans)
qed

lemma mark_modules_spec:
  assumes "bootinfo_sound m info"
  shows "i + n \<le> bi_module_count info \<Longrightarrow> mem_shape s \<Longrightarrow>
    \<exists>s'. mark_modules m (bi_modules_addr info) i n s = Some s' \<and> same_table s s' \<and> used s \<subseteq> used s' \<and>
      (\<forall>j x. i \<le> j \<and> j < i + n \<and> ld_module m (bi_modules_addr info + j * MODULE_SIZEOF) = Some x \<longrightarrow>
         full_frames (m_base x) (m_size x) (frame_count s) \<subseteq> used s')"
proof (induction n arbitrary: i s)
  case 0
  then show ?case by (auto simp: same_table_def)
next
  case (Suc n)
  have i: "i < bi_module_count info" using Suc.prems(1) by simp
  then obtain x where x: "ld_module m (bi_modules_addr info + i * MODULE_SIZEOF) = Some x"
      "m_size x \<noteq> 0 \<longrightarrow> 0 < m_base x \<and> m_base x + m_size x \<le> BOOTINFO_IDENTITY_LIMIT"
    using assms unfolding bootinfo_sound_def by blast
  obtain s1 where s1: "(if m_base x \<noteq> 0 \<and> m_size x \<noteq> 0 then mark_range (m_base x) (m_size x) False s else Some s) = Some s1"
      "same_table s s1" "used s1 = used s \<union> full_frames (m_base x) (m_size x) (frame_count s)"
  proof (cases "m_size x = 0")
    case True
    then have "full_frames (m_base x) (m_size x) (frame_count s) = {}" by (auto simp: full_frames_def PAGE_SIZE_def)
    then show thesis using that [of s] True Suc.prems(2) by (simp add: same_table_def)
  next
    case False
    then have "m_base x + m_size x \<le> U64_MAX" using x(2) by (simp add: BOOTINFO_IDENTITY_LIMIT_def)
    then show thesis using mark_range_table [OF Suc.prems(2), of "m_size x" "m_base x" False] that x(2) False by auto
  qed
  have sh: "mem_shape s1" "frame_count s1 = frame_count s" using s1(2) by (simp_all add: same_table_def)
  obtain s2 where s2: "mark_modules m (bi_modules_addr info) (Suc i) n s1 = Some s2" "same_table s1 s2" "used s1 \<subseteq> used s2"
      "\<forall>j x. Suc i \<le> j \<and> j < Suc i + n \<and> ld_module m (bi_modules_addr info + j * MODULE_SIZEOF) = Some x \<longrightarrow>
         full_frames (m_base x) (m_size x) (frame_count s1) \<subseteq> used s2"
    using Suc.IH [of "Suc i" s1] Suc.prems(1) sh(1) by auto
  have "full_frames (m_base y) (m_size y) (frame_count s) \<subseteq> used s2"
    if "i \<le> j" "j < i + Suc n" "ld_module m (bi_modules_addr info + j * MODULE_SIZEOF) = Some y" for j y
  proof (cases "j = i")
    case True
    then show ?thesis using that(3) x(1) s1(3) s2(3) by auto
  next
    case False
    then have "Suc i \<le> j \<and> j < Suc i + n" using that by simp
    then show ?thesis using s2(4) that(3) sh(2) by auto
  qed
  moreover have "mark_modules m (bi_modules_addr info) i (Suc n) s = Some s2" using x(1) s1(1) s2(1) by simp
  moreover have "used s \<subseteq> used s2" using s1(3) s2(3) by blast
  ultimately show ?case using same_table_trans [OF s1(2) s2(2)] by blast
qed

lemma init_refs_spec:
  assumes "bitmap_inv bm"
  shows "f + n \<le> length refs \<Longrightarrow> \<exists>refs'. init_refs bm f n refs = Some refs' \<and> length refs' = length refs \<and>
     (\<forall>k < length refs. refs' ! k = (if f \<le> k \<and> k < f + n then (if k \<in> bitmap_bits bm then 1 else 0) else refs ! k))"
proof (induction n arbitrary: f refs)
  case (Suc n)
  let ?v = "if f \<in> bitmap_bits bm then 1 else 0 :: u16"
  obtain refs' where r: "init_refs bm (Suc f) n (refs[f := ?v]) = Some refs'" "length refs' = length refs"
      "\<forall>k < length refs. refs' ! k = (if Suc f \<le> k \<and> k < Suc f + n then (if k \<in> bitmap_bits bm then 1 else 0) else refs[f := ?v] ! k)"
    using Suc.IH [of "Suc f" "refs[f := ?v]"] Suc.prems by auto
  have "refs' ! k = (if f \<le> k \<and> k < f + Suc n then (if k \<in> bitmap_bits bm then 1 else 0) else refs ! k)" if "k < length refs" for k
    using r(3) that by (cases "k = f") auto
  then show ?case using r(1,2) Suc.prems by (simp add: bitmap_test_spec [OF assms])
qed auto

text \<open>Reserved frames are exactly frames of the page-aligned ranges that initialisation marks.\<close>

lemma frame_in_aligned:
  assumes "ranges_overlap_u64 (f * PAGE_SIZE) PAGE_SIZE base len" and "base mod PAGE_SIZE = 0" and "len mod PAGE_SIZE = 0"
    and "f < n"
  shows "f \<in> full_frames base len n"
proof -
  have o': "f * PAGE_SIZE < base + len" "base < f * PAGE_SIZE + PAGE_SIZE"
    using assms(1) by (auto simp: ranges_overlap_u64_def range_end_checked_eq split: option.splits if_splits)
  obtain b where b: "base = b * PAGE_SIZE" using page_addr [OF assms(2)] by metis
  obtain k where k: "len = k * PAGE_SIZE" using page_addr [OF assms(3)] by metis
  have "f * PAGE_SIZE < (b + k) * PAGE_SIZE" "b * PAGE_SIZE < Suc f * PAGE_SIZE" using o' by (simp_all add: b k add_mult_distrib)
  then have "f < b + k" "b < Suc f" unfolding mult_less_cancel2 by simp_all
  then have "b * PAGE_SIZE \<le> f * PAGE_SIZE" "Suc f * PAGE_SIZE \<le> (b + k) * PAGE_SIZE"
    by (intro mult_le_mono1; simp)+
  then show ?thesis using assms(4) by (simp add: full_frames_def b k add_mult_distrib add.commute)
qed

lemma reserved_covered:
  assumes "img_ok img" and "frame_reserved img f" and "f < n"
  shows "f \<in> full_frames 0 0x200000 n \<union> full_frames (fst img) (sub64 (snd img) (fst img)) n \<union>
     full_frames FRAME_BITMAP_PHYS FRAME_BITMAP_BYTES n \<union> full_frames FRAME_REFCOUNT_PHYS FRAME_REFCOUNT_BYTES n"
proof -
  have "sub64 (snd img) (fst img) mod PAGE_SIZE = 0" and "fst img mod PAGE_SIZE = 0"
    using assms(1) by (simp_all add: img_ok_def mod_eq_0_iff_dvd)
  moreover have "0 mod PAGE_SIZE = 0" "0x200000 mod PAGE_SIZE = 0" "FRAME_BITMAP_PHYS mod PAGE_SIZE = 0"
      "FRAME_BITMAP_BYTES mod PAGE_SIZE = 0" "FRAME_REFCOUNT_PHYS mod PAGE_SIZE = 0" "FRAME_REFCOUNT_BYTES mod PAGE_SIZE = 0"
    by (simp_all add: mem_consts)
  ultimately show ?thesis
    using assms(2,3) frame_in_aligned unfolding frame_reserved_def range_intersects_reserved_def
    by (auto split: if_splits)
qed

lemma mark_phase:
  assumes "identity_mapped m" and "mem_shape s" and "mx \<le> U64_MAX" and "bootinfo_validate m p = Some ok"
  shows "\<exists>s'. (if ok then do { info \<leftarrow> ld_bootinfo m p; mark_usable m p 0 (bi_e820_count info) s }
           else mark_range 0x200000 (sub64 mx 0x200000) True s) = Some s' \<and> same_table s s' \<and>
     (\<forall>info. ok \<longrightarrow> ld_bootinfo m p = Some info \<longrightarrow> (\<forall>f \<in> used s - used s'. usable_frame m info f))"
proof (cases rule: validate_info [OF assms(1), of p, case_names bad good])
  case bad
  then have "\<not> ok" using assms(4) by simp
  show ?thesis
  proof (cases "mx < 0x200000")
    case False
    then have "0x200000 + sub64 mx 0x200000 \<le> U64_MAX" using assms(3) by simp
    then show ?thesis using \<open>\<not> ok\<close> mark_range_table [OF assms(2), of "sub64 mx 0x200000" "0x200000" True] by auto
  next
    case True
    then have "range_end_checked 0x200000 (sub64 mx 0x200000) = None"
      by (auto simp: range_end_checked_eq sub64_def)
    then show ?thesis using \<open>\<not> ok\<close> assms(2) by (auto simp: mark_range_def same_table_def)
  qed
next
  case (good info)
  then show ?thesis using assms(2,4) mark_usable_spec [OF good, of 0 "bi_e820_count info" s] by auto
qed

lemma module_phase:
  assumes "identity_mapped m" and "mem_shape s" and "bootinfo_validate m p = Some ok"
  shows "\<exists>s'. (if ok then do {
              info \<leftarrow> ld_bootinfo m p;
              if bi_module_count info \<noteq> 0 \<and> bi_modules_addr info \<noteq> 0
              then mark_modules m (bi_modules_addr info) 0 (bi_module_count info) s else Some s }
           else Some s) = Some s' \<and> same_table s s' \<and> used s \<subseteq> used s' \<and>
     (\<forall>info f. ok \<longrightarrow> ld_bootinfo m p = Some info \<longrightarrow> f < frame_count s \<longrightarrow> module_frame m info f \<longrightarrow> f \<in> used s')"
proof (cases rule: validate_info [OF assms(1), of p, case_names bad good])
  case bad
  then show ?thesis using assms(2,3) by (auto simp: same_table_def)
next
  case (good info)
  then have ok: "ok" using assms(3) by simp
  show ?thesis
  proof (cases "bi_module_count info \<noteq> 0 \<and> bi_modules_addr info \<noteq> 0")
    case True
    obtain s' where s': "mark_modules m (bi_modules_addr info) 0 (bi_module_count info) s = Some s'" "same_table s s'" "used s \<subseteq> used s'"
        "\<forall>j x. j < bi_module_count info \<and> ld_module m (bi_modules_addr info + j * MODULE_SIZEOF) = Some x \<longrightarrow>
         full_frames (m_base x) (m_size x) (frame_count s) \<subseteq> used s'"
      using mark_modules_spec [OF good(3), of 0 "bi_module_count info" s] assms(2) by auto
    have "f \<in> used s'" if f: "f < frame_count s" "module_frame m info f" for f
    proof -
      obtain j x where "j < bi_module_count info" "ld_module m (bi_modules_addr info + j * MODULE_SIZEOF) = Some x"
          "f \<in> full_frames (m_base x) (m_size x) (frame_count s)"
        using f by (auto simp: module_frame_def full_frames_def)
      then show ?thesis using s'(4) by blast
    qed
    then show ?thesis using True good ok s'(1-3) by auto
  next
    case False
    then have "\<not> module_frame m info f" for f by (auto simp: module_frame_def)
    then show ?thesis using False good ok assms(2) by (auto simp: same_table_def)
  qed
qed

lemma memory_init_spec:
  assumes "identity_mapped m" and "img_ok img" and "length ws = FRAME_BITMAP_BYTES div 8"
  shows "\<exists>s l. memory_init img ws m p = Some (s, l) \<and> mem_inv img s \<and> (\<forall>f. rc s f \<le> 1) \<and>
     (\<forall>info f. bootinfo_validate m p = Some True \<longrightarrow> ld_bootinfo m p = Some info \<longrightarrow> f < frame_count s \<longrightarrow> rc s f = 0 \<longrightarrow>
        usable_frame m info f \<and> \<not> module_frame m info f)"
proof -
  obtain mx u where e: "map_extent m p = Some (mx, u)" "32 * 1024 * 1024 \<le> mx" "mx \<le> U64_MAX"
    using map_extent_spec [OF assms(1)] by blast
  define n where "n = (if mx div PAGE_SIZE > MAX_TRACKED_FRAMES then MAX_TRACKED_FRAMES else mx div PAGE_SIZE)"
  have "0 < mx div PAGE_SIZE" using e(2) by (simp add: PAGE_SIZE_def)
  then have n: "0 < n" "n \<le> MAX_TRACKED_FRAMES" by (auto simp: n_def MAX_TRACKED_FRAMES_def)
  obtain b where b: "init_frames ws n = Some b" "bitmap_inv b" "bitmap_len b = n" "bitmap_bits b = {..<n}"
    using init_frames_spec [OF assms(3) n] by blast
  define s0 where "s0 = \<lparr>frames = b, frame_count = n, total_usable = u, FRAME_REFCOUNTS = replicate MAX_TRACKED_FRAMES 0\<rparr>"
  have s0: "mem_shape s0" "used s0 = {..<n}" "frame_count s0 = n" using b n by (simp_all add: s0_def mem_shape_def)
  obtain ok where ok: "bootinfo_validate m p = Some ok"
    using validate_reason_defined [OF assms(1), of p] unfolding bootinfo_validate_def by fastforce
  obtain s1 where s1: "(if ok then do { info \<leftarrow> ld_bootinfo m p; mark_usable m p 0 (bi_e820_count info) s0 }
           else mark_range 0x200000 (sub64 mx 0x200000) True s0) = Some s1" "same_table s0 s1"
     "\<forall>info. ok \<longrightarrow> ld_bootinfo m p = Some info \<longrightarrow> (\<forall>f \<in> used s0 - used s1. usable_frame m info f)"
    using mark_phase [OF assms(1) s0(1) e(3) ok] by blast
  have sh: "mem_shape t" if "same_table s t" for s t using that by (simp add: same_table_def)
  have img: "fst img + sub64 (snd img) (fst img) \<le> U64_MAX" using assms(2) by (simp add: img_ok_def)
  obtain s2 where s2: "mark_range 0 0x200000 False s1 = Some s2" "same_table s1 s2"
      "used s2 = used s1 \<union> full_frames 0 0x200000 (frame_count s1)"
    using mark_range_table [OF sh [OF s1(2)], of "0x200000" 0 False] by auto
  obtain s3 where s3: "mark_range (fst img) (sub64 (snd img) (fst img)) False s2 = Some s3" "same_table s2 s3"
      "used s3 = used s2 \<union> full_frames (fst img) (sub64 (snd img) (fst img)) (frame_count s2)"
    using mark_range_table [OF sh [OF s2(2)], of "sub64 (snd img) (fst img)" "fst img" False] img by auto
  obtain s4 where s4: "(if ok then do {
              info \<leftarrow> ld_bootinfo m p;
              if bi_module_count info \<noteq> 0 \<and> bi_modules_addr info \<noteq> 0
              then mark_modules m (bi_modules_addr info) 0 (bi_module_count info) s3 else Some s3 }
           else Some s3) = Some s4" "same_table s3 s4" "used s3 \<subseteq> used s4"
     "\<forall>info f. ok \<longrightarrow> ld_bootinfo m p = Some info \<longrightarrow> f < frame_count s3 \<longrightarrow> module_frame m info f \<longrightarrow> f \<in> used s4"
    using module_phase [OF assms(1) sh [OF s3(2)] ok] by blast
  obtain s5 where s5: "mark_range FRAME_BITMAP_PHYS FRAME_BITMAP_BYTES False s4 = Some s5" "same_table s4 s5"
      "used s5 = used s4 \<union> full_frames FRAME_BITMAP_PHYS FRAME_BITMAP_BYTES (frame_count s4)"
    using mark_range_table [OF sh [OF s4(2)], of FRAME_BITMAP_BYTES FRAME_BITMAP_PHYS False] by (auto simp: mem_consts)
  obtain s6 where s6: "mark_range FRAME_REFCOUNT_PHYS FRAME_REFCOUNT_BYTES False s5 = Some s6" "same_table s5 s6"
      "used s6 = used s5 \<union> full_frames FRAME_REFCOUNT_PHYS FRAME_REFCOUNT_BYTES (frame_count s5)"
    using mark_range_table [OF sh [OF s5(2)], of FRAME_REFCOUNT_BYTES FRAME_REFCOUNT_PHYS False] by (auto simp: mem_consts)
  have cnt: "frame_count s1 = n" "frame_count s2 = n" "frame_count s3 = n" "frame_count s4 = n" "frame_count s5 = n" "frame_count s6 = n"
    using s1(2) s2(2) s3(2) s4(2) s5(2) s6(2) s0(3) unfolding same_table_def by simp_all
  have len6: "length (FRAME_REFCOUNTS s6) = MAX_TRACKED_FRAMES" "bitmap_inv (frames s6)"
    using sh [OF s6(2)] by (simp_all add: mem_shape_def)
  obtain refs where refs: "init_refs (frames s6) 0 n (FRAME_REFCOUNTS s6) = Some refs" "length refs = MAX_TRACKED_FRAMES"
      "\<forall>k < MAX_TRACKED_FRAMES. k < n \<longrightarrow> refs ! k = (if k \<in> used s6 then 1 else 0)"
    using init_refs_spec [OF len6(2), of 0 n "FRAME_REFCOUNTS s6"] n(2) len6(1) by auto
  let ?s = "s6\<lparr>FRAME_REFCOUNTS := refs\<rparr>"
  have ini: "\<exists>l. memory_init img ws m p = Some (?s, l)"
    unfolding memory_init_def
    by (simp only: e(1) bind.bind_lunit prod.case Let_def n_def [symmetric] b(1) s0_def [symmetric] ok s1(1) s2(1) s3(1) s4(1)
        s5(1) s6(1) cnt refs(1)) blast
  have one: "refs ! f = (if f \<in> used s6 then 1 else 0)" if "f < n" for f using refs(3) that n(2) by simp
  have "f \<in> used s6" if "f < n" "frame_reserved img f" for f
    using reserved_covered [OF assms(2) that(2,1)] s2(3) s3(3) s4(3) s5(3) s6(3) cnt by auto
  then have inv: "mem_inv img ?s"
    using one refs(2) cnt(6) s6(2) by (auto simp: mem_inv_def same_table_def mem_shape_def)
  have "rc ?s f \<le> 1" for f using one [of f] cnt(6) by (simp add: rc_def)
  moreover have "usable_frame m info f \<and> \<not> module_frame m info f"
    if "bootinfo_validate m p = Some True" "ld_bootinfo m p = Some info" "f < n" "rc ?s f = 0" for info f
  proof -
    have f: "f \<notin> used s6" using one [OF that(3)] that(3,4) cnt(6) by (auto simp: rc_def split: if_splits)
    then have "f \<in> used s0 - used s1" "f \<notin> used s4"
      using s0(2) that(3) s2(3) s3(3) s4(3) s5(3) s6(3) by auto
    then show ?thesis using s1(3) s4(4) that ok cnt(3) by auto
  qed
  ultimately show ?thesis using ini inv cnt(6) by auto
qed

section \<open>Reachable states\<close>

lemma free_any:
  assumes "mem_inv img s" and "memory_free_contiguous_pages img a n s = Some s'"
  shows "mem_inv img s' \<and> frame_count s' = frame_count s"
proof (cases "s' = s")
  case False
  obtain len where g: "a \<noteq> 0" "n \<noteq> 0" "a mod PAGE_SIZE = 0" "mul_overflow n PAGE_SIZE = Some len"
      "\<not> range_intersects_reserved img a len" "a div PAGE_SIZE < frame_count s" "n \<le> frame_count s - a div PAGE_SIZE"
    using assms(2) False by (auto simp: memory_free_contiguous_pages_def Let_def not_le split: if_splits option.splits)
  have len: "len = n * PAGE_SIZE" using g(4) by (simp add: ovf)
  have b: "a div PAGE_SIZE + n \<le> frame_count s" using g(6,7) by simp
  from free_spec [OF assms(1) g(3) _ _ b] g len assms(2)
  have rs: "run_set (frame_run a n) 0 s s'" by (auto split: if_splits)
  have "\<not> frame_reserved img f" if "f \<in> frame_run a n" for f
  proof
    assume "frame_reserved img f"
    have fr: "a div PAGE_SIZE \<le> f" "Suc f \<le> a div PAGE_SIZE + n" using that by (auto simp: frame_run_def)
    have lo: "a \<le> f * PAGE_SIZE" using mult_le_mono1 [OF fr(1), of PAGE_SIZE] page_addr [OF g(3)] by simp
    have hi: "f * PAGE_SIZE + PAGE_SIZE \<le> a + len"
      using mult_le_mono1 [OF fr(2), of PAGE_SIZE] page_addr [OF g(3)] len by (simp add: add_mult_distrib add.commute)
    have "(a div PAGE_SIZE + n) * PAGE_SIZE \<le> MAX_TRACKED_FRAMES * PAGE_SIZE"
      using b assms(1) by (intro mult_le_mono1) (simp add: mem_inv_def mem_shape_def)
    then have top: "a + len \<le> U64_MAX" using page_addr [OF g(3)] len by (simp add: add_mult_distrib mem_consts)
    show False using frame_in_range_reserved [OF \<open>frame_reserved img f\<close> lo hi top] g(5) by simp
  qed
  moreover have "frame_run a n \<subseteq> {..<frame_count s}" using b by (auto simp: frame_run_def)
  ultimately show ?thesis using run_set_inv [OF assms(1) rs] by simp
qed (use assms in simp)

text \<open>Any sequence of operations with any arguments that does not end in a panic.\<close>

inductive mem_reach :: "nat \<times> nat \<Rightarrow> memory_t \<Rightarrow> bool" for img where
  mem_start: "img_ok img \<Longrightarrow> identity_mapped m \<Longrightarrow> length ws = FRAME_BITMAP_BYTES div 8 \<Longrightarrow>
    memory_init img ws m p = Some (s, l) \<Longrightarrow> mem_reach img s"
| mem_alloc: "mem_reach img s \<Longrightarrow> memory_alloc_contiguous_pages_below n mx s = Some (a, s') \<Longrightarrow> mem_reach img s'"
| mem_free: "mem_reach img s \<Longrightarrow> memory_free_contiguous_pages img a n s = Some s' \<Longrightarrow> mem_reach img s'"
| mem_ref: "mem_reach img s \<Longrightarrow> memory_ref_page img a s = Some (ok, s') \<Longrightarrow> mem_reach img s'"
| mem_unref: "mem_reach img s \<Longrightarrow> memory_unref_page img a s = Some (ok, s') \<Longrightarrow> mem_reach img s'"

lemma mem_reach_inv: "mem_reach img s \<Longrightarrow> mem_inv img s"
proof (induction rule: mem_reach.induct)
  case (mem_start m ws p s l)
  then show ?case using memory_init_spec [of m img ws p] by auto
next
  case (mem_alloc s n mx a s')
  then show ?case using fp.alloc_owned(1) by blast
next
  case (mem_free s a n s')
  then show ?case using free_any by blast
next
  case (mem_ref s a ok s')
  then show ?case using ref_page_spec [of img s a] by (auto split: if_splits)
next
  case (mem_unref s a ok s')
  then show ?case using unref_page_spec [of img s a] by (auto split: if_splits)
qed

section \<open>Properties\<close>

lemma mem_reach_witness: "\<exists>s. mem_reach (0x10000, 0x20000) s"
proof -
  have m: "identity_mapped (\<lambda>_. Some 0)" by (simp add: identity_mapped_def)
  have i: "img_ok (0x10000, 0x20000)" by (simp add: img_ok_def PAGE_SIZE_def)
  have w: "length (replicate (FRAME_BITMAP_BYTES div 8) (0 :: u64)) = FRAME_BITMAP_BYTES div 8" by simp
  show ?thesis using memory_init_spec [OF m i w, of 0] mem_start [OF i m w] by blast
qed

text \<open>
  C1: the frame allocator keeps its books. After initialisation and any sequence of
  allocations, frees, references and releases that does not panic, a frame is marked used in
  the bitmap exactly when its reference count is positive, no frame that touches the first
  two megabytes, the kernel image or the allocator's own tables is free, and the reported
  free and used frames add up to the tracked frames.
\<close>

theorem frame_books_invariant:
  assumes "mem_reach img s"
  shows "(\<forall>f. f \<in> used s \<longleftrightarrow> 0 < rc s f) \<and> (\<forall>f < frame_count s. frame_reserved img f \<longrightarrow> 0 < rc s f) \<and>
     (\<exists>st. memory_get_stats s = Some st \<and> st_free_frames st = card {f. f < frame_count s \<and> rc s f = 0} \<and>
        st_free_frames st + card {f. 0 < rc s f} = frame_count s)"
proof -
  note inv = mem_reach_inv [OF assms]
  have "\<forall>f < frame_count s. frame_reserved img f \<longrightarrow> 0 < rc s f"
    using inv used_rc [OF inv] unfolding mem_inv_def by blast
  then show ?thesis using used_eq_rc [OF inv] stats_spec [OF inv] by blast
qed

theorem frame_books_invariant_witness:
  "\<exists>s. mem_reach (0x10000, 0x20000) s \<and> (\<forall>f. f \<in> used s \<longleftrightarrow> 0 < rc s f)"
  using mem_reach_witness frame_books_invariant [of "(0x10000, 0x20000)"] by blast

text \<open>
  C14: allocation is first fit and never hands out a frame in use. In a reachable state a request
  for \<open>n\<close> contiguous pages below \<open>mx\<close> returns the lowest run of free frames that ends below
  the limit, gives each of its frames exactly one reference and changes no other frame; it
  returns null, leaving the state alone, exactly when there is no such run.
\<close>

theorem frame_alloc_first_fit:
  assumes "mem_reach img s"
  shows "\<exists>a s'. memory_alloc_contiguous_pages_below n mx s = Some (a, s') \<and> mem_reach img s' \<and>
     (if \<exists>d. 0 < n \<and> d + n \<le> frame_count s \<and> (d + n) * PAGE_SIZE \<le> mx \<and> run_free s d n
      then \<exists>c > 0. a = c * PAGE_SIZE \<and> c + n \<le> frame_count s \<and> (c + n) * PAGE_SIZE \<le> mx \<and> run_free s c n \<and>
         (\<forall>d < c. \<not> run_free s d n) \<and> (\<forall>f \<in> {c..<c + n}. \<not> frame_reserved img f) \<and>
         rc s' = (\<lambda>f. if f \<in> {c..<c + n} then 1 else rc s f)
      else a = 0 \<and> s' = s)"
  using alloc_spec [OF mem_reach_inv [OF assms], of n mx]
proof (elim disjE exE conjE)
  fix c s' assume c: "memory_alloc_contiguous_pages_below n mx s = Some (c * PAGE_SIZE, s')" "0 < c" "0 < n"
    "c + n \<le> frame_count s" "c * PAGE_SIZE + n * PAGE_SIZE \<le> mx" "run_free s c n" "\<forall>d < c. \<not> run_free s d n"
    "run_set {c..<c + n} 1 s s'"
  have lim: "(c + n) * PAGE_SIZE \<le> mx" using c(5) by (simp add: add_mult_distrib)
  have sub: "{c..<c + n} \<subseteq> {..<frame_count s}" using c(4) by auto
  have "\<forall>f \<in> {c..<c + n}. \<not> frame_reserved img f"
    using not_used_not_reserved [OF mem_reach_inv [OF assms]] sub c(6) unfolding run_free_def by blast
  moreover have "rc s' = (\<lambda>f. if f \<in> {c..<c + n} then 1 else rc s f)"
    using run_set_inv(2) [OF mem_reach_inv [OF assms] c(8) _ sub, unfolded unat_1] by simp
  moreover have "\<exists>d. 0 < n \<and> d + n \<le> frame_count s \<and> (d + n) * PAGE_SIZE \<le> mx \<and> run_free s d n"
    using c(3,4,6) lim by blast
  ultimately show ?thesis using mem_alloc [OF assms c(1)] c(1,2,4,6,7) lim by auto
next
  assume "memory_alloc_contiguous_pages_below n mx s = Some (0, s)"
    "\<forall>d. 0 < n \<and> d + n \<le> frame_count s \<and> (d + n) * PAGE_SIZE \<le> mx \<longrightarrow> \<not> run_free s d n"
  then show ?thesis using assms by auto
qed

theorem frame_alloc_first_fit_witness:
  "\<exists>s a s'. mem_reach (0x10000, 0x20000) s \<and> memory_alloc_contiguous_pages_below 3 0x40000000 s = Some (a, s') \<and>
     mem_reach (0x10000, 0x20000) s'"
proof -
  obtain s where s: "mem_reach (0x10000, 0x20000) s" using mem_reach_witness by blast
  from frame_alloc_first_fit [OF this, of 3 "0x40000000"] obtain a s' where
    "memory_alloc_contiguous_pages_below 3 0x40000000 s = Some (a, s')" "mem_reach (0x10000, 0x20000) s'"
    by (elim exE conjE)
  then show ?thesis using s by (intro exI [of _ s] exI [of _ a] exI [of _ s']) simp
qed

text \<open>
  C24: freeing is the inverse of allocation, and misuse is caught. In a reachable state a run
  just allocated can be freed, which restores the reference count of every frame; freeing
  an aligned unreserved run inside the tracked memory panics if and only if some frame of it is
  not held by exactly one reference (a double free or a shared page); and the allocator's
  self-test neither panics nor leaks a frame.
\<close>

theorem frame_free_roundtrip:
  assumes "mem_reach img s"
  shows "(\<forall>n mx a s'. memory_alloc_contiguous_pages_below n mx s = Some (a, s') \<and> a \<noteq> 0 \<longrightarrow>
      (\<exists>t. memory_free_contiguous_pages img a n s' = Some t \<and> rc t = rc s)) \<and>
    (\<forall>a n. a mod PAGE_SIZE = 0 \<and> 0 < a \<and> 0 < n \<and> a div PAGE_SIZE + n \<le> frame_count s \<and>
        \<not> range_intersects_reserved img a (n * PAGE_SIZE) \<longrightarrow>
      (memory_free_contiguous_pages img a n s = None \<longleftrightarrow> (\<exists>f \<in> frame_run a n. rc s f \<noteq> 1))) \<and>
    (\<exists>ok t. memory_selftest img s = Some (ok, t) \<and> rc t = rc s)"
proof (intro conjI allI impI)
  note inv = mem_reach_inv [OF assms]
  show "\<exists>ok t. memory_selftest img s = Some (ok, t) \<and> rc t = rc s" using selftest_spec [OF inv] by blast
  show "\<exists>t. memory_free_contiguous_pages img a n s' = Some t \<and> rc t = rc s"
    if "memory_alloc_contiguous_pages_below n mx s = Some (a, s') \<and> a \<noteq> 0" for n mx a s'
    using fp.alloc_free_restores [OF inv] that by blast
  show "memory_free_contiguous_pages img a n s = None \<longleftrightarrow> (\<exists>f \<in> frame_run a n. rc s f \<noteq> 1)"
    if "a mod PAGE_SIZE = 0 \<and> 0 < a \<and> 0 < n \<and> a div PAGE_SIZE + n \<le> frame_count s \<and>
        \<not> range_intersects_reserved img a (n * PAGE_SIZE)" for a n
    using free_spec [OF inv, of a n] that by (auto split: if_splits)
qed

theorem frame_free_roundtrip_witness:
  "\<exists>s ok t. mem_reach (0x10000, 0x20000) s \<and> memory_selftest (0x10000, 0x20000) s = Some (ok, t) \<and> rc t = rc s"
proof -
  obtain s where s: "mem_reach (0x10000, 0x20000) s" using mem_reach_witness by (rule exE)
  from frame_free_roundtrip [OF this] obtain ok t where
    "memory_selftest (0x10000, 0x20000) s = Some (ok, t)" "rc t = rc s"
    by (elim conjE exE)
  then show ?thesis using s by (intro exI [of _ s] exI [of _ ok] exI [of _ t] conjI)
qed



text \<open>
  a reserved range is shrunk, not grown, to whole frames. Marking a range as used leaves free
  every frame the range covers only in part; so the last frame of a boot module whose size is
  not a multiple of the page size stays free and can be handed out although it holds module data.
\<close>

theorem partial_module_frame_stays_free:
  assumes "mem_shape s" and "base + len \<le> U64_MAX" and "f \<notin> used s"
    and "base \<le> f * PAGE_SIZE" and "f * PAGE_SIZE < base + len" and "base + len < f * PAGE_SIZE + PAGE_SIZE"
  shows "\<exists>s'. mark_range base len False s = Some s' \<and> f \<notin> used s'"
  using mark_range_spec [OF assms(1,2), of False] assms(3-6) by (auto simp: full_frames_def)

theorem partial_module_frame_stays_free_witness:
  "\<exists>s s'. 0x300 \<notin> used s \<and> mark_range 0x300000 0x200 False s = Some s' \<and> 0x300 \<notin> used s'"
proof -
  let ?s = "\<lparr>frames = Some \<lparr>bwords = Some (replicate 16 0), bit_count = 1024\<rparr>, frame_count = 1024, total_usable = 0,
    FRAME_REFCOUNTS = replicate MAX_TRACKED_FRAMES 0\<rparr>"
  have "mem_shape ?s" by (simp add: mem_shape_def bitmap_inv_def bitmap_len_def MAX_TRACKED_FRAMES_def)
  moreover have "0x300 \<notin> used ?s" by (simp add: bitmap_bits_def)
  ultimately show ?thesis
    using partial_module_frame_stays_free [of ?s "0x300000" "0x200" "0x300"]
    by - (rule exI [of _ ?s], simp add: PAGE_SIZE_def)
qed

end
