(* ===== verification/Elf64.thy ===== *)
theory Elf64
  imports Phys_Mem Kernel_Math Log
begin

text \<open>
  The ELF loader, \<^verbatim>\<open>kernel/exec/elf64.c\<close> with the formats of \<^verbatim>\<open>elf64.h\<close>. The file system the
  loader reads from and the decisions of the kernel heap are arguments: \<open>fs\<close> answers
  \<^verbatim>\<open>vfs_stat\<close> and \<^verbatim>\<open>vfs_read\<close>, \<open>ok\<close> says which allocation requests succeed and \<open>junk\<close>
  what fresh memory holds. The heap itself is a map from live blocks to their bytes, so that
  a leak, a double free and a write outside a block are visible; the two last are faults.
  Numbers of the headers are natural numbers below the range of their field.
\<close>

section \<open>Formats\<close>

definition ELF64_PT_LOAD :: nat where "ELF64_PT_LOAD = 1"
definition ELF64_PT_DYNAMIC :: nat where "ELF64_PT_DYNAMIC = 2"
definition ELF64_PT_INTERP :: nat where "ELF64_PT_INTERP = 3"
definition ELF64_ET_EXEC :: nat where "ELF64_ET_EXEC = 2"
definition ELF64_ET_DYN :: nat where "ELF64_ET_DYN = 3"
definition ELF64_EM_X86_64 :: nat where "ELF64_EM_X86_64 = 62"
definition ELF64_PF_X :: u32 where "ELF64_PF_X = 1"
definition ELF64_PF_W :: u32 where "ELF64_PF_W = 2"
definition ELF64_PF_R :: u32 where "ELF64_PF_R = 4"
definition ELF64_RABBITBONE_USER_IMAGE_BASE :: nat where "ELF64_RABBITBONE_USER_IMAGE_BASE = 0x0000010000000000"
definition ELF64_RABBITBONE_USER_SPACE_LIMIT :: nat where "ELF64_RABBITBONE_USER_SPACE_LIMIT = 0x0000800000000000"

datatype elf_status_t =
  ELF_OK | ELF_ERR_IO | ELF_ERR_FORMAT | ELF_ERR_UNSUPPORTED | ELF_ERR_NOMEM | ELF_ERR_RANGE

record elf64_ehdr_t =
  e_ident :: bytes
  e_type' :: nat
  e_machine :: nat
  e_version :: nat
  e_entry :: nat
  e_phoff :: nat
  e_shoff :: nat
  e_flags :: nat
  e_ehsize :: nat
  e_phentsize :: nat
  e_phnum :: nat
  e_shentsize :: nat
  e_shnum :: nat
  e_shstrndx :: nat

record elf64_phdr_t =
  p_type :: nat
  p_flags :: u32
  p_offset :: nat
  p_vaddr :: nat
  p_paddr :: nat
  p_filesz :: nat
  p_memsz :: nat
  p_align :: nat

record elf_loaded_segment_t =
  sg_vaddr :: nat
  sg_memsz :: nat
  sg_filesz :: nat
  sg_flags :: u32
  sg_memory :: nat

text \<open>The segment array is the block it lies in and its elements; 0 and no elements for null.\<close>

record elf_loaded_image_t =
  im_entry :: nat
  im_segment_count :: nat
  im_segments :: nat
  im_segs :: "elf_loaded_segment_t list"

fun le_val :: "bytes \<Rightarrow> nat" where
  "le_val [] = 0"
| "le_val (b # bs) = unat b + 256 * le_val bs"

definition field :: "bytes \<Rightarrow> nat \<Rightarrow> nat \<Rightarrow> nat" where
  "field bs off n = le_val (take n (drop off bs))"

definition EHDR_SIZE :: nat where "EHDR_SIZE = 64"
definition PHDR_SIZE :: nat where "PHDR_SIZE = 56"
definition SEGMENT_SIZE :: nat where "SEGMENT_SIZE = 40"

definition ld_ehdr :: "bytes \<Rightarrow> elf64_ehdr_t" where
  "ld_ehdr bs = \<lparr>e_ident = take 16 bs, e_type' = field bs 16 2, e_machine = field bs 18 2, e_version = field bs 20 4,
     e_entry = field bs 24 8, e_phoff = field bs 32 8, e_shoff = field bs 40 8, e_flags = field bs 48 4,
     e_ehsize = field bs 52 2, e_phentsize = field bs 54 2, e_phnum = field bs 56 2, e_shentsize = field bs 58 2,
     e_shnum = field bs 60 2, e_shstrndx = field bs 62 2\<rparr>"

definition ld_phdr :: "bytes \<Rightarrow> nat \<Rightarrow> elf64_phdr_t" where
  "ld_phdr bs i = (let o' = i * PHDR_SIZE in
     \<lparr>p_type = field bs o' 4, p_flags = of_nat (field bs (o' + 4) 4), p_offset = field bs (o' + 8) 8,
      p_vaddr = field bs (o' + 16) 8, p_paddr = field bs (o' + 24) 8, p_filesz = field bs (o' + 32) 8,
      p_memsz = field bs (o' + 40) 8, p_align = field bs (o' + 48) 8\<rparr>)"

section \<open>Validation\<close>

definition elf_status_name :: "elf_status_t \<Rightarrow> bytes" where
  "elf_status_name es = (case es of
      ELF_OK \<Rightarrow> cbytes ''ok'' | ELF_ERR_IO \<Rightarrow> cbytes ''io'' | ELF_ERR_FORMAT \<Rightarrow> cbytes ''format''
    | ELF_ERR_UNSUPPORTED \<Rightarrow> cbytes ''unsupported'' | ELF_ERR_NOMEM \<Rightarrow> cbytes ''no-memory'' | ELF_ERR_RANGE \<Rightarrow> cbytes ''range'')"

definition elf64_is_power_of_two :: "u64 \<Rightarrow> bool" where
  "elf64_is_power_of_two v = (v \<noteq> 0 \<and> v AND (v - 1) = 0)"

definition elf64_congruent_mod_power2 :: "u64 \<Rightarrow> u64 \<Rightarrow> u64 \<Rightarrow> bool" where
  "elf64_congruent_mod_power2 a b md = (if md \<le> 1 then True else a AND (md - 1) = b AND (md - 1))"

definition elf64_ranges_overlap :: "nat \<Rightarrow> nat \<Rightarrow> nat \<Rightarrow> nat \<Rightarrow> bool" where
  "elf64_ranges_overlap a_start a_end b_start b_end = (a_start < b_end \<and> b_start < a_end)"

definition elf64_validate_load_segment :: "elf64_phdr_t option \<Rightarrow> nat \<Rightarrow> nat \<Rightarrow> nat \<Rightarrow> elf_status_t" where
  "elf64_validate_load_segment ph file_size user_min user_limit = (case ph of None \<Rightarrow> ELF_ERR_FORMAT | Some ph \<Rightarrow>
     if p_type ph \<noteq> ELF64_PT_LOAD then ELF_ERR_FORMAT
     else if p_filesz ph > p_memsz ph then ELF_ERR_FORMAT
     else if p_flags ph AND NOT (ELF64_PF_X OR ELF64_PF_W OR ELF64_PF_R) \<noteq> 0 then ELF_ERR_FORMAT
     else if p_flags ph AND ELF64_PF_X \<noteq> 0 \<and> p_flags ph AND ELF64_PF_W \<noteq> 0 then ELF_ERR_UNSUPPORTED
     else if p_align ph > 1 \<and> \<not> elf64_is_power_of_two (of_nat (p_align ph)) then ELF_ERR_FORMAT
     else if p_align ph > 1 \<and>
        \<not> elf64_congruent_mod_power2 (of_nat (p_vaddr ph)) (of_nat (p_offset ph)) (of_nat (p_align ph)) then ELF_ERR_FORMAT
     else case add_overflow (p_offset ph) (p_filesz ph) of None \<Rightarrow> ELF_ERR_RANGE | Some file_end \<Rightarrow>
       if file_end > file_size then ELF_ERR_RANGE
       else case add_overflow (p_vaddr ph) (p_memsz ph) of None \<Rightarrow> ELF_ERR_RANGE | Some mem_end \<Rightarrow>
         if p_memsz ph \<noteq> 0 \<and> (p_vaddr ph < user_min \<or> mem_end > user_limit) then ELF_ERR_RANGE
         else ELF_OK)"

definition elf64_validate_header :: "elf64_ehdr_t option \<Rightarrow> nat \<Rightarrow> elf_status_t" where
  "elf64_validate_header h file_size = (case h of None \<Rightarrow> ELF_ERR_FORMAT | Some h \<Rightarrow>
     if file_size < EHDR_SIZE then ELF_ERR_FORMAT
     else if e_ident h ! 0 \<noteq> 0x7f \<or> e_ident h ! 1 \<noteq> 0x45 \<or> e_ident h ! 2 \<noteq> 0x4c \<or> e_ident h ! 3 \<noteq> 0x46 then ELF_ERR_FORMAT
     else if e_ident h ! 4 \<noteq> 2 \<or> e_ident h ! 5 \<noteq> 1 \<or> e_ident h ! 6 \<noteq> 1 then ELF_ERR_UNSUPPORTED
     else if e_type' h \<noteq> ELF64_ET_EXEC \<and> e_type' h \<noteq> ELF64_ET_DYN then ELF_ERR_UNSUPPORTED
     else if e_flags h \<noteq> 0 then ELF_ERR_UNSUPPORTED
     else if e_machine h \<noteq> ELF64_EM_X86_64 then ELF_ERR_UNSUPPORTED
     else if e_version h \<noteq> 1 then ELF_ERR_FORMAT
     else if e_ehsize h \<noteq> EHDR_SIZE then ELF_ERR_FORMAT
     else if e_phentsize h \<noteq> PHDR_SIZE then ELF_ERR_FORMAT
     else if e_phnum h = 0 \<or> e_phnum h > 64 then ELF_ERR_FORMAT
     else if e_phoff h < EHDR_SIZE then ELF_ERR_FORMAT
     else case mul_overflow (e_phnum h) (e_phentsize h) of None \<Rightarrow> ELF_ERR_RANGE | Some ph_size \<Rightarrow>
       (case add_overflow (e_phoff h) ph_size of None \<Rightarrow> ELF_ERR_RANGE | Some ph_end \<Rightarrow>
          if ph_end > file_size then ELF_ERR_RANGE else ELF_OK))"

section \<open>Memory and files\<close>

record kheap =
  kh_next :: nat
  kh_blk :: "nat \<Rightarrow> bytes option"

record kalloc =
  ka_ok :: "nat \<Rightarrow> nat \<Rightarrow> bool"
  ka_junk :: "nat \<Rightarrow> u8"

text \<open>An allocation returns a fresh nonzero address or 0.\<close>

definition kmalloc :: "kalloc \<Rightarrow> nat \<Rightarrow> kheap \<Rightarrow> nat \<times> kheap" where
  "kmalloc ka n h =
     (if ka_ok ka (kh_next h) n
      then (Suc (kh_next h), h\<lparr>kh_next := Suc (kh_next h),
              kh_blk := (kh_blk h)(Suc (kh_next h) := Some (replicate n (ka_junk ka (kh_next h))))\<rparr>)
      else (0, h\<lparr>kh_next := Suc (kh_next h)\<rparr>))"

definition kcalloc :: "kalloc \<Rightarrow> nat \<Rightarrow> nat \<Rightarrow> kheap \<Rightarrow> nat \<times> kheap" where
  "kcalloc ka n sz h =
     (if ka_ok ka (kh_next h) (n * sz)
      then (Suc (kh_next h), h\<lparr>kh_next := Suc (kh_next h), kh_blk := (kh_blk h)(Suc (kh_next h) := Some (replicate (n * sz) 0))\<rparr>)
      else (0, h\<lparr>kh_next := Suc (kh_next h)\<rparr>))"

definition kfree :: "nat \<Rightarrow> kheap \<Rightarrow> kheap option" where
  "kfree p h = (if p = 0 then Some h else if kh_blk h p = None then None else Some (h\<lparr>kh_blk := (kh_blk h)(p := None)\<rparr>))"

text \<open>Writing bytes at the start of a block.\<close>

definition blk_write :: "nat \<Rightarrow> bytes \<Rightarrow> kheap \<Rightarrow> kheap option" where
  "blk_write p bs h = do {
     b \<leftarrow> kh_blk h p;
     b' \<leftarrow> copy_in b 0 bs;
     Some (h\<lparr>kh_blk := (kh_blk h)(p := Some b')\<rparr>) }"

record elf_fs =
  fs_stat :: "bytes \<Rightarrow> (nat \<times> bool) option"
  fs_read :: "bytes \<Rightarrow> nat \<Rightarrow> nat \<Rightarrow> bytes option"

text \<open>The bytes read, and whether the read was complete.\<close>

definition read_exact :: "elf_fs \<Rightarrow> bytes \<Rightarrow> nat \<Rightarrow> nat \<Rightarrow> elf_status_t \<times> bytes" where
  "read_exact fs path off n = (case fs_read fs path off n of
      None \<Rightarrow> (ELF_ERR_IO, [])
    | Some bs \<Rightarrow> (if length bs = n then ELF_OK else ELF_ERR_RANGE, bs))"

section \<open>Loading\<close>

definition zero_image :: elf_loaded_image_t where
  "zero_image = \<lparr>im_entry = 0, im_segment_count = 0, im_segments = 0, im_segs = []\<rparr>"

definition zero_segment :: elf_loaded_segment_t where
  "zero_segment = \<lparr>sg_vaddr = 0, sg_memsz = 0, sg_filesz = 0, sg_flags = 0, sg_memory = 0\<rparr>"

fun free_segments :: "elf_loaded_segment_t list \<Rightarrow> nat \<Rightarrow> nat \<Rightarrow> kheap \<Rightarrow> kheap option" where
  "free_segments segs i 0 h = Some h"
| "free_segments segs i (Suc n) h = do {
     s \<leftarrow> arr_get segs i;
     h \<leftarrow> kfree (sg_memory s) h;
     free_segments segs (Suc i) n h }"

definition elf64_free_image :: "elf_loaded_image_t option \<Rightarrow> kheap \<Rightarrow> (elf_loaded_image_t option \<times> kheap) option" where
  "elf64_free_image img h = (case img of None \<Rightarrow> Some (None, h) | Some im \<Rightarrow> do {
     h \<leftarrow> (if im_segments im \<noteq> 0 then do {
             h \<leftarrow> free_segments (im_segs im) 0 (im_segment_count im) h;
             kfree (im_segments im) h }
           else Some h);
     Some (Some zero_image, h) })"

text \<open>The number of loadable segments, or that a kind of segment is not supported.\<close>

fun count_load :: "bytes \<Rightarrow> nat \<Rightarrow> nat \<Rightarrow> nat \<Rightarrow> nat option" where
  "count_load ph i 0 load_count = Some load_count"
| "count_load ph i (Suc n) load_count = (let ptype = p_type (ld_phdr ph i) in
     if ptype = ELF64_PT_LOAD then count_load ph (Suc i) n (Suc load_count)
     else if ptype = ELF64_PT_INTERP \<or> ptype = ELF64_PT_DYNAMIC then None
     else count_load ph (Suc i) n load_count)"

record load_t =
  l_starts :: "nat list"
  l_ends :: "nat list"
  l_count :: nat
  l_seg_index :: nat
  l_entry_ok :: bool

fun overlaps_loaded :: "load_t \<Rightarrow> nat \<Rightarrow> nat \<Rightarrow> nat \<Rightarrow> nat \<Rightarrow> bool option" where
  "overlaps_loaded l vaddr mem_end j 0 = Some False"
| "overlaps_loaded l vaddr mem_end j (Suc n) = do {
     a \<leftarrow> arr_get (l_starts l) j;
     b \<leftarrow> arr_get (l_ends l) j;
     if elf64_ranges_overlap vaddr mem_end a b then Some True else overlaps_loaded l vaddr mem_end (Suc j) n }"

text \<open>One loadable segment; the status is not \<open>ELF_OK\<close> where the code jumps to \<^verbatim>\<open>fail\<close>.\<close>

definition load_segment :: "elf_fs \<Rightarrow> kalloc \<Rightarrow> bytes \<Rightarrow> nat \<Rightarrow> elf64_phdr_t \<Rightarrow> elf_loaded_image_t \<Rightarrow> load_t \<Rightarrow> kheap \<Rightarrow>
    (elf_status_t \<times> elf_loaded_image_t \<times> load_t \<times> kheap) option" where
  "load_segment fs ka path file_size ph out l h =
     (let es = elf64_validate_load_segment (Some ph) file_size ELF64_RABBITBONE_USER_IMAGE_BASE ELF64_RABBITBONE_USER_SPACE_LIMIT in
      if es \<noteq> ELF_OK then Some (es, out, l, h)
      else let vaddr = p_vaddr ph; memsz = p_memsz ph; filesz = p_filesz ph; mem_end = add64 vaddr memsz in
      if memsz = 0 \<or> memsz > 64 * 1024 * 1024 then Some (ELF_ERR_UNSUPPORTED, out, l, h)
      else do {
        let l = (if p_flags ph AND ELF64_PF_X \<noteq> 0 \<and> im_entry out \<ge> vaddr \<and> im_entry out < mem_end
                 then l\<lparr>l_entry_ok := True\<rparr> else l);
        ov \<leftarrow> overlaps_loaded l vaddr mem_end 0 (l_count l);
        if ov then Some (ELF_ERR_FORMAT, out, l, h)
        else do {
          ss \<leftarrow> arr_set (l_starts l) (l_count l) vaddr;
          ends \<leftarrow> arr_set (l_ends l) (l_count l) mem_end;
          let l = l\<lparr>l_starts := ss, l_ends := ends, l_count := l_count l + 1\<rparr>;
          let (mem, h) = kmalloc ka memsz h;
          if mem = 0 then Some (ELF_ERR_NOMEM, out, l, h)
          else do {
            h \<leftarrow> blk_write mem (replicate memsz 0) h;
            (es, h) \<leftarrow> (if filesz \<noteq> 0 then do {
                          let (es, bs) = read_exact fs path (p_offset ph) filesz;
                          h \<leftarrow> blk_write mem bs h;
                          if es \<noteq> ELF_OK then do { h \<leftarrow> kfree mem h; Some (es, h) } else Some (es, h) }
                        else Some (ELF_OK, h));
            if es \<noteq> ELF_OK then Some (es, out, l, h)
            else do {
              segs \<leftarrow> arr_set (im_segs out) (l_seg_index l)
                 \<lparr>sg_vaddr = vaddr, sg_memsz = memsz, sg_filesz = filesz, sg_flags = p_flags ph, sg_memory = mem\<rparr>;
              Some (ELF_OK, out\<lparr>im_segs := segs\<rparr>, l\<lparr>l_seg_index := l_seg_index l + 1\<rparr>, h) } } } })"

fun load_segments :: "elf_fs \<Rightarrow> kalloc \<Rightarrow> bytes \<Rightarrow> nat \<Rightarrow> bytes \<Rightarrow> nat \<Rightarrow> nat \<Rightarrow> elf_loaded_image_t \<Rightarrow> load_t \<Rightarrow> kheap \<Rightarrow>
    (elf_status_t \<times> elf_loaded_image_t \<times> load_t \<times> kheap) option" where
  "load_segments fs ka path file_size ph i 0 out l h = Some (ELF_OK, out, l, h)"
| "load_segments fs ka path file_size ph i (Suc n) out l h =
     (if p_type (ld_phdr ph i) \<noteq> ELF64_PT_LOAD then load_segments fs ka path file_size ph (Suc i) n out l h
      else do {
        (es, out, l, h) \<leftarrow> load_segment fs ka path file_size (ld_phdr ph i) out l h;
        if es \<noteq> ELF_OK then Some (es, out, l, h)
        else load_segments fs ka path file_size ph (Suc i) n out l h })"

text \<open>From the point where the program headers are in memory; \<open>php\<close> is their block.\<close>

definition load_image :: "elf_fs \<Rightarrow> kalloc \<Rightarrow> bytes \<Rightarrow> nat \<Rightarrow> elf64_ehdr_t \<Rightarrow> nat \<Rightarrow> bytes \<Rightarrow> kheap \<Rightarrow>
    (elf_status_t \<times> elf_loaded_image_t \<times> kheap) option" where
  "load_image fs ka path file_size eh php ph h =
     (case count_load ph 0 (e_phnum eh) 0 of
        None \<Rightarrow> do { h \<leftarrow> kfree php h; Some (ELF_ERR_UNSUPPORTED, zero_image, h) }
      | Some load_count \<Rightarrow>
          if load_count = 0 then do { h \<leftarrow> kfree php h; Some (ELF_ERR_FORMAT, zero_image, h) }
          else do {
            let (sp, h) = kcalloc ka load_count SEGMENT_SIZE h;
            if sp = 0 then do { h \<leftarrow> kfree php h; Some (ELF_ERR_NOMEM, zero_image, h) }
            else do {
              let out = \<lparr>im_entry = e_entry eh, im_segment_count = load_count, im_segments = sp, im_segs = replicate load_count zero_segment\<rparr>;
              (es, out, l, h) \<leftarrow> load_segments fs ka path file_size ph 0 (e_phnum eh) out
                 \<lparr>l_starts = replicate 64 0, l_ends = replicate 64 0, l_count = 0, l_seg_index = 0, l_entry_ok = False\<rparr> h;
              let es = (if es = ELF_OK \<and> \<not> l_entry_ok l then ELF_ERR_FORMAT else es);
              if es \<noteq> ELF_OK then do {
                h \<leftarrow> kfree php h;
                (out, h) \<leftarrow> elf64_free_image (Some out) h;
                out \<leftarrow> out;
                Some (es, out, h) }
              else do { h \<leftarrow> kfree php h; Some (ELF_OK, out, h) } } })"

definition elf64_load_from_vfs :: "elf_fs \<Rightarrow> kalloc \<Rightarrow> bytes option \<Rightarrow> elf_loaded_image_t option \<Rightarrow> kheap \<Rightarrow>
    (elf_status_t \<times> elf_loaded_image_t option \<times> kheap \<times> klog_call list) option" where
  "elf64_load_from_vfs fs ka path out h = (case (path, out) of
     (Some path, Some _) \<Rightarrow>
       (let fail = (\<lambda>es h. Some (es, Some zero_image, h, [])) in
        case fs_stat fs path of None \<Rightarrow> fail ELF_ERR_IO h | Some (file_size, is_file) \<Rightarrow>
        if \<not> is_file then fail ELF_ERR_IO h
        else if file_size > 64 * 1024 * 1024 then fail ELF_ERR_UNSUPPORTED h
        else let (es, bs) = read_exact fs path 0 EHDR_SIZE in
        if length bs > EHDR_SIZE then None
        else if es \<noteq> ELF_OK then fail es h
        else let eh = ld_ehdr bs; es = elf64_validate_header (Some eh) file_size in
        if es \<noteq> ELF_OK then fail es h
        else if e_type' eh \<noteq> ELF64_ET_EXEC then fail ELF_ERR_UNSUPPORTED h
        else if e_entry eh < ELF64_RABBITBONE_USER_IMAGE_BASE \<or> e_entry eh \<ge> ELF64_RABBITBONE_USER_SPACE_LIMIT
        then fail ELF_ERR_RANGE h
        else let (php, h) = kcalloc ka (e_phnum eh) PHDR_SIZE h in
        if php = 0 then fail ELF_ERR_NOMEM h
        else let (es, bs) = read_exact fs path (e_phoff eh) (e_phnum eh * PHDR_SIZE) in
        do {
          h \<leftarrow> blk_write php bs h;
          if es \<noteq> ELF_OK then do { h \<leftarrow> kfree php h; fail es h }
          else do {
            (es, out, h) \<leftarrow> load_image fs ka path file_size eh php bs h;
            Some (es, Some out, h,
              if es = ELF_OK then [(LOG_INFO, cbytes ''elf'', cbytes ''loaded %s entry=%p segments=%u'',
                [VStr (Some path), VNum (of_nat (im_entry out)), VNum (of_nat (im_segment_count out))])] else []) } })
   | _ \<Rightarrow> Some (ELF_ERR_FORMAT, out, h, []))"

section \<open>The allocator and the file system as the loader sees them\<close>

text \<open>A read never returns more bytes than were asked for, the contract of \<^verbatim>\<open>vfs_read\<close>.\<close>

definition fs_ok :: "elf_fs \<Rightarrow> bool" where
  "fs_ok fs = (\<forall>p off n bs. fs_read fs p off n = Some bs \<longrightarrow> length bs \<le> n)"

definition heap_ok :: "kheap \<Rightarrow> bool" where
  "heap_ok h = (\<forall>p. kh_blk h p \<noteq> None \<longrightarrow> 0 < p \<and> p \<le> kh_next h)"

definition phdrs :: "bytes \<Rightarrow> nat \<Rightarrow> nat \<Rightarrow> elf64_phdr_t list" where
  "phdrs ph i n = filter (\<lambda>p. p_type p = ELF64_PT_LOAD) (map (ld_phdr ph) [i..<i + n])"

definition seg_end :: "elf_loaded_segment_t \<Rightarrow> nat" where
  "seg_end s = sg_vaddr s + sg_memsz s"

definition seg_disjoint :: "elf_loaded_segment_t \<Rightarrow> elf_loaded_segment_t \<Rightarrow> bool" where
  "seg_disjoint a b = (seg_end a \<le> sg_vaddr b \<or> seg_end b \<le> sg_vaddr a)"

definition seg_safe :: "elf_loaded_segment_t \<Rightarrow> bool" where
  "seg_safe s = (ELF64_RABBITBONE_USER_IMAGE_BASE \<le> sg_vaddr s \<and> seg_end s \<le> ELF64_RABBITBONE_USER_SPACE_LIMIT \<and>
     0 < sg_memsz s \<and> sg_memsz s \<le> 64 * 1024 * 1024 \<and> sg_filesz s \<le> sg_memsz s \<and>
     (sg_flags s AND ELF64_PF_X = 0 \<or> sg_flags s AND ELF64_PF_W = 0))"

definition seg_holds :: "elf_loaded_segment_t \<Rightarrow> nat \<Rightarrow> bool" where
  "seg_holds s entry = (sg_flags s AND ELF64_PF_X \<noteq> 0 \<and> sg_vaddr s \<le> entry \<and> entry < seg_end s)"

text \<open>The bytes of a segment: those of the file, then zeros.\<close>

definition seg_bytes :: "elf_fs \<Rightarrow> bytes \<Rightarrow> elf64_phdr_t \<Rightarrow> bytes" where
  "seg_bytes fs path ph =
     (if p_filesz ph = 0 then [] else the (fs_read fs path (p_offset ph) (p_filesz ph))) @
     replicate (p_memsz ph - p_filesz ph) 0"

definition seg_from :: "elf_fs \<Rightarrow> bytes \<Rightarrow> nat \<Rightarrow> kheap \<Rightarrow> elf64_phdr_t \<Rightarrow> elf_loaded_segment_t \<Rightarrow> bool" where
  "seg_from fs path file_size h ph s = (sg_vaddr s = p_vaddr ph \<and> sg_memsz s = p_memsz ph \<and> sg_filesz s = p_filesz ph \<and>
     sg_flags s = p_flags ph \<and> p_offset ph + p_filesz ph \<le> file_size \<and>
     kh_blk h (sg_memory s) = Some (seg_bytes fs path ph) \<and> length (seg_bytes fs path ph) = p_memsz ph)"

lemma fs_okD: "fs_ok fs \<Longrightarrow> fs_read fs p off n = Some bs \<Longrightarrow> length bs \<le> n"
  by (auto simp: fs_ok_def)

lemma heap_okD: "heap_ok h \<Longrightarrow> kh_blk h p = Some b \<Longrightarrow> 0 < p \<and> p \<le> kh_next h"
  by (auto simp: heap_ok_def)

lemma heap_ok_fresh: "heap_ok h \<Longrightarrow> kh_blk h (Suc (kh_next h)) = None"
  by (metis heap_okD not_less_eq_eq order_refl option.exhaust)

lemma heap_ok_next [simp]: "heap_ok h \<Longrightarrow> heap_ok (h\<lparr>kh_next := Suc (kh_next h)\<rparr>)"
  by (auto simp: heap_ok_def intro: le_SucI)

lemma kfree_live: "kh_blk h p = Some b \<Longrightarrow> p \<noteq> 0 \<Longrightarrow> kfree p h = Some (h\<lparr>kh_blk := (kh_blk h)(p := None)\<rparr>)"
  by (simp add: kfree_def)

lemma kfree_null [simp]: "kfree 0 h = Some h"
  by (simp add: kfree_def)

lemma blk_write_Some:
  "kh_blk h p = Some b \<Longrightarrow> length bs \<le> length b \<Longrightarrow>
   blk_write p bs h = Some (h\<lparr>kh_blk := (kh_blk h)(p := Some (bs @ drop (length bs) b))\<rparr>)"
  by (simp add: blk_write_def copy_in_def blit_def)

section \<open>Freeing\<close>

lemma free_segments_live:
  "distinct (map sg_memory xs) \<Longrightarrow> \<forall>s\<in>set xs. sg_memory s \<noteq> 0 \<and> kh_blk h (sg_memory s) \<noteq> None \<Longrightarrow>
   free_segments (pre @ xs @ replicate m zero_segment) (length pre) (length xs + m) h =
     Some (h\<lparr>kh_blk := (\<lambda>p. if p \<in> sg_memory ` set xs then None else kh_blk h p)\<rparr>)"
proof (induction xs arbitrary: pre h)
  case Nil
  have "free_segments (pre @ replicate m zero_segment) (length pre) m h = Some h" for pre
  proof (induction m arbitrary: pre)
    case (Suc m)
    show ?case using Suc.IH [of "pre @ [zero_segment]"] by (simp add: zero_segment_def)
  qed simp
  then show ?case by simp
next
  case (Cons s xs)
  obtain b where b: "kh_blk h (sg_memory s) = Some b" "sg_memory s \<noteq> 0" using Cons.prems(2) by auto
  let ?h = "h\<lparr>kh_blk := (kh_blk h)(sg_memory s := None)\<rparr>"
  have "free_segments ((pre @ [s]) @ xs @ replicate m zero_segment) (length (pre @ [s])) (length xs + m) ?h =
     Some (?h\<lparr>kh_blk := (\<lambda>p. if p \<in> sg_memory ` set xs then None else kh_blk ?h p)\<rparr>)"
    by (rule Cons.IH) (use Cons.prems in \<open>auto simp: image_iff eq_commute [of "sg_memory s"]\<close>)
  moreover have "(\<lambda>p. if p \<in> sg_memory ` set xs then None else kh_blk ?h p) =
     (\<lambda>p. if p \<in> sg_memory ` set (s # xs) then None else kh_blk h p)"
    by auto
  ultimately show ?case using kfree_live [OF b] by simp
qed

text \<open>What the image owns: the block of the segment array and the block of each segment loaded so far.\<close>

definition owns :: "elf_loaded_image_t \<Rightarrow> elf_loaded_segment_t list \<Rightarrow> (nat \<Rightarrow> bytes option) \<Rightarrow> kheap \<Rightarrow> bool" where
  "owns out xs blk h = (
     im_segs out = xs @ replicate (im_segment_count out - length xs) zero_segment \<and> length xs \<le> im_segment_count out \<and>
     im_segments out \<noteq> 0 \<and> kh_blk h (im_segments out) \<noteq> None \<and> blk (im_segments out) = None \<and>
     distinct (im_segments out # map sg_memory xs) \<and>
     (\<forall>s\<in>set xs. sg_memory s \<noteq> 0 \<and> kh_blk h (sg_memory s) \<noteq> None \<and> blk (sg_memory s) = None) \<and>
     (\<forall>p. p \<noteq> im_segments out \<and> p \<notin> sg_memory ` set xs \<longrightarrow> kh_blk h p = blk p))"

lemma free_owned_blocks:
  assumes "owns out xs blk h"
  shows "elf64_free_image (Some out) h = Some (Some zero_image, h\<lparr>kh_blk := blk\<rparr>)"
proof -
  let ?n = "im_segment_count out" and ?sp = "im_segments out"
  let ?h = "h\<lparr>kh_blk := (\<lambda>p. if p \<in> sg_memory ` set xs then None else kh_blk h p)\<rparr>"
  have xs: "im_segs out = [] @ xs @ replicate (?n - length xs) zero_segment" and n: "?n = length xs + (?n - length xs)"
    and d: "distinct (map sg_memory xs)" "?sp \<notin> sg_memory ` set xs"
    and live: "\<forall>s\<in>set xs. sg_memory s \<noteq> 0 \<and> kh_blk h (sg_memory s) \<noteq> None"
    and sp: "?sp \<noteq> 0" "kh_blk h ?sp \<noteq> None"
    using assms unfolding owns_def by auto
  have f: "free_segments (im_segs out) 0 ?n h = Some ?h"
    using free_segments_live [OF d(1) live, of "[]" "?n - length xs"] xs n by simp
  have k: "kfree ?sp ?h = Some (?h\<lparr>kh_blk := (kh_blk ?h)(?sp := None)\<rparr>)"
    using sp d(2) by (simp add: kfree_def)
  have b: "(\<lambda>p. if p \<in> sg_memory ` set xs then None else kh_blk h p)(?sp := None) = blk"
    using assms unfolding owns_def by (auto simp: fun_eq_iff)
  show ?thesis using sp(1) unfolding elf64_free_image_def by (simp add: f k b del: fun_upd_apply)
qed

section \<open>Loading one segment\<close>

lemma validate_load_segment_OK:
  assumes "elf64_validate_load_segment (Some ph) fsz lo hi = ELF_OK"
  shows "p_filesz ph \<le> p_memsz ph" "p_flags ph AND ELF64_PF_X = 0 \<or> p_flags ph AND ELF64_PF_W = 0"
    "p_offset ph + p_filesz ph \<le> fsz" "p_vaddr ph + p_memsz ph \<le> U64_MAX"
    "p_memsz ph \<noteq> 0 \<Longrightarrow> lo \<le> p_vaddr ph \<and> p_vaddr ph + p_memsz ph \<le> hi"
  using assms by (auto simp: elf64_validate_load_segment_def ovf split: if_splits option.splits)

lemma overlaps_loaded_Some:
  "j + n \<le> length (l_starts l) \<Longrightarrow> j + n \<le> length (l_ends l) \<Longrightarrow>
   overlaps_loaded l v e j n = Some (\<exists>k\<in>{j..<j + n}. v < l_ends l ! k \<and> l_starts l ! k < e)"
proof (induction n arbitrary: j)
  case (Suc n)
  have "{j..<j + Suc n} = insert j {Suc j..<Suc j + n}" by auto
  then show ?case using Suc.prems Suc.IH [of "Suc j"] by (auto simp: elf64_ranges_overlap_def)
qed simp

definition load_inv :: "elf_fs \<Rightarrow> bytes \<Rightarrow> nat \<Rightarrow> elf64_phdr_t list \<Rightarrow> elf_loaded_segment_t list \<Rightarrow> elf_loaded_image_t \<Rightarrow> load_t \<Rightarrow>
    (nat \<Rightarrow> bytes option) \<Rightarrow> kheap \<Rightarrow> bool" where
  "load_inv fs path file_size phs xs out l blk h = (owns out xs blk h \<and> heap_ok h \<and>
     l_count l = length xs \<and> l_seg_index l = length xs \<and> length (l_starts l) = 64 \<and> length (l_ends l) = 64 \<and>
     take (length xs) (l_starts l) = map sg_vaddr xs \<and> take (length xs) (l_ends l) = map seg_end xs \<and>
     list_all2 (seg_from fs path file_size h) phs xs \<and> sorted_wrt seg_disjoint xs \<and> (\<forall>s\<in>set xs. seg_safe s) \<and>
     l_entry_ok l = (\<exists>s\<in>set xs. seg_holds s (im_entry out)))"

lemma load_inv_nth:
  assumes "load_inv fs path file_size phs xs out l blk h" "k < length xs"
  shows "l_starts l ! k = sg_vaddr (xs ! k)" "l_ends l ! k = seg_end (xs ! k)"
  using assms unfolding load_inv_def by (metis length_map nth_map nth_take)+

lemma load_inv_overlaps:
  assumes "load_inv fs path file_size phs xs out l blk h" "length xs < 64"
  shows "overlaps_loaded (l\<lparr>l_entry_ok := b\<rparr>) v e 0 (l_count l) = Some (\<exists>s\<in>set xs. v < seg_end s \<and> sg_vaddr s < e)"
proof -
  have "overlaps_loaded (l\<lparr>l_entry_ok := b\<rparr>) v e 0 (l_count l) =
     Some (\<exists>k\<in>{0..<0 + length xs}. v < l_ends l ! k \<and> l_starts l ! k < e)"
    using assms overlaps_loaded_Some [of 0 "length xs" "l\<lparr>l_entry_ok := b\<rparr>"] unfolding load_inv_def by simp
  also have "(\<exists>k\<in>{0..<0 + length xs}. v < l_ends l ! k \<and> l_starts l ! k < e) = (\<exists>s\<in>set xs. v < seg_end s \<and> sg_vaddr s < e)"
    using load_inv_nth [OF assms(1)] by (simp add: Bex_def in_set_conv_nth) (metis (no_types, lifting))
  finally show ?thesis .
qed

lemma owns_fresh:
  assumes "owns out xs blk h" "kh_blk h p = None"
  shows "p \<noteq> im_segments out" "p \<notin> sg_memory ` set xs" "blk p = None"
proof -
  show a: "p \<noteq> im_segments out" using assms unfolding owns_def by auto
  show b: "p \<notin> sg_memory ` set xs" using assms unfolding owns_def by auto
  show "blk p = None" using assms a b unfolding owns_def by metis
qed

lemma owns_next: "owns out xs blk h \<Longrightarrow> owns out xs blk (h\<lparr>kh_next := n\<rparr>)"
  by (simp add: owns_def)

lemma owns_add:
  assumes "owns out xs blk h" "kh_blk h (sg_memory s) = None" "sg_memory s \<noteq> 0" "length xs < im_segment_count out"
  shows "owns (out\<lparr>im_segs := (im_segs out)[length xs := s]\<rparr>) (xs @ [s]) blk
     (h\<lparr>kh_next := n, kh_blk := (kh_blk h)(sg_memory s := Some b)\<rparr>)"
proof -
  obtain m where m: "im_segment_count out - length xs = Suc m" using assms(4) by (metis Suc_diff_Suc)
  then have "im_segment_count out - Suc (length xs) = m" by simp
  with m show ?thesis using assms owns_fresh [OF assms(1,2)] unfolding owns_def
    by (auto simp: list_update_append)
qed

lemma seg_from_keep:
  assumes "list_all2 (seg_from fs path file_size h) phs xs" "p \<notin> sg_memory ` set xs"
  shows "list_all2 (seg_from fs path file_size (h\<lparr>kh_next := n, kh_blk := (kh_blk h)(p := b)\<rparr>)) phs xs"
  by (rule list.rel_mono_strong [OF assms(1)]) (use assms(2) in \<open>auto simp: seg_from_def\<close>)

lemma load_inv_add:
  assumes inv: "load_inv fs path file_size phs xs out l blk h" and n: "length xs < im_segment_count out" "length xs < 64"
    and f: "seg_from fs path file_size (h\<lparr>kh_next := k, kh_blk := (kh_blk h)(sg_memory s := Some b)\<rparr>) ph s"
    and s: "seg_safe s" "kh_blk h (sg_memory s) = None" "0 < sg_memory s" "sg_memory s \<le> k" "kh_next h \<le> k"
    and d: "\<not> (\<exists>t\<in>set xs. sg_vaddr s < seg_end t \<and> sg_vaddr t < seg_end s)"
    and e: "en = (l_entry_ok l \<or> seg_holds s (im_entry out))"
  shows "load_inv fs path file_size (phs @ [ph]) (xs @ [s]) (out\<lparr>im_segs := (im_segs out)[length xs := s]\<rparr>)
     \<lparr>l_starts = (l_starts l)[length xs := sg_vaddr s], l_ends = (l_ends l)[length xs := seg_end s],
      l_count = Suc (length xs), l_seg_index = Suc (length xs), l_entry_ok = en\<rparr> blk
     (h\<lparr>kh_next := k, kh_blk := (kh_blk h)(sg_memory s := Some b)\<rparr>)"
proof -
  let ?h = "h\<lparr>kh_next := k, kh_blk := (kh_blk h)(sg_memory s := Some b)\<rparr>"
  have o: "owns out xs blk h" and l2: "list_all2 (seg_from fs path file_size h) phs xs" and hk: "heap_ok h"
    using inv unfolding load_inv_def by simp_all
  have "heap_ok ?h" using hk s unfolding heap_ok_def by (auto intro: order_trans)
  moreover have "list_all2 (seg_from fs path file_size ?h) (phs @ [ph]) (xs @ [s])"
    using seg_from_keep [OF l2 owns_fresh(2) [OF o s(2)]] f by (simp add: list_all2_appendI)
  moreover have "sorted_wrt seg_disjoint (xs @ [s])"
    using inv d unfolding load_inv_def by (auto simp: sorted_wrt_append seg_disjoint_def not_less)
  moreover have "owns (out\<lparr>im_segs := (im_segs out)[length xs := s]\<rparr>) (xs @ [s]) blk ?h"
    by (rule owns_add [OF o s(2) _ n(1)]) (use s(3) in simp)
  moreover have "take (Suc (length xs)) (ys[length xs := v]) = take (length xs) ys @ [v]" if "length ys = 64" for ys :: "nat list" and v
    using n(2) that by (simp add: take_Suc_conv_app_nth)
  ultimately show ?thesis using inv s(1) e unfolding load_inv_def by auto
qed

definition new_seg :: "elf64_phdr_t \<Rightarrow> nat \<Rightarrow> elf_loaded_segment_t" where
  "new_seg ph mem = \<lparr>sg_vaddr = p_vaddr ph, sg_memsz = p_memsz ph, sg_filesz = p_filesz ph, sg_flags = p_flags ph, sg_memory = mem\<rparr>"

definition clashes :: "elf64_phdr_t \<Rightarrow> elf_loaded_segment_t list \<Rightarrow> bool" where
  "clashes ph xs = (\<exists>s\<in>set xs. p_vaddr ph < seg_end s \<and> sg_vaddr s < p_vaddr ph + p_memsz ph)"

definition seg_valid :: "elf64_phdr_t \<Rightarrow> nat \<Rightarrow> bool" where
  "seg_valid ph file_size =
     (elf64_validate_load_segment (Some ph) file_size ELF64_RABBITBONE_USER_IMAGE_BASE ELF64_RABBITBONE_USER_SPACE_LIMIT = ELF_OK \<and>
      p_memsz ph \<noteq> 0 \<and> p_memsz ph \<le> 64 * 1024 * 1024)"

text \<open>The bookkeeping of the loader after the range of a segment has been recorded.\<close>

definition recorded :: "elf64_phdr_t \<Rightarrow> nat \<Rightarrow> nat \<Rightarrow> load_t \<Rightarrow> load_t" where
  "recorded ph entry k l = l\<lparr>l_entry_ok := l_entry_ok l \<or> seg_holds (new_seg ph 0) entry,
     l_starts := (l_starts l)[k := p_vaddr ph], l_ends := (l_ends l)[k := p_vaddr ph + p_memsz ph], l_count := Suc k\<rparr>"

lemma load_segment_head:
  assumes inv: "load_inv fs path file_size phs xs out l blk h" and n: "length xs < im_segment_count out" "length xs < 64"
    and ok: "seg_valid ph file_size" and c: "\<not> clashes ph xs"
  shows "load_segment fs ka path file_size ph out l h =
     (let (mem, h) = kmalloc ka (p_memsz ph) h in
      if mem = 0 then Some (ELF_ERR_NOMEM, out, recorded ph (im_entry out) (length xs) l, h)
      else do {
        h \<leftarrow> blk_write mem (replicate (p_memsz ph) 0) h;
        (es, h) \<leftarrow> (if p_filesz ph \<noteq> 0 then do {
                      let (es, bs) = read_exact fs path (p_offset ph) (p_filesz ph);
                      h \<leftarrow> blk_write mem bs h;
                      if es \<noteq> ELF_OK then do { h \<leftarrow> kfree mem h; Some (es, h) } else Some (es, h) }
                    else Some (ELF_OK, h));
        if es \<noteq> ELF_OK then Some (es, out, recorded ph (im_entry out) (length xs) l, h)
        else Some (ELF_OK, out\<lparr>im_segs := (im_segs out)[length xs := new_seg ph mem]\<rparr>,
               (recorded ph (im_entry out) (length xs) l)\<lparr>l_seg_index := Suc (length xs)\<rparr>, h) })"
proof -
  let ?v = "p_vaddr ph" and ?e = "p_vaddr ph + p_memsz ph"
  let ?l = "l\<lparr>l_entry_ok := l_entry_ok l \<or> (p_flags ph AND ELF64_PF_X \<noteq> 0 \<and> ?v \<le> im_entry out \<and> im_entry out < ?e)\<rparr>"
  have len: "length (im_segs out) = im_segment_count out"
    and cnt: "l_count l = length xs" "l_seg_index l = length xs" "length (l_starts l) = 64" "length (l_ends l) = 64"
    using inv unfolding load_inv_def owns_def by simp_all
  have add: "add64 ?v (p_memsz ph) = ?e" using ok validate_load_segment_OK(4) by (auto simp: seg_valid_def)
  have ov: "overlaps_loaded ?l ?v ?e 0 (l_count l) = Some False"
    by (rule trans [OF load_inv_overlaps [OF inv n(2)]]) (use c in \<open>simp add: clashes_def\<close>)
  have ent: "(if p_flags ph AND ELF64_PF_X \<noteq> 0 \<and> im_entry out \<ge> ?v \<and> im_entry out < ?e then l\<lparr>l_entry_ok := True\<rparr> else l) = ?l"
    by auto
  show ?thesis
    using ok n cnt len ov ent unfolding load_segment_def seg_valid_def
    by (simp add: Let_def add recorded_def seg_holds_def new_seg_def seg_end_def cong: if_cong)
qed

lemma load_segment_refused:
  assumes inv: "load_inv fs path file_size phs xs out l blk h" and n: "length xs < 64"
    and bad: "\<not> seg_valid ph file_size \<or> clashes ph xs"
  shows "\<exists>es l'. load_segment fs ka path file_size ph out l h = Some (es, out, l', h) \<and> es \<noteq> ELF_OK"
proof (cases "seg_valid ph file_size")
  case False
  then show ?thesis by (auto simp: load_segment_def Let_def seg_valid_def)
next
  case True
  have add: "add64 (p_vaddr ph) (p_memsz ph) = p_vaddr ph + p_memsz ph"
    using True validate_load_segment_OK(4) by (auto simp: seg_valid_def)
  have "overlaps_loaded (l\<lparr>l_entry_ok := b\<rparr>) (p_vaddr ph) (p_vaddr ph + p_memsz ph) 0 (l_count l) = Some True" for b
    by (rule trans [OF load_inv_overlaps [OF inv n]]) (use bad True in \<open>simp add: clashes_def\<close>)
  from this [of True] this [of "l_entry_ok l"]
  have "overlaps_loaded (if c then l\<lparr>l_entry_ok := True\<rparr> else l) (p_vaddr ph) (p_vaddr ph + p_memsz ph) 0
     (l_count (if c then l\<lparr>l_entry_ok := True\<rparr> else l)) = Some True" for c
    by (cases c) simp_all
  then show ?thesis using True add unfolding load_segment_def seg_valid_def by (simp add: Let_def del: if_split)
qed

lemma load_inv_commit:
  assumes inv: "load_inv fs path file_size phs xs out l blk h" and n: "length xs < im_segment_count out" "length xs < 64"
    and ok: "seg_valid ph file_size" and c: "\<not> clashes ph xs" and b: "length (seg_bytes fs path ph) = p_memsz ph"
  shows "load_inv fs path file_size (phs @ [ph]) (xs @ [new_seg ph (Suc (kh_next h))])
     (out\<lparr>im_segs := (im_segs out)[length xs := new_seg ph (Suc (kh_next h))]\<rparr>)
     ((recorded ph (im_entry out) (length xs) l)\<lparr>l_seg_index := Suc (length xs)\<rparr>) blk
     (h\<lparr>kh_next := Suc (kh_next h), kh_blk := (kh_blk h)(Suc (kh_next h) := Some (seg_bytes fs path ph))\<rparr>)"
proof -
  note v = validate_load_segment_OK [of ph file_size ELF64_RABBITBONE_USER_IMAGE_BASE ELF64_RABBITBONE_USER_SPACE_LIMIT]
  have "heap_ok h" using inv by (simp add: load_inv_def)
  note fresh = heap_ok_fresh [OF this]
  have "seg_safe (new_seg ph (Suc (kh_next h)))" using ok v by (auto simp: seg_valid_def seg_safe_def seg_end_def new_seg_def)
  with load_inv_add [OF inv n, where k = "Suc (kh_next h)" and s = "new_seg ph (Suc (kh_next h))" and b = "seg_bytes fs path ph" and ph = ph]
  show ?thesis using fresh c b ok v unfolding clashes_def
    by (cases l) (simp add: seg_end_def seg_holds_def seg_from_def new_seg_def recorded_def seg_valid_def)
qed

lemma load_segment_step:
  assumes inv: "load_inv fs path file_size phs xs out l blk h" and fs: "fs_ok fs"
    and n: "length xs < im_segment_count out" "length xs < 64"
  shows "\<exists>es out' l' h'. load_segment fs ka path file_size ph out l h = Some (es, out', l', h') \<and> heap_ok h' \<and>
     (es \<noteq> ELF_OK \<longrightarrow> out' = out \<and> owns out xs blk h') \<and>
     (es = ELF_OK \<longrightarrow> (\<exists>s. out' = out\<lparr>im_segs := (im_segs out)[length xs := s]\<rparr> \<and>
        load_inv fs path file_size (phs @ [ph]) (xs @ [s]) out' l' blk h'))"
proof (cases "seg_valid ph file_size \<and> \<not> clashes ph xs")
  case False
  then show ?thesis using load_segment_refused [OF inv n(2)] inv unfolding load_inv_def by fastforce
next
  case ok: True
  let ?p = "Suc (kh_next h)" and ?f = "p_filesz ph" and ?rd = "fs_read fs path (p_offset ph) (p_filesz ph)"
  let ?h = "\<lambda>b. h\<lparr>kh_next := ?p, kh_blk := (kh_blk h)(?p := b)\<rparr>"
  have o: "owns out xs blk h" and hk: "heap_ok h" using inv unfolding load_inv_def by simp_all
  have fm: "?f \<le> p_memsz ph" using ok validate_load_segment_OK(1) by (auto simp: seg_valid_def)
  note head = load_segment_head [OF inv n conjunct1 [OF ok] conjunct2 [OF ok], of ka]
  have none: "?h None = h\<lparr>kh_next := ?p\<rparr>"
    using fun_upd_triv [of "kh_blk h" ?p] heap_ok_fresh [OF hk] by simp
  consider (full) "\<not> ka_ok ka (kh_next h) (p_memsz ph)"
    | (io) "ka_ok ka (kh_next h) (p_memsz ph)" "?f \<noteq> 0" "?rd = None"
    | (short) bs where "ka_ok ka (kh_next h) (p_memsz ph)" "?f \<noteq> 0" "?rd = Some bs" "length bs < ?f"
    | (good) "ka_ok ka (kh_next h) (p_memsz ph)" "?f \<noteq> 0 \<Longrightarrow> \<exists>bs. ?rd = Some bs \<and> length bs = ?f"
    using fs_okD [OF fs] by (metis le_neq_implies_less not_None_eq)
  then show ?thesis
  proof cases
    case full
    then have "load_segment fs ka path file_size ph out l h =
       Some (ELF_ERR_NOMEM, out, recorded ph (im_entry out) (length xs) l, h\<lparr>kh_next := ?p\<rparr>)"
      unfolding head by (simp add: kmalloc_def)
    then show ?thesis using owns_next [OF o] hk by simp
  next
    case io
    then have "load_segment fs ka path file_size ph out l h =
       Some (ELF_ERR_IO, out, recorded ph (im_entry out) (length xs) l, ?h None)"
      unfolding head by (simp add: kmalloc_def blk_write_Some read_exact_def kfree_def)
    then show ?thesis unfolding none using hk owns_next [OF o] by simp
  next
    case (short bs)
    then have "load_segment fs ka path file_size ph out l h =
       Some (ELF_ERR_RANGE, out, recorded ph (im_entry out) (length xs) l, ?h None)"
      unfolding head using fm by (simp add: kmalloc_def blk_write_Some read_exact_def kfree_def)
    then show ?thesis unfolding none using hk owns_next [OF o] by simp
  next
    case good
    then have "load_segment fs ka path file_size ph out l h =
       Some (ELF_OK, out\<lparr>im_segs := (im_segs out)[length xs := new_seg ph ?p]\<rparr>,
         (recorded ph (im_entry out) (length xs) l)\<lparr>l_seg_index := Suc (length xs)\<rparr>, ?h (Some (seg_bytes fs path ph)))"
      unfolding head using fm by (cases "?f = 0") (auto simp: kmalloc_def blk_write_Some read_exact_def seg_bytes_def)
    moreover have "length (seg_bytes fs path ph) = p_memsz ph" using good(2) fm by (auto simp: seg_bytes_def)
    ultimately show ?thesis using load_inv_commit [OF inv n conjunct1 [OF ok] conjunct2 [OF ok]] by (auto simp: load_inv_def)
  qed
qed

section \<open>Loading an image\<close>

lemma phdrs_Suc: "phdrs ph i (Suc n) =
    (if p_type (ld_phdr ph i) = ELF64_PT_LOAD then ld_phdr ph i # phdrs ph (Suc i) n else phdrs ph (Suc i) n)"
  by (simp add: phdrs_def upt_conv_Cons del: upt_Suc)

lemma phdrs_0 [simp]: "phdrs ph i 0 = []"
  by (simp add: phdrs_def)

lemma length_phdrs: "length (phdrs ph i n) \<le> n"
  by (metis add_diff_cancel_left' length_filter_le length_map length_upt phdrs_def)

lemma count_load_Some: "count_load ph i n c = Some k \<Longrightarrow> k = c + length (phdrs ph i n)"
  by (induction ph i n c rule: count_load.induct) (auto simp: phdrs_Suc Let_def split: if_splits)

lemma load_segments_all:
  assumes "load_inv fs path file_size phs xs out l blk h" "fs_ok fs"
    "length xs + length (phdrs ph i n) = im_segment_count out" "im_segment_count out \<le> 64"
  shows "\<exists>es out' l' h' ys. load_segments fs ka path file_size ph i n out l h = Some (es, out', l', h') \<and> heap_ok h' \<and>
     im_entry out' = im_entry out \<and> im_segment_count out' = im_segment_count out \<and> owns out' (xs @ ys) blk h' \<and>
     (es = ELF_OK \<longrightarrow> load_inv fs path file_size (phs @ phdrs ph i n) (xs @ ys) out' l' blk h')"
  using assms
proof (induction n arbitrary: phs xs out l h i)
  case 0
  then show ?case by (intro exI [of _ "[]"] exI conjI) (auto simp: load_inv_def)
next
  case (Suc n)
  show ?case
  proof (cases "p_type (ld_phdr ph i) = ELF64_PT_LOAD")
    case False
    then show ?thesis using Suc.IH [OF Suc.prems(1,2), of "Suc i"] Suc.prems(3,4) by (simp add: phdrs_Suc)
  next
    case True
    have n: "length xs < im_segment_count out" "length xs < 64" using Suc.prems(3,4) True by (simp_all add: phdrs_Suc)
    obtain es out' l' h' where r: "load_segment fs ka path file_size (ld_phdr ph i) out l h = Some (es, out', l', h')" "heap_ok h'"
      and bad: "es \<noteq> ELF_OK \<longrightarrow> out' = out \<and> owns out xs blk h'"
      and good: "es = ELF_OK \<longrightarrow> (\<exists>s. out' = out\<lparr>im_segs := (im_segs out)[length xs := s]\<rparr> \<and>
        load_inv fs path file_size (phs @ [ld_phdr ph i]) (xs @ [s]) out' l' blk h')"
      using load_segment_step [OF Suc.prems(1,2) n, where ka = ka and ph = "ld_phdr ph i"] by (elim exE conjE) (rule that)
    show ?thesis
    proof (cases "es = ELF_OK")
      case False
      with bad r True show ?thesis by (intro exI [of _ "[]"] exI conjI) auto
    next
      case ok: True
      obtain s where s: "out' = out\<lparr>im_segs := (im_segs out)[length xs := s]\<rparr>"
        and inv: "load_inv fs path file_size (phs @ [ld_phdr ph i]) (xs @ [s]) out' l' blk h'"
        using good ok by auto
      have pre: "length (xs @ [s]) + length (phdrs ph (Suc i) n) = im_segment_count out'" "im_segment_count out' \<le> 64"
        using Suc.prems(3,4) s True by (simp_all add: phdrs_Suc)
      obtain es2 out2 l2 h2 ys where
        "load_segments fs ka path file_size ph (Suc i) n out' l' h' = Some (es2, out2, l2, h2)" "heap_ok h2"
        "im_entry out2 = im_entry out'" "im_segment_count out2 = im_segment_count out'" "owns out2 ((xs @ [s]) @ ys) blk h2"
        "es2 = ELF_OK \<longrightarrow> load_inv fs path file_size ((phs @ [ld_phdr ph i]) @ phdrs ph (Suc i) n) ((xs @ [s]) @ ys) out2 l2 blk h2"
        using Suc.IH [OF inv Suc.prems(2) pre] by (elim exE conjE) (rule that)
      then show ?thesis using r True ok s by (intro exI [of _ "s # ys"] exI conjI) (auto simp: phdrs_Suc)
    qed
  qed
qed

text \<open>
  What a loaded image is: disjoint segments inside the user range, none writable and executable,
  each holding the bytes of the file its program header names, followed by zeros; the entry
  point lies in an executable one. The image owns exactly the blocks the load added to the heap.
\<close>

definition image_ok :: "elf_fs \<Rightarrow> bytes \<Rightarrow> nat \<Rightarrow> elf64_phdr_t list \<Rightarrow> elf_loaded_image_t \<Rightarrow> (nat \<Rightarrow> bytes option) \<Rightarrow> kheap \<Rightarrow> bool" where
  "image_ok fs path file_size phs out blk h = (
     im_segs out \<noteq> [] \<and> im_segment_count out = length (im_segs out) \<and>
     list_all2 (seg_from fs path file_size h) phs (im_segs out) \<and>
     (\<forall>s\<in>set (im_segs out). seg_safe s) \<and> sorted_wrt seg_disjoint (im_segs out) \<and>
     (\<exists>s\<in>set (im_segs out). seg_holds s (im_entry out)) \<and>
     owns out (im_segs out) blk h)"

lemma owns_kfree:
  assumes "owns out xs blk h" "blk p \<noteq> None" "p \<noteq> 0"
  shows "kfree p h = Some (h\<lparr>kh_blk := (kh_blk h)(p := None)\<rparr>)"
    "owns out xs (blk(p := None)) (h\<lparr>kh_blk := (kh_blk h)(p := None)\<rparr>)"
proof -
  have n: "p \<noteq> im_segments out" "p \<notin> sg_memory ` set xs" using assms(1,2) unfolding owns_def by auto
  then have e: "kh_blk h p = blk p" using assms(1) unfolding owns_def by blast
  show "kfree p h = Some (h\<lparr>kh_blk := (kh_blk h)(p := None)\<rparr>)" using e assms(2,3) by (simp add: kfree_def)
  show "owns out xs (blk(p := None)) (h\<lparr>kh_blk := (kh_blk h)(p := None)\<rparr>)"
    using assms(1) n unfolding owns_def by (auto simp: image_iff)
qed

lemma load_segments_start:
  assumes fs: "fs_ok fs" and hk: "heap_ok h" and n: "0 < length (phdrs ph 0 k)" "k \<le> 64"
    and out: "out = \<lparr>im_entry = entry, im_segment_count = length (phdrs ph 0 k), im_segments = Suc (kh_next h),
       im_segs = replicate (length (phdrs ph 0 k)) zero_segment\<rparr>"
    and h1: "h1 = h\<lparr>kh_next := Suc (kh_next h), kh_blk := (kh_blk h)(Suc (kh_next h) := Some b)\<rparr>"
  shows "\<exists>es out' l' h' ys. load_segments fs ka path file_size ph 0 k out
       \<lparr>l_starts = replicate 64 0, l_ends = replicate 64 0, l_count = 0, l_seg_index = 0, l_entry_ok = False\<rparr> h1 = Some (es, out', l', h') \<and>
     heap_ok h' \<and> im_entry out' = entry \<and> owns out' ys (kh_blk h) h' \<and>
     (es = ELF_OK \<and> l_entry_ok l' \<longrightarrow> image_ok fs path file_size (phdrs ph 0 k) out' (kh_blk h) h')"
proof -
  let ?l = "\<lparr>l_starts = replicate 64 0, l_ends = replicate 64 0, l_count = 0, l_seg_index = 0, l_entry_ok = False\<rparr>"
  have "load_inv fs path file_size [] [] out ?l (kh_blk h) h1"
    using hk heap_ok_fresh [OF hk] out h1 unfolding load_inv_def owns_def heap_ok_def by (auto intro: le_SucI)
  from load_segments_all [OF this fs, where ph = ph and i = 0 and n = k and ka = ka]
  obtain es out' l' h' ys where r: "load_segments fs ka path file_size ph 0 k out ?l h1 = Some (es, out', l', h')" "heap_ok h'"
    "im_entry out' = im_entry out" "im_segment_count out' = im_segment_count out" "owns out' ys (kh_blk h) h'"
    and inv: "es = ELF_OK \<longrightarrow> load_inv fs path file_size (phdrs ph 0 k) ys out' l' (kh_blk h) h'"
    using out length_phdrs [of ph 0 k] n(2) by auto
  have "image_ok fs path file_size (phdrs ph 0 k) out' (kh_blk h) h'" if ok: "es = ELF_OK" "l_entry_ok l'"
  proof -
    have i: "load_inv fs path file_size (phdrs ph 0 k) ys out' l' (kh_blk h) h'" using inv ok by simp
    then have len: "length ys = length (phdrs ph 0 k)" unfolding load_inv_def by (metis list_all2_lengthD)
    have "im_segs out' = ys" "im_segment_count out' = length ys" using r(4,5) out len by (simp_all add: owns_def)
    with i n(1) ok(2) len show ?thesis unfolding load_inv_def image_ok_def by auto
  qed
  with r out show ?thesis by auto
qed

lemma image_ok_kfree:
  assumes "image_ok fs path file_size phs out blk h" "blk p \<noteq> None" "p \<noteq> 0"
  shows "image_ok fs path file_size phs out (blk(p := None)) (h\<lparr>kh_blk := (kh_blk h)(p := None)\<rparr>)"
proof -
  have o: "owns out (im_segs out) blk h" and l: "list_all2 (seg_from fs path file_size h) phs (im_segs out)"
    using assms(1) unfolding image_ok_def by simp_all
  have "p \<notin> sg_memory ` set (im_segs out)" using o assms(2) unfolding owns_def by auto
  from seg_from_keep [OF l this, where n = "kh_next h" and b = None] owns_kfree(2) [OF o assms(2,3)] assms(1)
  show ?thesis unfolding image_ok_def by simp
qed

lemma load_image_ok:
  assumes fs: "fs_ok fs" and hk: "heap_ok h" and n: "e_phnum eh \<le> 64" and p: "kh_blk h php \<noteq> None"
  shows "\<exists>es out h'. load_image fs ka path file_size eh php ph h = Some (es, out, h') \<and>
     (es \<noteq> ELF_OK \<longrightarrow> out = zero_image \<and> kh_blk h' = (kh_blk h)(php := None)) \<and>
     (es = ELF_OK \<longrightarrow> im_entry out = e_entry eh \<and>
        image_ok fs path file_size (phdrs ph 0 (e_phnum eh)) out ((kh_blk h)(php := None)) h')"
proof -
  have p0: "php \<noteq> 0" using hk p by (auto simp: heap_ok_def)
  let ?k = "e_phnum eh"
  consider (unsupported) "count_load ph 0 ?k 0 = None" | (empty) "count_load ph 0 ?k 0 = Some 0"
    | (full) c where "count_load ph 0 ?k 0 = Some c" "c \<noteq> 0" "\<not> ka_ok ka (kh_next h) (c * SEGMENT_SIZE)"
    | (go) c where "count_load ph 0 ?k 0 = Some c" "c \<noteq> 0" "ka_ok ka (kh_next h) (c * SEGMENT_SIZE)"
    by (metis not_None_eq)
  then show ?thesis
  proof cases
    case (go c)
    have c: "c = length (phdrs ph 0 ?k)" using count_load_Some [OF go(1)] by simp
    let ?h = "h\<lparr>kh_next := Suc (kh_next h), kh_blk := (kh_blk h)(Suc (kh_next h) := Some (replicate (c * SEGMENT_SIZE) 0))\<rparr>"
    let ?out = "\<lparr>im_entry = e_entry eh, im_segment_count = c, im_segments = Suc (kh_next h), im_segs = replicate c zero_segment\<rparr>"
    have n0: "0 < length (phdrs ph 0 ?k)" using go(2) c by simp
    obtain es out l h' ys where r: "load_segments fs ka path file_size ph 0 ?k ?out
       \<lparr>l_starts = replicate 64 0, l_ends = replicate 64 0, l_count = 0, l_seg_index = 0, l_entry_ok = False\<rparr> ?h = Some (es, out, l, h')"
      and o: "im_entry out = e_entry eh" "owns out ys (kh_blk h) h'"
      and img: "es = ELF_OK \<and> l_entry_ok l \<longrightarrow> image_ok fs path file_size (phdrs ph 0 ?k) out (kh_blk h) h'"
      using load_segments_start [OF fs hk n0 n, of ?out "e_entry eh" ?h, where ka = ka and path = path and file_size = file_size]
      unfolding c [symmetric] by blast
    note free = owns_kfree [OF o(2) p p0]
    show ?thesis
    proof (cases "es = ELF_OK \<and> l_entry_ok l")
      case True
      then show ?thesis using go r free(1) o(1) image_ok_kfree [OF mp [OF img] p p0]
        unfolding load_image_def by (simp add: kcalloc_def)
    next
      case False
      then show ?thesis using go r free free_owned_blocks [OF free(2)]
        unfolding load_image_def by (simp add: kcalloc_def)
    qed
  qed (use p p0 in \<open>auto simp: load_image_def kfree_def kcalloc_def\<close>)
qed

lemma validate_header_phnum: "elf64_validate_header (Some eh) file_size = ELF_OK \<Longrightarrow> e_phnum eh \<le> 64"
  by (auto simp: elf64_validate_header_def split: if_splits)

text \<open>The program headers of the file the loader reads.\<close>

definition file_phdrs :: "elf_fs \<Rightarrow> bytes \<Rightarrow> elf64_phdr_t list" where
  "file_phdrs fs path = (let eh = ld_ehdr (the (fs_read fs path 0 EHDR_SIZE)) in
     phdrs (the (fs_read fs path (e_phoff eh) (e_phnum eh * PHDR_SIZE))) 0 (e_phnum eh))"

definition file_entry :: "elf_fs \<Rightarrow> bytes \<Rightarrow> nat" where
  "file_entry fs path = e_entry (ld_ehdr (the (fs_read fs path 0 EHDR_SIZE)))"

definition file_length :: "elf_fs \<Rightarrow> bytes \<Rightarrow> nat" where
  "file_length fs path = fst (the (fs_stat fs path))"

text \<open>A load that ends before the segments are touched leaves the heap as it was.\<close>

definition early_end :: "elf_fs \<Rightarrow> kalloc \<Rightarrow> bytes \<Rightarrow> elf_loaded_image_t \<Rightarrow> kheap \<Rightarrow> bool" where
  "early_end fs ka path out h = (\<exists>es h'. elf64_load_from_vfs fs ka (Some path) (Some out) h = Some (es, Some zero_image, h', []) \<and>
     es \<noteq> ELF_OK \<and> kh_blk h' = kh_blk h)"

lemma early_end_header:
  assumes "fs_ok fs"
  shows "early_end fs ka path out h \<or>
    (\<exists>size bs. fs_stat fs path = Some (size, True) \<and> size \<le> 64 * 1024 * 1024 \<and> fs_read fs path 0 EHDR_SIZE = Some bs \<and>
       length bs = EHDR_SIZE \<and> elf64_validate_header (Some (ld_ehdr bs)) size = ELF_OK \<and> e_type' (ld_ehdr bs) = ELF64_ET_EXEC \<and>
       ELF64_RABBITBONE_USER_IMAGE_BASE \<le> e_entry (ld_ehdr bs) \<and> e_entry (ld_ehdr bs) < ELF64_RABBITBONE_USER_SPACE_LIMIT)"
proof (cases "\<exists>size. fs_stat fs path = Some (size, True) \<and> size \<le> 64 * 1024 * 1024")
  case False
  then show ?thesis by (auto simp: early_end_def elf64_load_from_vfs_def split: option.splits)
next
  case True
  then obtain size where size: "fs_stat fs path = Some (size, True)" "size \<le> 64 * 1024 * 1024" by blast
  show ?thesis
  proof (cases "fs_read fs path 0 EHDR_SIZE")
    case None
    then show ?thesis using size by (simp add: early_end_def elf64_load_from_vfs_def read_exact_def EHDR_SIZE_def)
  next
    case (Some bs)
    show ?thesis using size Some fs_okD [OF assms Some]
      by (auto simp: early_end_def elf64_load_from_vfs_def read_exact_def Let_def)
  qed
qed

lemma load_from_vfs_split:
  fixes fs path
  defines "eh \<equiv> ld_ehdr (the (fs_read fs path 0 EHDR_SIZE))"
  defines "ps \<equiv> the (fs_read fs path (e_phoff eh) (e_phnum eh * PHDR_SIZE))"
  assumes fs: "fs_ok fs" and hk: "heap_ok h"
  shows "early_end fs ka path out h \<or> (\<exists>size. fs_stat fs path = Some (size, True) \<and> e_phnum eh \<le> 64 \<and>
      elf64_load_from_vfs fs ka (Some path) (Some out) h = do {
        (es, img, h) \<leftarrow> load_image fs ka path size eh (Suc (kh_next h)) ps
           (h\<lparr>kh_next := Suc (kh_next h), kh_blk := (kh_blk h)(Suc (kh_next h) := Some ps)\<rparr>);
        Some (es, Some img, h,
          if es = ELF_OK then [(LOG_INFO, cbytes ''elf'', cbytes ''loaded %s entry=%p segments=%u'',
            [VStr (Some path), VNum (of_nat (im_entry img)), VNum (of_nat (im_segment_count img))])] else []) })"
proof (cases "early_end fs ka path out h")
  case False
  with early_end_header [OF fs, of ka path out h] obtain size bs where size: "fs_stat fs path = Some (size, True)" "size \<le> 64 * 1024 * 1024"
    and bs: "fs_read fs path 0 EHDR_SIZE = Some bs" "length bs = EHDR_SIZE" and v: "elf64_validate_header (Some eh) size = ELF_OK"
      "e_type' eh = ELF64_ET_EXEC" "ELF64_RABBITBONE_USER_IMAGE_BASE \<le> e_entry eh" "e_entry eh < ELF64_RABBITBONE_USER_SPACE_LIMIT"
    unfolding eh_def by auto
  have eh: "ld_ehdr bs = eh" using bs by (simp add: eh_def)
  let ?n = "e_phnum eh * PHDR_SIZE"
  have restore: "(kh_blk h)(Suc (kh_next h) := None) = kh_blk h" using heap_ok_fresh [OF hk] by auto
  note run = elf64_load_from_vfs_def Let_def read_exact_def kcalloc_def kfree_def blk_write_Some eh restore
  have ok: "ka_ok ka (kh_next h) ?n"
    by (rule contrapos_np [OF False]) (use size bs v in \<open>simp add: early_end_def run\<close>)
  obtain ps' where ps': "fs_read fs path (e_phoff eh) ?n = Some ps'"
    using False size bs v ok unfolding early_end_def
    by (cases "fs_read fs path (e_phoff eh) ?n") (simp_all add: run)
  have len: "length ps' \<le> ?n" using fs_okD [OF fs ps'] .
  have full: "length ps' = ?n"
    by (rule contrapos_np [OF False]) (use size bs v ok ps' len in \<open>simp add: early_end_def run\<close>)
  have "ps = ps'" using ps' by (simp add: ps_def)
  then show ?thesis using size bs v ok ps' full validate_header_phnum [OF v(1)] by (simp add: run)
qed simp

lemma load_from_vfs_cases:
  assumes fs: "fs_ok fs" and hk: "heap_ok h"
  shows "\<exists>es img h' lg. elf64_load_from_vfs fs ka (Some path) (Some out) h = Some (es, Some img, h', lg) \<and>
     (es \<noteq> ELF_OK \<longrightarrow> img = zero_image \<and> kh_blk h' = kh_blk h) \<and>
     (es = ELF_OK \<longrightarrow> im_entry img = file_entry fs path \<and>
        image_ok fs path (file_length fs path) (file_phdrs fs path) img (kh_blk h) h')"
  using load_from_vfs_split [OF fs hk, where path = path and ka = ka and out = out]
proof (elim disjE exE conjE)
  let ?eh = "ld_ehdr (the (fs_read fs path 0 EHDR_SIZE))" and ?p = "Suc (kh_next h)"
  let ?ps = "the (fs_read fs path (e_phoff ?eh) (e_phnum ?eh * PHDR_SIZE))"
  let ?h = "h\<lparr>kh_next := ?p, kh_blk := (kh_blk h)(?p := Some ?ps)\<rparr>"
  fix size
  assume st: "fs_stat fs path = Some (size, True)" and n: "e_phnum ?eh \<le> 64"
    and run: "elf64_load_from_vfs fs ka (Some path) (Some out) h = do {
      (es, img, h) \<leftarrow> load_image fs ka path size ?eh ?p ?ps ?h;
      Some (es, Some img, h,
        if es = ELF_OK then [(LOG_INFO, cbytes ''elf'', cbytes ''loaded %s entry=%p segments=%u'',
          [VStr (Some path), VNum (of_nat (im_entry img)), VNum (of_nat (im_segment_count img))])] else []) }"
  have restore: "(kh_blk h)(?p := None) = kh_blk h" using heap_ok_fresh [OF hk] by auto
  have "heap_ok ?h" using hk unfolding heap_ok_def by (auto intro: le_SucI)
  from load_image_ok [OF fs this n, of ?p ka path size ?ps] run restore st
  show ?thesis by (simp add: file_entry_def file_phdrs_def file_length_def Let_def) (elim exE conjE, simp)
qed (auto simp: early_end_def)

text \<open>A file of one program header and four bytes of code, loaded at the base of the user range.\<close>

definition demo_elf :: bytes where
  "demo_elf = [0x7f, 0x45, 0x4c, 0x46, 2, 1, 1, 0, 0, 0, 0, 0, 0, 0, 0, 0,
     2, 0, 62, 0, 1, 0, 0, 0, 0, 0, 0, 0, 0, 1, 0, 0, 64, 0, 0, 0, 0, 0, 0, 0, 0, 0, 0, 0, 0, 0, 0, 0,
     0, 0, 0, 0, 64, 0, 56, 0, 1, 0, 0, 0, 0, 0, 0, 0,
     1, 0, 0, 0, 5, 0, 0, 0, 120, 0, 0, 0, 0, 0, 0, 0, 0, 0, 0, 0, 0, 1, 0, 0, 0, 0, 0, 0, 0, 1, 0, 0,
     4, 0, 0, 0, 0, 0, 0, 0, 8, 0, 0, 0, 0, 0, 0, 0, 1, 0, 0, 0, 0, 0, 0, 0,
     0xb8, 1, 0, 0]"

definition demo_fs :: elf_fs where
  "demo_fs = \<lparr>fs_stat = (\<lambda>_. Some (length demo_elf, True)), fs_read = (\<lambda>_ off n. Some (take n (drop off demo_elf)))\<rparr>"

definition demo_alloc :: kalloc where
  "demo_alloc = \<lparr>ka_ok = (\<lambda>_ _. True), ka_junk = (\<lambda>_. 0xcc)\<rparr>"

definition demo_heap :: kheap where
  "demo_heap = \<lparr>kh_next = 0, kh_blk = (\<lambda>_. None)\<rparr>"

definition demo_result :: "(elf_status_t \<times> elf_loaded_image_t option \<times> kheap \<times> klog_call list) option" where
  "demo_result = elf64_load_from_vfs demo_fs demo_alloc (Some [0x2f]) (Some zero_image) demo_heap"

lemma demo_ehdr:
  "ld_ehdr (take EHDR_SIZE demo_elf) = \<lparr>e_ident = [0x7f, 0x45, 0x4c, 0x46, 2, 1, 1, 0, 0, 0, 0, 0, 0, 0, 0, 0], e_type' = 2,
     e_machine = 62, e_version = 1, e_entry = 0x10000000000, e_phoff = 64, e_shoff = 0, e_flags = 0, e_ehsize = 64,
     e_phentsize = 56, e_phnum = 1, e_shentsize = 0, e_shnum = 0, e_shstrndx = 0\<rparr>"
  by (simp add: ld_ehdr_def field_def demo_elf_def EHDR_SIZE_def)

lemma demo_phdr:
  "ld_phdr (take 56 (drop 64 demo_elf)) 0 = \<lparr>p_type = 1, p_flags = 5, p_offset = 120, p_vaddr = 0x10000000000, p_paddr = 0x10000000000,
     p_filesz = 4, p_memsz = 8, p_align = 1\<rparr>"
  by (simp add: ld_phdr_def field_def demo_elf_def Let_def)

lemma demo_length: "length demo_elf = 124"
  by (simp add: demo_elf_def)

lemma demo_code: "take 4 (drop 120 demo_elf) = [0xb8, 1, 0, 0]"
  by (simp add: demo_elf_def)

lemmas elf_constants = ELF64_PT_LOAD_def ELF64_PT_DYNAMIC_def ELF64_PT_INTERP_def ELF64_ET_EXEC_def ELF64_ET_DYN_def ELF64_EM_X86_64_def
  ELF64_PF_X_def ELF64_PF_W_def ELF64_PF_R_def ELF64_RABBITBONE_USER_IMAGE_BASE_def ELF64_RABBITBONE_USER_SPACE_LIMIT_def
  EHDR_SIZE_def PHDR_SIZE_def SEGMENT_SIZE_def

lemma demo_header: "elf64_validate_header (Some (ld_ehdr (take EHDR_SIZE demo_elf))) 124 = ELF_OK"
  unfolding demo_ehdr
  by (simp add: elf64_validate_header_def mul_overflow_def add_overflow_def elf_constants)

lemma demo_segment:
  "elf64_validate_load_segment (Some (ld_phdr (take 56 (drop 64 demo_elf)) 0)) 124
     ELF64_RABBITBONE_USER_IMAGE_BASE ELF64_RABBITBONE_USER_SPACE_LIMIT = ELF_OK"
  unfolding demo_phdr
  by (simp add: elf64_validate_load_segment_def add_overflow_def elf_constants)

definition demo_image :: elf_loaded_image_t where
  "demo_image = \<lparr>im_entry = 0x10000000000, im_segment_count = 1, im_segments = 2,
     im_segs = [\<lparr>sg_vaddr = 0x10000000000, sg_memsz = 8, sg_filesz = 4, sg_flags = 5, sg_memory = 3\<rparr>]\<rparr>"

lemma demo_load_image:
  "\<exists>h'. load_image demo_fs demo_alloc [0x2f] 124 (ld_ehdr (take EHDR_SIZE demo_elf)) 1 (take 56 (drop 64 demo_elf))
     \<lparr>kh_next = 1, kh_blk = [1 \<mapsto> take 56 (drop 64 demo_elf)]\<rparr> = Some (ELF_OK, demo_image, h')"
  using demo_segment unfolding demo_ehdr
  by (simp add: load_image_def demo_phdr load_segment_def Let_def kcalloc_def kmalloc_def kfree_def blk_write_def copy_in_def blit_def
      read_exact_def demo_fs_def demo_alloc_def demo_code add64_def elf_constants demo_image_def zero_segment_def)

lemma demo_contract: "fs_ok demo_fs" "heap_ok demo_heap"
  by (auto simp: fs_ok_def demo_fs_def heap_ok_def demo_heap_def)

lemma demo_loads:
  "\<exists>h' lg. elf64_load_from_vfs demo_fs demo_alloc (Some [0x2f]) (Some zero_image) demo_heap = Some (ELF_OK, Some demo_image, h', lg)"
proof -
  obtain h' where "load_image demo_fs demo_alloc [0x2f] 124 (ld_ehdr (take EHDR_SIZE demo_elf)) 1 (take 56 (drop 64 demo_elf))
     \<lparr>kh_next = 1, kh_blk = [1 \<mapsto> take 56 (drop 64 demo_elf)]\<rparr> = Some (ELF_OK, demo_image, h')"
    using demo_load_image by blast
  moreover have "min 124 EHDR_SIZE = EHDR_SIZE" by (simp add: EHDR_SIZE_def)
  moreover have "read_exact demo_fs [0x2f] 64 56 = (ELF_OK, take 56 (drop 64 demo_elf))"
    by (simp add: read_exact_def demo_fs_def demo_length)
  moreover have "read_exact demo_fs [0x2f] 0 EHDR_SIZE = (ELF_OK, take EHDR_SIZE demo_elf)"
    by (simp add: read_exact_def demo_fs_def demo_length EHDR_SIZE_def)
  moreover have "fs_stat demo_fs [0x2f] = Some (124, True)" by (simp add: demo_fs_def demo_length)
  moreover have "e_phnum (ld_ehdr (take EHDR_SIZE demo_elf)) = 1" "e_phoff (ld_ehdr (take EHDR_SIZE demo_elf)) = 64"
    "e_type' (ld_ehdr (take EHDR_SIZE demo_elf)) = ELF64_ET_EXEC"
    "e_entry (ld_ehdr (take EHDR_SIZE demo_elf)) = ELF64_RABBITBONE_USER_IMAGE_BASE"
    unfolding demo_ehdr by (simp_all add: elf_constants)
  moreover have "ELF64_RABBITBONE_USER_IMAGE_BASE < ELF64_RABBITBONE_USER_SPACE_LIMIT" "PHDR_SIZE = 56"
    by (simp_all add: elf_constants)
  ultimately show ?thesis using demo_header
    unfolding elf64_load_from_vfs_def
    by (simp add: Let_def kcalloc_def demo_alloc_def demo_heap_def blk_write_Some demo_length)
qed

section \<open>Properties\<close>

text \<open>
  C2: Loading a program is safe and correct. For every file system that honours the contract of
  reads, every pattern of allocation failures and every file, the loader returns without a fault.
  When it fails, the image is zeroed and the heap holds exactly the blocks it held before, so no
  error path leaks or frees twice. When it succeeds, the segments are pairwise disjoint, lie
  inside the user range, are never both writable and executable, and hold the bytes of the file
  that the loadable program headers name, in their order, followed by zeros; the entry point of
  the file lies in an executable segment.
\<close>
theorem elf_load_sound:
  assumes "fs_ok fs" "heap_ok h"
  shows "\<exists>es img h' lg. elf64_load_from_vfs fs ka (Some path) (Some out) h = Some (es, Some img, h', lg) \<and>
     (es \<noteq> ELF_OK \<longrightarrow> img = zero_image \<and> kh_blk h' = kh_blk h) \<and>
     (es = ELF_OK \<longrightarrow> im_entry img = file_entry fs path \<and>
        image_ok fs path (file_length fs path) (file_phdrs fs path) img (kh_blk h) h')"
  by (rule load_from_vfs_cases [OF assms])

theorem elf_load_sound_witness:
  "\<exists>img h' lg. elf64_load_from_vfs demo_fs demo_alloc (Some [0x2f]) (Some zero_image) demo_heap = Some (ELF_OK, Some img, h', lg) \<and>
     im_segs img = [\<lparr>sg_vaddr = 0x10000000000, sg_memsz = 8, sg_filesz = 4, sg_flags = 5, sg_memory = 3\<rparr>] \<and>
     image_ok demo_fs [0x2f] (file_length demo_fs [0x2f]) (file_phdrs demo_fs [0x2f]) img (kh_blk demo_heap) h'"
  using elf_load_sound [OF demo_contract, of demo_alloc "[0x2f]" zero_image] demo_loads
  by (auto simp: demo_image_def zero_image_def)

text \<open>
  C34: Freeing an image undoes its load: after a successful load the call to free the image
  succeeds, zeroes it and leaves exactly the blocks that were live before the load, with their
  contents.
\<close>
theorem elf_load_free_roundtrip:
  assumes "fs_ok fs" "heap_ok h" "elf64_load_from_vfs fs ka (Some path) (Some out) h = Some (ELF_OK, Some img, h', lg)"
  shows "\<exists>h''. elf64_free_image (Some img) h' = Some (Some zero_image, h'') \<and> kh_blk h'' = kh_blk h"
proof -
  have "owns img (im_segs img) (kh_blk h) h'"
    using load_from_vfs_cases [OF assms(1,2), of ka path out] assms(3) by (auto simp: image_ok_def)
  from free_owned_blocks [OF this] show ?thesis by simp
qed

theorem elf_load_free_roundtrip_witness:
  "\<exists>h' lg h''. elf64_load_from_vfs demo_fs demo_alloc (Some [0x2f]) (Some zero_image) demo_heap = Some (ELF_OK, Some demo_image, h', lg) \<and>
     elf64_free_image (Some demo_image) h' = Some (Some zero_image, h'') \<and> kh_blk h'' = (\<lambda>_. None)"
proof -
  obtain h' lg where l: "elf64_load_from_vfs demo_fs demo_alloc (Some [0x2f]) (Some zero_image) demo_heap =
      Some (ELF_OK, Some demo_image, h', lg)"
    using demo_loads by blast
  show ?thesis using elf_load_free_roundtrip [OF demo_contract l] l by (auto simp: demo_heap_def)
qed

end
