(* ===== verification/Keyboard.thy ===== *)
theory Keyboard
  imports Ringbuf Phys_Mem Log
begin

text \<open>
  The keyboard driver, \<^verbatim>\<open>kernel/drivers/keyboard.c\<close>: the scan code decoder with its modifier
  state, the event queue of 64 slots, and the readers. Each operation runs under the driver's
  lock and is one step. The controller is the list of bytes it still has to deliver; whether
  an attempt to take the lock succeeds is an argument of the reader that gives up.
\<close>

section \<open>Events\<close>

definition RABBITBONE_KEY_NONE :: u32 where "RABBITBONE_KEY_NONE = 0"
definition RABBITBONE_KEY_CHAR :: u32 where "RABBITBONE_KEY_CHAR = 1"
definition RABBITBONE_KEY_ENTER :: u32 where "RABBITBONE_KEY_ENTER = 2"
definition RABBITBONE_KEY_BACKSPACE :: u32 where "RABBITBONE_KEY_BACKSPACE = 3"
definition RABBITBONE_KEY_TAB :: u32 where "RABBITBONE_KEY_TAB = 4"
definition RABBITBONE_KEY_ESC :: u32 where "RABBITBONE_KEY_ESC = 5"
definition RABBITBONE_KEY_UP :: u32 where "RABBITBONE_KEY_UP = 100"
definition RABBITBONE_KEY_DOWN :: u32 where "RABBITBONE_KEY_DOWN = 101"
definition RABBITBONE_KEY_LEFT :: u32 where "RABBITBONE_KEY_LEFT = 102"
definition RABBITBONE_KEY_RIGHT :: u32 where "RABBITBONE_KEY_RIGHT = 103"
definition RABBITBONE_KEY_DELETE :: u32 where "RABBITBONE_KEY_DELETE = 104"
definition RABBITBONE_KEY_HOME :: u32 where "RABBITBONE_KEY_HOME = 105"
definition RABBITBONE_KEY_END :: u32 where "RABBITBONE_KEY_END = 106"
definition RABBITBONE_KEY_PAGEUP :: u32 where "RABBITBONE_KEY_PAGEUP = 107"
definition RABBITBONE_KEY_PAGEDOWN :: u32 where "RABBITBONE_KEY_PAGEDOWN = 108"
definition RABBITBONE_KEY_MOD_SHIFT :: u32 where "RABBITBONE_KEY_MOD_SHIFT = 1"
definition RABBITBONE_KEY_MOD_CTRL :: u32 where "RABBITBONE_KEY_MOD_CTRL = 2"
definition RABBITBONE_KEY_MOD_ALT :: u32 where "RABBITBONE_KEY_MOD_ALT = 4"

record rabbitbone_key_event_t =
  ev_code :: u32
  ev_mods :: u32
  ev_ch :: u32
  ev_scancode :: u32

definition QUEUE_SIZE :: nat where "QUEUE_SIZE = 64"
definition KBD_IRQ_DRAIN_LIMIT :: nat where "KBD_IRQ_DRAIN_LIMIT = 32"

record kbd_t =
  kb_queue :: "rabbitbone_key_event_t list"
  kb_head :: nat
  kb_tail :: nat
  shift_down :: bool
  ctrl_down :: bool
  alt_down :: bool
  extended :: bool

definition normal_map :: bytes where
  "normal_map = [0, 27] @ map of_char ''1234567890-='' @ [8, 9] @
     map of_char ''qwertyuiop[]'' @ [10, 0] @
     map of_char ''asdfghjkl;'' @ [0x27, 0x60, 0, 0x5c] @
     map of_char ''zxcvbnm,./'' @ [0, 0x2a, 0, 0x20] @ replicate 70 0"

definition shift_map :: bytes where
  "shift_map = [0, 27] @ map of_char ''!@#$%^&*()_+'' @ [8, 9] @
     map of_char ''QWERTYUIOP{}'' @ [10, 0] @
     map of_char ''ASDFGHJKL:'' @ [0x22, 0x7e, 0, 0x7c] @
     map of_char ''ZXCVBNM<>?'' @ [0, 0x2a, 0, 0x20] @ replicate 70 0"

section \<open>Operations\<close>

definition mods :: "kbd_t \<Rightarrow> u32" where
  "mods s = (if shift_down s then RABBITBONE_KEY_MOD_SHIFT else 0) OR
            (if ctrl_down s then RABBITBONE_KEY_MOD_CTRL else 0) OR
            (if alt_down s then RABBITBONE_KEY_MOD_ALT else 0)"

text \<open>The queue part of \<^verbatim>\<open>enqueue_event\<close>, with a flag that says whether there was a free slot.\<close>

definition queue_put :: "kbd_t \<Rightarrow> rabbitbone_key_event_t \<Rightarrow> (bool \<times> kbd_t) option" where
  "queue_put s ev =
     (let next = (kb_tail s + 1) mod QUEUE_SIZE in
      if next = kb_head s then Some (False, s)
      else do {
        q \<leftarrow> arr_set (kb_queue s) (kb_tail s) ev;
        Some (True, s\<lparr>kb_queue := q, kb_tail := next\<rparr>) })"

definition enqueue_event :: "u32 \<Rightarrow> u32 \<Rightarrow> u32 \<Rightarrow> kbd_t \<Rightarrow> kbd_t option" where
  "enqueue_event code ch scancode s =
     map_option snd (queue_put s \<lparr>ev_code = code, ev_mods = mods s, ev_ch = ch, ev_scancode = scancode\<rparr>)"

definition enqueue_char :: "u8 \<Rightarrow> u32 \<Rightarrow> kbd_t \<Rightarrow> kbd_t option" where
  "enqueue_char c scancode s =
     (let code = (if c = 10 then RABBITBONE_KEY_ENTER
                  else if c = 8 then RABBITBONE_KEY_BACKSPACE
                  else if c = 9 then RABBITBONE_KEY_TAB
                  else if c = 27 then RABBITBONE_KEY_ESC
                  else RABBITBONE_KEY_CHAR)
      in enqueue_event code (ucast c) scancode s)"

definition keyboard_init :: "kbd_t \<Rightarrow> kbd_t \<times> klog_call list" where
  "keyboard_init s = (s\<lparr>kb_head := 0, kb_tail := 0, shift_down := False, ctrl_down := False, alt_down := False, extended := False\<rparr>,
     [(LOG_INFO, cbytes ''kbd'', cbytes ''ps/2 keyboard ready'', [])])"

definition extended_code :: "u8 \<Rightarrow> u32 option" where
  "extended_code code =
     (if code = 0x48 then Some RABBITBONE_KEY_UP else if code = 0x50 then Some RABBITBONE_KEY_DOWN
      else if code = 0x4b then Some RABBITBONE_KEY_LEFT else if code = 0x4d then Some RABBITBONE_KEY_RIGHT
      else if code = 0x53 then Some RABBITBONE_KEY_DELETE else if code = 0x47 then Some RABBITBONE_KEY_HOME
      else if code = 0x4f then Some RABBITBONE_KEY_END else if code = 0x49 then Some RABBITBONE_KEY_PAGEUP
      else if code = 0x51 then Some RABBITBONE_KEY_PAGEDOWN else None)"

definition keyboard_process_scancode :: "u8 \<Rightarrow> kbd_t \<Rightarrow> kbd_t option" where
  "keyboard_process_scancode sc s =
     (if sc = 0xfa \<or> sc = 0xfe then Some s
      else if sc = 0xe0 then Some (s\<lparr>extended := True\<rparr>)
      else if sc = 0xe1 then Some (s\<lparr>extended := False\<rparr>)
      else let release = (sc AND 0x80 \<noteq> 0); code = sc AND 0x7f; was_extended = extended s; s = s\<lparr>extended := False\<rparr> in
      if \<not> was_extended \<and> (code = 42 \<or> code = 54) then Some (s\<lparr>shift_down := \<not> release\<rparr>)
      else if \<not> was_extended \<and> code = 29 then Some (s\<lparr>ctrl_down := \<not> release\<rparr>)
      else if \<not> was_extended \<and> code = 56 then Some (s\<lparr>alt_down := \<not> release\<rparr>)
      else if was_extended \<and> code = 29 then Some (s\<lparr>ctrl_down := \<not> release\<rparr>)
      else if was_extended \<and> code = 56 then Some (s\<lparr>alt_down := \<not> release\<rparr>)
      else if release then Some s
      else if was_extended then
        (case extended_code code of Some k \<Rightarrow> enqueue_event k 0 (ucast sc) s | None \<Rightarrow> Some s)
      else do {
        c \<leftarrow> (if code < 128 then arr_get (if shift_down s then shift_map else normal_map) (unat code) else Some 0);
        let c = (if c \<noteq> 0 \<and> ctrl_down s \<and> 0x61 \<le> c \<and> c \<le> 0x7a then c - 0x61 + 1 else c);
        let c = (if c \<noteq> 0 \<and> ctrl_down s \<and> 0x41 \<le> c \<and> c \<le> 0x5a then c - 0x41 + 1 else c);
        if c \<noteq> 0 then enqueue_char c (ucast sc) s else Some s })"

text \<open>The drain loop; \<open>hw\<close> is what the controller has left to deliver.\<close>

fun irq_drain :: "nat \<Rightarrow> u8 list \<Rightarrow> kbd_t \<Rightarrow> (kbd_t \<times> u8 list) option" where
  "irq_drain 0 hw s = Some (s, hw)"
| "irq_drain (Suc n) [] s = Some (s, [])"
| "irq_drain (Suc n) (sc # hw) s = do { s \<leftarrow> keyboard_process_scancode sc s; irq_drain n hw s }"

definition keyboard_irq :: "u8 list \<Rightarrow> kbd_t \<Rightarrow> (kbd_t \<times> u8 list) option" where
  "keyboard_irq hw s = irq_drain KBD_IRQ_DRAIN_LIMIT hw s"

text \<open>No event stands for the result false.\<close>

definition keyboard_get_event :: "kbd_t \<Rightarrow> (rabbitbone_key_event_t option \<times> kbd_t) option" where
  "keyboard_get_event s =
     (if kb_head s = kb_tail s then Some (None, s)
      else do {
        ev \<leftarrow> arr_get (kb_queue s) (kb_head s);
        Some (Some ev, s\<lparr>kb_head := (kb_head s + 1) mod QUEUE_SIZE\<rparr>) })"

fun try_spin :: "(nat \<Rightarrow> bool) \<Rightarrow> nat \<Rightarrow> nat \<Rightarrow> bool" where
  "try_spin lock spin 0 = False"
| "try_spin lock spin (Suc n) = (if lock spin then True else try_spin lock (Suc spin) n)"

definition keyboard_try_get_event :: "(nat \<Rightarrow> bool) \<Rightarrow> kbd_t \<Rightarrow> (rabbitbone_key_event_t option \<times> kbd_t) option" where
  "keyboard_try_get_event lock s =
     (if try_spin lock 0 1024 then
        (if kb_head s \<noteq> kb_tail s then do {
           ev \<leftarrow> arr_get (kb_queue s) (kb_head s);
           Some (Some ev, s\<lparr>kb_head := (kb_head s + 1) mod QUEUE_SIZE\<rparr>) }
         else Some (None, s))
      else Some (None, s))"

definition keyboard_peek_event :: "kbd_t \<Rightarrow> rabbitbone_key_event_t option option" where
  "keyboard_peek_event s =
     (if kb_head s = kb_tail s then Some None
      else do { ev \<leftarrow> arr_get (kb_queue s) (kb_head s); Some (Some ev) })"

definition keyboard_pending :: "kbd_t \<Rightarrow> nat" where
  "keyboard_pending s = (if kb_head s \<le> kb_tail s then kb_tail s - kb_head s else QUEUE_SIZE - kb_head s + kb_tail s)"

partial_function (option) keyboard_getc :: "kbd_t \<Rightarrow> (u8 option \<times> kbd_t) option" where
  "keyboard_getc s = do {
     (r, s) \<leftarrow> keyboard_get_event s;
     case r of None \<Rightarrow> Some (None, s)
     | Some ev \<Rightarrow> if ev_ch ev \<noteq> 0 then Some (Some (ucast (ev_ch ev)), s) else keyboard_getc s }"

section \<open>The queue\<close>

definition kbd_inv :: "kbd_t \<Rightarrow> bool" where
  "kbd_inv s = (length (kb_queue s) = QUEUE_SIZE \<and> kb_head s < QUEUE_SIZE \<and> kb_tail s < QUEUE_SIZE)"

definition kbd_content :: "kbd_t \<Rightarrow> rabbitbone_key_event_t list" where
  "kbd_content s = ring_slice (kb_queue s) QUEUE_SIZE (kb_head s) (keyboard_pending s)"

lemma wrap_queue: "x < 128 \<Longrightarrow> x mod 64 = (if x < 64 then x else x - 64)" for x :: nat
  by (simp add: le_mod_geq)

lemmas queue_arith = kbd_inv_def keyboard_pending_def QUEUE_SIZE_def wrap_queue

lemma pending_less: "kbd_inv s \<Longrightarrow> keyboard_pending s < QUEUE_SIZE"
  by (auto simp: queue_arith)

lemma length_content [simp]: "length (kbd_content s) = keyboard_pending s"
  by (simp add: kbd_content_def)

lemma tail_eq: "kbd_inv s \<Longrightarrow> kb_tail s = (kb_head s + keyboard_pending s) mod QUEUE_SIZE"
  by (auto simp: queue_arith)

lemma content_empty: "kbd_inv s \<Longrightarrow> kbd_content s = [] \<longleftrightarrow> kb_head s = kb_tail s"
  by (auto simp: kbd_content_def ring_slice_def keyboard_pending_def kbd_inv_def)

lemma put_full: "kbd_inv s \<Longrightarrow> (kb_tail s + 1) mod QUEUE_SIZE = kb_head s \<longleftrightarrow> keyboard_pending s = QUEUE_SIZE - 1"
  by (auto simp: queue_arith)

lemma content_put:
  assumes "kbd_inv s" "(kb_tail s + 1) mod QUEUE_SIZE \<noteq> kb_head s"
  shows "kbd_content (s\<lparr>kb_queue := (kb_queue s)[kb_tail s := ev], kb_tail := (kb_tail s + 1) mod QUEUE_SIZE\<rparr>) = kbd_content s @ [ev]"
proof -
  have "keyboard_pending (s\<lparr>kb_queue := q, kb_tail := (kb_tail s + 1) mod QUEUE_SIZE\<rparr>) = Suc (keyboard_pending s)" for q
    using assms by (auto simp: queue_arith split: if_splits)
  moreover have "ring_slice ((kb_queue s)[kb_tail s := ev]) QUEUE_SIZE (kb_head s) (Suc (keyboard_pending s)) =
      ring_slice (kb_queue s) QUEUE_SIZE (kb_head s) (keyboard_pending s) @ [ev]"
    using ring_slice_push [OF pending_less [OF assms(1)], of "kb_head s" "kb_queue s" ev] tail_eq [OF assms(1)] assms(1)
    by (simp add: kbd_inv_def)
  ultimately show ?thesis by (simp add: kbd_content_def)
qed

lemma content_get:
  assumes "kbd_inv s" "kb_head s \<noteq> kb_tail s"
  shows "kbd_content s = kb_queue s ! kb_head s # kbd_content (s\<lparr>kb_head := (kb_head s + 1) mod QUEUE_SIZE\<rparr>)"
proof -
  have "Suc (keyboard_pending (s\<lparr>kb_head := (kb_head s + 1) mod QUEUE_SIZE\<rparr>)) = keyboard_pending s"
    using assms by (auto simp: queue_arith split: if_splits)
  then have n: "0 < keyboard_pending s" "keyboard_pending s - 1 = keyboard_pending (s\<lparr>kb_head := (kb_head s + 1) mod QUEUE_SIZE\<rparr>)"
    by linarith+
  show ?thesis
    using assms(1) ring_slice_pop [OF n(1), of "kb_head s" QUEUE_SIZE "kb_queue s"] n(2) by (simp add: kbd_content_def kbd_inv_def)
qed

text \<open>The event queue is a bounded first-in first-out buffer of 63 events.\<close>

interpretation kq: bounded_fifo kbd_inv kbd_content "\<lambda>_. QUEUE_SIZE - 1" queue_put keyboard_get_event
proof unfold_locales
  fix s :: kbd_t and ev
  assume inv: "kbd_inv s"
  show "length (kbd_content s) \<le> QUEUE_SIZE - 1" using pending_less [OF inv] by simp
  show "\<exists>s'. queue_put s ev = Some (True, s') \<and> kbd_inv s' \<and> kbd_content s' = kbd_content s @ [ev] \<and> QUEUE_SIZE - 1 = QUEUE_SIZE - 1"
    if "length (kbd_content s) < QUEUE_SIZE - 1"
    using that inv put_full [OF inv] content_put [OF inv] unfolding queue_put_def by (simp add: kbd_inv_def QUEUE_SIZE_def)
  show "queue_put s ev = Some (False, s)" if "length (kbd_content s) = QUEUE_SIZE - 1"
    using that put_full [OF inv] by (simp add: queue_put_def)
  show "\<exists>s'. keyboard_get_event s = Some (Some (hd (kbd_content s)), s') \<and> kbd_inv s' \<and> kbd_content s' = tl (kbd_content s) \<and>
      QUEUE_SIZE - 1 = QUEUE_SIZE - 1" if "kbd_content s \<noteq> []"
    using that inv content_empty [OF inv] content_get [OF inv] unfolding keyboard_get_event_def by (simp add: kbd_inv_def QUEUE_SIZE_def)
  show "keyboard_get_event s = Some (None, s)" if "kbd_content s = []"
    using that content_empty [OF inv] by (simp add: keyboard_get_event_def)
qed

section \<open>The decoder as an automaton\<close>

text \<open>
  The decoder without the queue: the modifier state and the events a scan code produces.
\<close>

record kmode =
  km_shift :: bool
  km_ctrl :: bool
  km_alt :: bool
  km_ext :: bool

definition kmode_of :: "kbd_t \<Rightarrow> kmode" where
  "kmode_of s = \<lparr>km_shift = shift_down s, km_ctrl = ctrl_down s, km_alt = alt_down s, km_ext = extended s\<rparr>"

definition km_mods :: "kmode \<Rightarrow> u32" where
  "km_mods m = (if km_shift m then 1 else 0) OR (if km_ctrl m then 2 else 0) OR (if km_alt m then 4 else 0)"

definition is_modifier :: "bool \<Rightarrow> u8 \<Rightarrow> bool" where
  "is_modifier ext code = (code = 29 \<or> code = 56 \<or> \<not> ext \<and> (code = 42 \<or> code = 54))"

definition set_modifier :: "u8 \<Rightarrow> bool \<Rightarrow> kmode \<Rightarrow> kmode" where
  "set_modifier code down m =
     (if code = 29 then m\<lparr>km_ctrl := down\<rparr> else if code = 56 then m\<lparr>km_alt := down\<rparr> else m\<lparr>km_shift := down\<rparr>)"

text \<open>The character of a key: control folds the letters of either case to 1 to 26.\<close>

definition key_char :: "kmode \<Rightarrow> u8 \<Rightarrow> u8" where
  "key_char m code =
     (let c = (if km_shift m then shift_map else normal_map) ! unat code in
      if km_ctrl m \<and> (0x61 \<le> c \<and> c \<le> 0x7a \<or> 0x41 \<le> c \<and> c \<le> 0x5a) then c AND 0x1f else c)"

definition char_code :: "u8 \<Rightarrow> u32" where
  "char_code c = (if c = 10 then 2 else if c = 8 then 3 else if c = 9 then 4 else if c = 27 then 5 else 1)"

definition key_event :: "kmode \<Rightarrow> u8 \<Rightarrow> rabbitbone_key_event_t list" where
  "key_event m sc =
     (if km_ext m then (case extended_code sc of None \<Rightarrow> []
        | Some k \<Rightarrow> [\<lparr>ev_code = k, ev_mods = km_mods m, ev_ch = 0, ev_scancode = ucast sc\<rparr>])
      else let c = key_char m sc in
        if c = 0 then [] else [\<lparr>ev_code = char_code c, ev_mods = km_mods m, ev_ch = ucast c, ev_scancode = ucast sc\<rparr>])"

definition decode :: "kmode \<Rightarrow> u8 \<Rightarrow> kmode \<times> rabbitbone_key_event_t list" where
  "decode m sc =
     (if sc = 0xfa \<or> sc = 0xfe then (m, [])
      else if sc = 0xe0 \<or> sc = 0xe1 then (m\<lparr>km_ext := (sc = 0xe0)\<rparr>, [])
      else if is_modifier (km_ext m) (sc AND 0x7f) then ((set_modifier (sc AND 0x7f) (sc < 128) m)\<lparr>km_ext := False\<rparr>, [])
      else (m\<lparr>km_ext := False\<rparr>, if sc < 128 then key_event m sc else []))"

fun decode_all :: "kmode \<Rightarrow> u8 list \<Rightarrow> rabbitbone_key_event_t list" where
  "decode_all m [] = []"
| "decode_all m (sc # scs) = snd (decode m sc) @ decode_all (fst (decode m sc)) scs"

fun mode_after :: "kmode \<Rightarrow> u8 list \<Rightarrow> kmode" where
  "mode_after m [] = m"
| "mode_after m (sc # scs) = mode_after (fst (decode m sc)) scs"

lemma decode_all_append: "decode_all m (xs @ ys) = decode_all m xs @ decode_all (mode_after m xs) ys"
  by (induction m xs rule: decode_all.induct) simp_all

text \<open>Facts about bytes, by their 256 values.\<close>

definition each_u8 :: "(u8 \<Rightarrow> bool) \<Rightarrow> bool" where
  "each_u8 P = list_all (\<lambda>n. P (word_of_int n)) [0..255]"

lemma each_u8: "each_u8 P \<Longrightarrow> P c"
proof -
  assume "each_u8 P"
  moreover have "uint c \<in> set [0..255]" using uint_lt2p [of c] uint_ge_0 [of c] by simp
  ultimately have "P (word_of_int (uint c))" unfolding each_u8_def list_all_iff by blast
  then show ?thesis by simp
qed

lemma high_bit: "(sc AND 0x80 \<noteq> 0) \<longleftrightarrow> 128 \<le> sc" for sc :: u8
  by (rule each_u8 [where P = "\<lambda>sc. (sc AND 0x80 \<noteq> 0) \<longleftrightarrow> 128 \<le> sc"]) code_simp

lemma low_bits: "sc < 128 \<longrightarrow> sc AND 0x7f = sc" for sc :: u8
  by (rule each_u8 [where P = "\<lambda>sc. sc < 128 \<longrightarrow> sc AND 0x7f = sc"]) code_simp

lemma low_bits_less: "sc AND 0x7f < 128" for sc :: u8
  by (rule each_u8 [where P = "\<lambda>sc. sc AND 0x7f < 128"]) code_simp

lemma map_lengths [simp]: "length normal_map = 128" "length shift_map = 128"
  by (simp_all add: normal_map_def shift_map_def)

definition with_mode :: "kmode \<Rightarrow> kbd_t \<Rightarrow> kbd_t" where
  "with_mode m s = s\<lparr>shift_down := km_shift m, ctrl_down := km_ctrl m, alt_down := km_alt m, extended := km_ext m\<rparr>"

lemma with_mode_simps [simp]:
  "kb_queue (with_mode m s) = kb_queue s" "kb_head (with_mode m s) = kb_head s" "kb_tail (with_mode m s) = kb_tail s"
  "kbd_inv (with_mode m s) = kbd_inv s" "kbd_content (with_mode m s) = kbd_content s" "kmode_of (with_mode m s) = m"
  "keyboard_pending (with_mode m s) = keyboard_pending s"
  by (simp_all add: with_mode_def kbd_inv_def kbd_content_def keyboard_pending_def kmode_of_def)

fun put_all :: "kbd_t \<Rightarrow> rabbitbone_key_event_t list \<Rightarrow> kbd_t option" where
  "put_all s [] = Some s"
| "put_all s (ev # evs) = do { (_, s) \<leftarrow> queue_put s ev; put_all s evs }"

lemma enqueue_put: "enqueue_event code ch sc s = put_all s [\<lparr>ev_code = code, ev_mods = mods s, ev_ch = ch, ev_scancode = sc\<rparr>]"
  by (simp add: enqueue_event_def map_option_case bind_def case_prod_beta split: option.splits)

lemma enqueue_char_put: "enqueue_char c sc s = put_all s [\<lparr>ev_code = char_code c, ev_mods = mods s, ev_ch = ucast c, ev_scancode = sc\<rparr>]"
  by (simp add: enqueue_char_def enqueue_put char_code_def RABBITBONE_KEY_ENTER_def RABBITBONE_KEY_BACKSPACE_def RABBITBONE_KEY_TAB_def
      RABBITBONE_KEY_ESC_def RABBITBONE_KEY_CHAR_def Let_def)

lemma mods_km: "mods s = km_mods (kmode_of s)" "km_mods (m\<lparr>km_ext := b\<rparr>) = km_mods m"
  by (simp_all add: mods_def km_mods_def kmode_of_def RABBITBONE_KEY_MOD_SHIFT_def RABBITBONE_KEY_MOD_CTRL_def RABBITBONE_KEY_MOD_ALT_def)

lemma ascii_fold:
  "(let c = (if c \<noteq> 0 \<and> ct \<and> 0x61 \<le> c \<and> c \<le> 0x7a then c - 0x61 + 1 else c) in
     if c \<noteq> 0 \<and> ct \<and> 0x41 \<le> c \<and> c \<le> 0x5a then c - 0x41 + 1 else c) =
   (if ct \<and> (0x61 \<le> c \<and> c \<le> 0x7a \<or> 0x41 \<le> c \<and> c \<le> 0x5a) then c AND 0x1f else c)" for c :: u8
proof (cases ct)
  case True
  have "(let c = (if c \<noteq> 0 \<and> 0x61 \<le> c \<and> c \<le> 0x7a then c - 0x61 + 1 else c) in
     if c \<noteq> 0 \<and> 0x41 \<le> c \<and> c \<le> 0x5a then c - 0x41 + 1 else c) =
     (if 0x61 \<le> c \<and> c \<le> 0x7a \<or> 0x41 \<le> c \<and> c \<le> 0x5a then c AND 0x1f else c)"
    by (rule each_u8 [where c = c and P = "\<lambda>c. (let c = (if c \<noteq> 0 \<and> 0x61 \<le> c \<and> c \<le> 0x7a then c - 0x61 + 1 else c) in
     if c \<noteq> 0 \<and> 0x41 \<le> c \<and> c \<le> 0x5a then c - 0x41 + 1 else c) =
     (if 0x61 \<le> c \<and> c \<le> 0x7a \<or> 0x41 \<le> c \<and> c \<le> 0x5a then c AND 0x1f else c)"]) code_simp
  with True show ?thesis by (simp add: Let_def)
qed simp

lemma process_key:
  assumes sc: "\<not> (sc = 0xfa \<or> sc = 0xfe \<or> sc = 0xe0 \<or> sc = 0xe1)" "\<not> is_modifier (extended s) (sc AND 0x7f)" "sc < 128"
  shows "keyboard_process_scancode sc s = put_all (s\<lparr>extended := False\<rparr>) (key_event (kmode_of s) sc)"
proof -
  let ?m = "kmode_of s" and ?s = "s\<lparr>extended := False\<rparr>"
  have e: "km_ext ?m = extended s" by (simp add: kmode_of_def)
  have mods: "mods ?s = km_mods ?m" by (simp add: mods_km(1)) (simp add: kmode_of_def km_mods_def)
  have c: "sc AND 0x7f = sc" using sc(3) low_bits by blast
  have u: "unat sc < 128" using sc(3) by (simp add: word_less_nat_alt)
  show ?thesis
  proof (cases "extended s")
    case True
    then have "keyboard_process_scancode sc s =
        (case extended_code sc of Some k \<Rightarrow> enqueue_event k 0 (ucast sc) ?s | None \<Rightarrow> Some ?s)"
      using sc sc(3) [folded not_le] unfolding keyboard_process_scancode_def by (auto simp: is_modifier_def c high_bit Let_def)
    then show ?thesis using e True unfolding key_event_def enqueue_put mods by (simp split: option.splits)
  next
    case False
    then have "keyboard_process_scancode sc s =
        (let c = key_char ?m sc in if c \<noteq> 0 then enqueue_char c (ucast sc) ?s else Some ?s)"
      using sc u sc(3) [folded not_le] ascii_fold [of "(if shift_down s then shift_map else normal_map) ! unat sc" "ctrl_down s"]
      unfolding keyboard_process_scancode_def key_char_def
      by (simp add: is_modifier_def c high_bit Let_def kmode_of_def)
    then show ?thesis using e False unfolding key_event_def enqueue_char_put mods by (simp add: Let_def)
  qed
qed

lemma process_decode:
  "keyboard_process_scancode sc s =
     put_all (with_mode (fst (decode (kmode_of s) sc)) s) (snd (decode (kmode_of s) sc))"
proof -
  let ?m = "kmode_of s" and ?s = "s\<lparr>extended := False\<rparr>"
  have s: "with_mode (?m\<lparr>km_ext := b\<rparr>) s = s\<lparr>extended := b\<rparr>" for b
    by (simp add: with_mode_def kmode_of_def)
  have m: "with_mode ((set_modifier code down ?m)\<lparr>km_ext := False\<rparr>) s =
     (if code = 29 then ?s\<lparr>ctrl_down := down\<rparr> else if code = 56 then ?s\<lparr>alt_down := down\<rparr> else ?s\<lparr>shift_down := down\<rparr>)" for code down
    by (simp add: set_modifier_def with_mode_def kmode_of_def)
  have e: "km_ext ?m = extended s" by (simp add: kmode_of_def)
  let ?plain = "\<not> (sc = 0xfa \<or> sc = 0xfe \<or> sc = 0xe0 \<or> sc = 0xe1)"
  consider (ignore) "sc = 0xfa \<or> sc = 0xfe" | (prefix) "sc = 0xe0 \<or> sc = 0xe1"
    | (modifier) "?plain" "is_modifier (extended s) (sc AND 0x7f)"
    | (release) "?plain" "\<not> is_modifier (extended s) (sc AND 0x7f)" "128 \<le> sc"
    | (key) "?plain" "\<not> is_modifier (extended s) (sc AND 0x7f)" "sc < 128"
    using le_less_linear [of 128 sc] by blast
  then show ?thesis
  proof cases
    case ignore
    then show ?thesis by (simp add: keyboard_process_scancode_def decode_def with_mode_def kmode_of_def)
  next
    case prefix
    then show ?thesis by (auto simp: keyboard_process_scancode_def decode_def s)
  next
    case modifier
    then have "decode ?m sc = ((set_modifier (sc AND 0x7f) (sc < 128) ?m)\<lparr>km_ext := False\<rparr>, [])"
      by (simp add: decode_def e)
    then show ?thesis using modifier unfolding keyboard_process_scancode_def
      by (auto simp: Let_def is_modifier_def high_bit not_le m)
  next
    case release
    then have "decode ?m sc = (?m\<lparr>km_ext := False\<rparr>, [])" by (simp add: decode_def e)
    then show ?thesis using release unfolding keyboard_process_scancode_def
      by (auto simp: Let_def is_modifier_def high_bit not_le s)
  next
    case key
    then show ?thesis using process_key [OF key] by (simp add: decode_def s e)
  qed
qed

section \<open>Batches of scan codes\<close>

text \<open>A full queue drops what comes next: the content is cut at 63 events.\<close>

lemma put_all_content:
  "kbd_inv s \<Longrightarrow> \<exists>s'. put_all s evs = Some s' \<and> kbd_inv s' \<and> kmode_of s' = kmode_of s \<and>
     kbd_content s' = take (QUEUE_SIZE - 1) (kbd_content s @ evs)"
proof (induction evs arbitrary: s)
  case Nil
  then show ?case using pending_less [OF Nil] by simp
next
  case (Cons ev evs)
  have mode: "queue_put s ev = Some (b, s') \<Longrightarrow> kmode_of s' = kmode_of s" for b s'
    by (auto simp: queue_put_def Let_def arr bind_eq_Some kmode_of_def split: if_splits)
  show ?case
  proof (cases "length (kbd_content s) < QUEUE_SIZE - 1")
    case True
    obtain s1 where s1: "queue_put s ev = Some (True, s1)" "kbd_inv s1" "kbd_content s1 = kbd_content s @ [ev]"
      using kq.push_room [OF Cons.prems True] by blast
    from Cons.IH [OF s1(2)] s1 mode [OF s1(1)] show ?thesis by auto
  next
    case False
    then have n: "keyboard_pending s = QUEUE_SIZE - 1" using pending_less [OF Cons.prems] by simp
    then have "queue_put s ev = Some (False, s)" using kq.push_full [OF Cons.prems] by simp
    with Cons.IH [OF Cons.prems] n show ?thesis by simp
  qed
qed

lemma process_content:
  assumes "kbd_inv s"
  shows "\<exists>s'. keyboard_process_scancode sc s = Some s' \<and> kbd_inv s' \<and> kmode_of s' = fst (decode (kmode_of s) sc) \<and>
     kbd_content s' = take (QUEUE_SIZE - 1) (kbd_content s @ snd (decode (kmode_of s) sc))"
  using put_all_content [of "with_mode (fst (decode (kmode_of s) sc)) s" "snd (decode (kmode_of s) sc)"] assms
  by (simp add: process_decode)

lemma take_take_append: "take n (take n xs @ ys) = take n (xs @ ys)"
  by (simp add: min_def)

lemma irq_drain_content:
  "kbd_inv s \<Longrightarrow> \<exists>s'. irq_drain n hw s = Some (s', drop n hw) \<and> kbd_inv s' \<and> kmode_of s' = mode_after (kmode_of s) (take n hw) \<and>
     kbd_content s' = take (QUEUE_SIZE - 1) (kbd_content s @ decode_all (kmode_of s) (take n hw))"
proof (induction n hw s rule: irq_drain.induct)
  case (1 hw s)
  then show ?case using pending_less [OF 1] by simp
next
  case (2 n s)
  then show ?case using pending_less [OF 2] by simp
next
  case (3 n sc hw s)
  obtain s1 where s1: "keyboard_process_scancode sc s = Some s1" "kbd_inv s1" "kmode_of s1 = fst (decode (kmode_of s) sc)"
    "kbd_content s1 = take (QUEUE_SIZE - 1) (kbd_content s @ snd (decode (kmode_of s) sc))"
    using process_content [OF 3(2)] by blast
  from "3.IH" [OF s1(1,2)] s1 show ?case
    using take_take_append [of "QUEUE_SIZE - 1" "kbd_content s @ snd (decode (kmode_of s) sc)"
        "decode_all (fst (decode (kmode_of s) sc)) (take n hw)"] by (auto simp del: take_append)
qed

section \<open>Reading characters\<close>

lemma getc_content:
  assumes "kbd_inv s"
  defines "rest \<equiv> dropWhile (\<lambda>ev. ev_ch ev = 0) (kbd_content s)"
  shows "\<exists>s'. keyboard_getc s = Some (if rest = [] then None else Some (ucast (ev_ch (hd rest))), s') \<and>
     kbd_inv s' \<and> kbd_content s' = tl rest"
  using assms(1) unfolding rest_def
proof (induction "kbd_content s" arbitrary: s)
  case Nil
  then show ?case using kq.pop_empty [OF Nil.prems] by (simp add: keyboard_getc.simps [of s])
next
  case (Cons ev evs)
  obtain s1 where s1: "keyboard_get_event s = Some (Some ev, s1)" "kbd_inv s1" "kbd_content s1 = evs"
    using kq.pop_some [OF Cons.prems] Cons.hyps(2) by (metis list.sel list.distinct(1))
  show ?case
  proof (cases "ev_ch ev = 0")
    case True
    then have "keyboard_getc s = keyboard_getc s1" using s1(1) by (simp add: keyboard_getc.simps [of s])
    then show ?thesis
      using Cons.hyps(1) [OF s1(3) [symmetric] s1(2)] Cons.hyps(2) [symmetric] True unfolding s1(3) by auto
  next
    case False
    then show ?thesis using s1 Cons.hyps(2) [symmetric] by (simp add: keyboard_getc.simps [of s])
  qed
qed

section \<open>Well-formed events\<close>

text \<open>An event is a character with its key class, or a navigation key without a character.\<close>

definition event_ok :: "rabbitbone_key_event_t \<Rightarrow> bool" where
  "event_ok ev = (ev_mods ev < 8 \<and> ev_scancode ev < 128 \<and>
     (if ev_ch ev = 0 then RABBITBONE_KEY_UP \<le> ev_code ev \<and> ev_code ev \<le> RABBITBONE_KEY_PAGEDOWN
      else ev_ch ev < 128 \<and> ev_code ev = char_code (ucast (ev_ch ev))))"

lemma ascii_maps: "list_all (\<lambda>c. c < 128) normal_map" "list_all (\<lambda>c. c < 128) shift_map"
  by code_simp+

lemma ascii_widen: "c < 128 \<longrightarrow> c AND 0x1f < 128 \<and> (ucast c :: u32) < 128 \<and> (ucast (ucast c :: u32) :: u8) = c \<and> ((ucast c :: u32) = 0 \<longrightarrow> c = 0)"
  for c :: u8
  by (rule each_u8 [where P = "\<lambda>c :: u8. c < 128 \<longrightarrow> c AND 0x1f < 128 \<and> (ucast c :: u32) < 128 \<and> (ucast (ucast c :: u32) :: u8) = c \<and>
     ((ucast c :: u32) = 0 \<longrightarrow> c = 0)"]) code_simp

lemma key_char_ascii: "sc < 128 \<Longrightarrow> key_char m sc < 128"
proof -
  assume "sc < 128"
  then have "unat sc < 128" by (simp add: word_less_nat_alt)
  then have "(if km_shift m then shift_map else normal_map) ! unat sc < 128"
    using ascii_maps by (simp add: list_all_length)
  then show ?thesis using ascii_widen by (simp add: key_char_def Let_def)
qed

lemma mods_small: "km_mods m < 8"
  unfolding km_mods_def by (cases "km_shift m"; cases "km_ctrl m"; cases "km_alt m") simp_all

lemma extended_code_nav: "extended_code sc = Some k \<Longrightarrow> RABBITBONE_KEY_UP \<le> k \<and> k \<le> RABBITBONE_KEY_PAGEDOWN"
  by (auto simp: extended_code_def RABBITBONE_KEY_UP_def RABBITBONE_KEY_DOWN_def RABBITBONE_KEY_LEFT_def RABBITBONE_KEY_RIGHT_def
      RABBITBONE_KEY_DELETE_def RABBITBONE_KEY_HOME_def RABBITBONE_KEY_END_def RABBITBONE_KEY_PAGEUP_def RABBITBONE_KEY_PAGEDOWN_def
      split: if_splits)

lemma decode_ok: "\<forall>ev\<in>set (snd (decode m sc)). event_ok ev"
proof -
  have "\<forall>ev\<in>set (key_event m sc). event_ok ev" if sc: "sc < 128"
    using ascii_widen [of sc] ascii_widen [of "key_char m sc"] key_char_ascii [OF sc] sc mods_small extended_code_nav
    by (auto simp: key_event_def event_ok_def Let_def split: option.splits)
  then show ?thesis by (simp add: decode_def)
qed

lemma decode_all_ok: "\<forall>ev\<in>set (decode_all m scs). event_ok ev"
  using decode_ok by (induction m scs rule: decode_all.induct) auto

text \<open>The states the driver can reach: initialised, then interrupts and reads in any order.\<close>

inductive kbd_reach :: "kbd_t \<Rightarrow> bool" where
  init: "length (kb_queue s) = QUEUE_SIZE \<Longrightarrow> kbd_reach (fst (keyboard_init s))"
| irq: "kbd_reach s \<Longrightarrow> keyboard_irq hw s = Some (s', hw') \<Longrightarrow> kbd_reach s'"
| get: "kbd_reach s \<Longrightarrow> keyboard_get_event s = Some (r, s') \<Longrightarrow> kbd_reach s'"
| try_get: "kbd_reach s \<Longrightarrow> keyboard_try_get_event lock s = Some (r, s') \<Longrightarrow> kbd_reach s'"
| getc: "kbd_reach s \<Longrightarrow> keyboard_getc s = Some (c, s') \<Longrightarrow> kbd_reach s'"

lemma try_get_cases: "keyboard_try_get_event lock s = (if try_spin lock 0 1024 then keyboard_get_event s else Some (None, s))"
  by (simp add: keyboard_try_get_event_def keyboard_get_event_def)

lemma get_content:
  assumes "kbd_inv s" "keyboard_get_event s = Some (r, s')"
  shows "kbd_inv s'" "kbd_content s = (case r of None \<Rightarrow> [] | Some ev \<Rightarrow> [ev]) @ kbd_content s'"
  using kq.pop_some [OF assms(1)] kq.pop_empty [OF assms(1)] assms by (cases "kbd_content s"; auto)+

definition kbd_ok :: "kbd_t \<Rightarrow> bool" where
  "kbd_ok s = (kbd_inv s \<and> (\<forall>ev\<in>set (kbd_content s). event_ok ev))"

lemma get_ok: "kbd_ok s \<Longrightarrow> keyboard_get_event s = Some (r, s') \<Longrightarrow> kbd_ok s'"
  using get_content unfolding kbd_ok_def by (metis Un_iff set_append)

lemma reach_ok: "kbd_reach s \<Longrightarrow> kbd_ok s"
proof (induction rule: kbd_reach.induct)
  case (init s)
  then show ?case by (simp add: kbd_ok_def kbd_inv_def keyboard_init_def kbd_content_def ring_slice_def keyboard_pending_def QUEUE_SIZE_def)
next
  case (irq s hw s' hw')
  then show ?case using irq_drain_content [of s KBD_IRQ_DRAIN_LIMIT hw] decode_all_ok
    by (auto simp: kbd_ok_def keyboard_irq_def dest!: in_set_takeD)
next
  case (get s r s')
  then show ?case using get_ok by blast
next
  case (try_get s lock r s')
  then show ?case using get_ok by (auto simp: try_get_cases split: if_splits)
next
  case (getc s c s')
  have "set (tl (dropWhile P xs)) \<subseteq> set xs" for P and xs :: "rabbitbone_key_event_t list"
    by (induction xs) auto
  with getc show ?case using getc_content [of s] unfolding kbd_ok_def by fastforce
qed

definition boot_kbd :: kbd_t where
  "boot_kbd = \<lparr>kb_queue = replicate QUEUE_SIZE \<lparr>ev_code = 0, ev_mods = 0, ev_ch = 0, ev_scancode = 0\<rparr>, kb_head = 0, kb_tail = 0,
     shift_down = False, ctrl_down = False, alt_down = False, extended = False\<rparr>"

lemma boot_kbd_inv: "kbd_inv boot_kbd" "kbd_content boot_kbd = []" "keyboard_init boot_kbd = (boot_kbd, snd (keyboard_init boot_kbd))"
  by (simp_all add: boot_kbd_def kbd_inv_def kbd_content_def ring_slice_def keyboard_pending_def QUEUE_SIZE_def keyboard_init_def)

lemma demo_decode: "decode_all (kmode_of boot_kbd) [0x2a, 0x1e, 0xaa, 0xe0, 0x48] =
   [\<lparr>ev_code = 1, ev_mods = 1, ev_ch = 0x41, ev_scancode = 0x1e\<rparr>, \<lparr>ev_code = 100, ev_mods = 0, ev_ch = 0, ev_scancode = 0x48\<rparr>]"
  by code_simp

section \<open>Properties\<close>

text \<open>
  C13: The keyboard interrupt delivers the keys in order and without a fault. From any consistent
  state, one interrupt takes up to 32 bytes from the controller and the queue afterwards holds
  the events it held before, followed by the events the decoding automaton produces from those
  bytes in the current modifier state, cut at the 63 events the queue can hold: a full queue
  drops the newest keys and never disturbs the pending ones.
\<close>
theorem keyboard_irq_queues:
  assumes "kbd_inv s"
  shows "\<exists>s'. keyboard_irq hw s = Some (s', drop 32 hw) \<and> kbd_inv s' \<and> kmode_of s' = mode_after (kmode_of s) (take 32 hw) \<and>
     kbd_content s' = take 63 (kbd_content s @ decode_all (kmode_of s) (take 32 hw))"
  using irq_drain_content [OF assms, of KBD_IRQ_DRAIN_LIMIT hw]
  by (simp add: keyboard_irq_def KBD_IRQ_DRAIN_LIMIT_def QUEUE_SIZE_def)

theorem keyboard_irq_queues_witness:
  "\<exists>s'. keyboard_irq [0x2a, 0x1e, 0xaa, 0xe0, 0x48] boot_kbd = Some (s', []) \<and>
     kbd_content s' = [\<lparr>ev_code = 1, ev_mods = 1, ev_ch = 0x41, ev_scancode = 0x1e\<rparr>,
       \<lparr>ev_code = 100, ev_mods = 0, ev_ch = 0, ev_scancode = 0x48\<rparr>]"
  using keyboard_irq_queues [OF boot_kbd_inv(1), of "[0x2a, 0x1e, 0xaa, 0xe0, 0x48]"] demo_decode boot_kbd_inv(2)
  by (auto simp del: decode_all.simps)

text \<open>
  C20: Every event a reader can get is well formed. In every state reachable by interrupts and
  reads in any order, the queue indices are in range and a read returns nothing or an event
  whose modifiers and scan code are in range and which is either a 7-bit character with the key
  class of that character, or a navigation key without a character.
\<close>
theorem keyboard_events_typed:
  assumes "kbd_reach s"
  shows "kbd_inv s \<and> keyboard_pending s < 64 \<and>
    (\<exists>r s'. keyboard_get_event s = Some (r, s') \<and> (case r of None \<Rightarrow> True | Some ev \<Rightarrow> event_ok ev)) \<and>
    (\<exists>r. keyboard_peek_event s = Some r \<and> (case r of None \<Rightarrow> True | Some ev \<Rightarrow> event_ok ev))"
proof -
  have ok: "kbd_ok s" using reach_ok [OF assms] .
  then have inv: "kbd_inv s" by (simp add: kbd_ok_def)
  have "\<exists>r s'. keyboard_get_event s = Some (r, s') \<and> (case r of None \<Rightarrow> True | Some ev \<Rightarrow> event_ok ev)"
    using kq.pop_some [OF inv] kq.pop_empty [OF inv] ok unfolding kbd_ok_def by (cases "kbd_content s") auto
  moreover have "\<exists>r. keyboard_peek_event s = Some r \<and> (case r of None \<Rightarrow> True | Some ev \<Rightarrow> event_ok ev)"
    using ok content_get [OF inv] inv unfolding keyboard_peek_event_def kbd_ok_def by (auto simp: kbd_inv_def)
  ultimately show ?thesis using inv pending_less [OF inv] by (simp add: QUEUE_SIZE_def)
qed

theorem keyboard_events_typed_witness:
  "kbd_reach boot_kbd \<and> kbd_inv boot_kbd \<and> keyboard_pending boot_kbd < 64 \<and>
   (\<exists>s. kbd_reach s \<and> keyboard_pending s = 2 \<and> (\<exists>r s'. keyboard_get_event s = Some (r, s')))"
proof -
  have b: "kbd_reach boot_kbd"
    using kbd_reach.init [of boot_kbd] boot_kbd_inv(3) by (metis boot_kbd_inv(1) fst_conv kbd_inv_def)
  obtain s' where s': "keyboard_irq [0x2a, 0x1e, 0xaa, 0xe0, 0x48] boot_kbd = Some (s', drop 32 [0x2a, 0x1e, 0xaa, 0xe0, 0x48])"
    "length (kbd_content s') = 2"
    using irq_drain_content [OF boot_kbd_inv(1), of KBD_IRQ_DRAIN_LIMIT "[0x2a, 0x1e, 0xaa, 0xe0, 0x48]"] demo_decode boot_kbd_inv(2)
    by (auto simp: keyboard_irq_def KBD_IRQ_DRAIN_LIMIT_def QUEUE_SIZE_def simp del: decode_all.simps length_content)
  then have "kbd_reach s'" using kbd_reach.irq [OF b] by blast
  with s'(2) b show ?thesis using keyboard_events_typed [of s'] keyboard_events_typed [of boot_kbd] by auto
qed

text \<open>
  C33: The loop that reads a character ends. From every consistent state it returns the first
  pending character, discarding the keys without one before it, or reports that there is none
  after emptying the queue; the keys behind the character stay queued in order.
\<close>
theorem keyboard_getc_terminates:
  assumes "kbd_inv s"
  shows "\<exists>s'. keyboard_getc s = Some
       (case dropWhile (\<lambda>ev. ev_ch ev = 0) (kbd_content s) of [] \<Rightarrow> None | ev # _ \<Rightarrow> Some (ucast (ev_ch ev)), s') \<and>
     kbd_inv s' \<and> kbd_content s' = tl (dropWhile (\<lambda>ev. ev_ch ev = 0) (kbd_content s))"
  using getc_content [OF assms] by (cases "dropWhile (\<lambda>ev. ev_ch ev = 0) (kbd_content s)") (simp_all del: dropWhile_eq_Nil_conv)

theorem keyboard_getc_terminates_witness: "\<exists>s'. keyboard_getc boot_kbd = Some (None, s') \<and> kbd_content s' = []"
  using keyboard_getc_terminates [OF boot_kbd_inv(1)] boot_kbd_inv(2) by auto

end
