(* ===== verification/Tty.thy ===== *)
theory Tty
  imports Keyboard
begin

text \<open>
  The terminal layer, \<^verbatim>\<open>kernel/core/tty.c\<close>: terminal modes per process, and the readers on top
  of the keyboard driver. The screen of \<^verbatim>\<open>console.c\<close> and \<^verbatim>\<open>vga.c\<close> is an argument, a
  collection of operations on a screen state. The process that calls is given by a flag that a
  user process is active and by its pid. A halt of the processor ends with a keyboard
  interrupt: \<open>wake i\<close> is what the controller has received when the \<open>i\<close>-th halt ends.
\<close>

section \<open>State\<close>

definition RABBITBONE_TTY_MODE_RAW :: u32 where "RABBITBONE_TTY_MODE_RAW = 1"
definition RABBITBONE_TTY_MODE_ECHO :: u32 where "RABBITBONE_TTY_MODE_ECHO = 2"
definition RABBITBONE_TTY_MODE_CANON :: u32 where "RABBITBONE_TTY_MODE_CANON = 4"
definition RABBITBONE_TTY_READ_NONBLOCK :: u32 where "RABBITBONE_TTY_READ_NONBLOCK = 1"

definition TTY_MODE_SLOTS :: nat where "TTY_MODE_SLOTS = 32"
definition TTY_DEFAULT_MODE :: u32 where "TTY_DEFAULT_MODE = RABBITBONE_TTY_MODE_CANON OR RABBITBONE_TTY_MODE_ECHO"

record tty_mode_slot_t =
  sl_used :: bool
  sl_pid :: nat
  sl_mode :: u32

record tty_t =
  kernel_tty_mode :: u32
  tty_modes :: "tty_mode_slot_t list"

record rabbitbone_ttyinfo_t =
  ti_rows :: nat
  ti_cols :: nat
  ti_cursor_row :: nat
  ti_cursor_col :: nat
  ti_mode :: u32
  ti_pending_keys :: nat

text \<open>The screen: the operations the terminal layer calls, on a state \<open>'v\<close>.\<close>

record 'v screen =
  vga_size :: "'v \<Rightarrow> nat \<times> nat"
  vga_cursor :: "'v \<Rightarrow> nat \<times> nat"
  vga_scrollback :: "'v \<Rightarrow> bool \<times> 'v"
  con_flush :: "'v \<Rightarrow> 'v"
  con_scroll :: "int \<Rightarrow> 'v \<Rightarrow> bool \<times> 'v"
  con_move :: "nat \<Rightarrow> nat \<Rightarrow> 'v \<Rightarrow> bool \<times> 'v"
  con_visible :: "bool \<Rightarrow> 'v \<Rightarrow> bool \<times> 'v"
  con_clear_line :: "'v \<Rightarrow> bool \<times> 'v"
  con_clear :: "'v \<Rightarrow> 'v"

text \<open>Who calls: whether a user process is active, and its pid.\<close>

record caller =
  user_active :: bool
  caller_pid :: nat

section \<open>Modes\<close>

definition tty_mode_valid :: "u32 \<Rightarrow> bool" where
  "tty_mode_valid mode =
     (let allowed = RABBITBONE_TTY_MODE_RAW OR RABBITBONE_TTY_MODE_ECHO OR RABBITBONE_TTY_MODE_CANON in
      if mode AND NOT allowed \<noteq> 0 then False
      else if mode AND RABBITBONE_TTY_MODE_RAW \<noteq> 0 \<and> mode AND RABBITBONE_TTY_MODE_CANON \<noteq> 0 then False
      else True)"

definition current_tty_pid :: "caller \<Rightarrow> nat" where
  "current_tty_pid c = (if user_active c then caller_pid c else 0)"

text \<open>The scan returns the slot of the process, or the first free slot it passed.\<close>

fun slot_scan :: "tty_mode_slot_t list \<Rightarrow> nat \<Rightarrow> nat \<Rightarrow> nat \<Rightarrow> nat option \<Rightarrow> (nat option \<times> nat option) option" where
  "slot_scan sl pid i 0 free_slot = Some (None, free_slot)"
| "slot_scan sl pid i (Suc n) free_slot = do {
     e \<leftarrow> arr_get sl i;
     if sl_used e \<and> sl_pid e = pid then Some (Some i, free_slot)
     else slot_scan sl pid (Suc i) n (if \<not> sl_used e \<and> free_slot = None then Some i else free_slot) }"

definition tty_find_slot_locked :: "nat \<Rightarrow> bool \<Rightarrow> tty_t \<Rightarrow> (nat option \<times> tty_t) option" where
  "tty_find_slot_locked pid create s = do {
     (found, free_slot) \<leftarrow> slot_scan (tty_modes s) pid 0 TTY_MODE_SLOTS None;
     case found of Some i \<Rightarrow> Some (Some i, s)
     | None \<Rightarrow> (case free_slot of
         None \<Rightarrow> Some (None, s)
       | Some i \<Rightarrow> if \<not> create then Some (None, s)
                 else do {
                   sl \<leftarrow> arr_set (tty_modes s) i \<lparr>sl_used = True, sl_pid = pid, sl_mode = TTY_DEFAULT_MODE\<rparr>;
                   Some (Some i, s\<lparr>tty_modes := sl\<rparr>) }) }"

definition zero_slot :: tty_mode_slot_t where
  "zero_slot = \<lparr>sl_used = False, sl_pid = 0, sl_mode = 0\<rparr>"

definition tty_init :: "'v screen \<Rightarrow> 'v \<Rightarrow> tty_t \<times> 'v \<times> klog_call list" where
  "tty_init scr v =
     (let (ok, v) = vga_scrollback scr v in
      (\<lparr>kernel_tty_mode = TTY_DEFAULT_MODE, tty_modes = replicate TTY_MODE_SLOTS zero_slot\<rparr>, v,
       if \<not> ok then [(LOG_WARN, cbytes ''tty'', cbytes ''scrollback initialization failed; using live screen only'', [])] else []))"

definition tty_get_mode :: "caller \<Rightarrow> tty_t \<Rightarrow> u32 option" where
  "tty_get_mode c s =
     (let pid = current_tty_pid c in
      if pid \<noteq> 0 then do {
        (slot, _) \<leftarrow> tty_find_slot_locked pid False s;
        case slot of Some i \<Rightarrow> do { e \<leftarrow> arr_get (tty_modes s) i; Some (sl_mode e) } | None \<Rightarrow> Some (kernel_tty_mode s) }
      else Some (kernel_tty_mode s))"

fun forget_scan :: "tty_mode_slot_t list \<Rightarrow> nat \<Rightarrow> nat \<Rightarrow> nat \<Rightarrow> tty_mode_slot_t list option" where
  "forget_scan sl pid i 0 = Some sl"
| "forget_scan sl pid i (Suc n) = do {
     e \<leftarrow> arr_get sl i;
     if sl_used e \<and> sl_pid e = pid then arr_set sl i zero_slot else forget_scan sl pid (Suc i) n }"

definition tty_forget_pid :: "nat \<Rightarrow> tty_t \<Rightarrow> tty_t option" where
  "tty_forget_pid pid s = (if pid = 0 then Some s
     else do { sl \<leftarrow> forget_scan (tty_modes s) pid 0 TTY_MODE_SLOTS; Some (s\<lparr>tty_modes := sl\<rparr>) })"

definition tty_set_mode :: "caller \<Rightarrow> u32 \<Rightarrow> tty_t \<Rightarrow> (bool \<times> tty_t) option" where
  "tty_set_mode c mode s =
     (if \<not> tty_mode_valid mode then Some (False, s)
      else let pid = current_tty_pid c in
      if pid \<noteq> 0 then do {
        (slot, s) \<leftarrow> tty_find_slot_locked pid True s;
        case slot of None \<Rightarrow> Some (False, s)
        | Some i \<Rightarrow> do {
            e \<leftarrow> arr_get (tty_modes s) i;
            sl \<leftarrow> arr_set (tty_modes s) i (e\<lparr>sl_mode := mode\<rparr>);
            Some (True, s\<lparr>tty_modes := sl\<rparr>) } }
      else Some (True, s\<lparr>kernel_tty_mode := mode\<rparr>))"

section \<open>Screen and keys\<close>

partial_function (option) read_char_loop :: "kbd_t \<Rightarrow> (u8 option \<times> kbd_t) option" where
  "read_char_loop k = do {
     (r, k) \<leftarrow> keyboard_get_event k;
     case r of None \<Rightarrow> Some (None, k)
     | Some ev \<Rightarrow> if ev_ch ev = 0 then read_char_loop k else Some (Some (ucast (ev_ch ev)), k) }"

definition tty_read_char :: "'v screen \<Rightarrow> kbd_t \<Rightarrow> 'v \<Rightarrow> (u8 option \<times> kbd_t \<times> 'v) option" where
  "tty_read_char scr k v = do {
     let v = con_flush scr v;
     (c, k) \<leftarrow> read_char_loop k;
     Some (c, k, v) }"

text \<open>The information for a destination that is not null.\<close>

definition tty_getinfo :: "'v screen \<Rightarrow> caller \<Rightarrow> tty_t \<Rightarrow> kbd_t \<Rightarrow> 'v \<Rightarrow> rabbitbone_ttyinfo_t option" where
  "tty_getinfo scr c s k v = do {
     let (rows, cols) = vga_size scr v;
     let (row, col) = vga_cursor scr v;
     mode \<leftarrow> tty_get_mode c s;
     Some \<lparr>ti_rows = rows, ti_cols = cols, ti_cursor_row = row, ti_cursor_col = col, ti_mode = mode,
           ti_pending_keys = keyboard_pending k\<rparr> }"

definition tty_key_none :: rabbitbone_key_event_t where
  "tty_key_none = \<lparr>ev_code = RABBITBONE_KEY_NONE, ev_mods = 0, ev_ch = 0, ev_scancode = 0\<rparr>"

definition tty_scroll :: "'v screen \<Rightarrow> int \<Rightarrow> 'v \<Rightarrow> bool \<times> 'v" where
  "tty_scroll scr lines v = con_scroll scr lines v"

definition tty_set_cursor :: "'v screen \<Rightarrow> nat \<Rightarrow> nat \<Rightarrow> 'v \<Rightarrow> bool \<times> 'v" where
  "tty_set_cursor scr row col v =
     (let (rows, cols) = vga_size scr v in
      if rows = 0 \<or> cols = 0 then (False, v)
      else if row \<ge> rows \<or> col \<ge> cols then (False, v)
      else con_move scr row col v)"

definition tty_set_cursor_visible :: "'v screen \<Rightarrow> bool \<Rightarrow> 'v \<Rightarrow> bool \<times> 'v" where
  "tty_set_cursor_visible scr visible v = con_visible scr visible v"

definition tty_clear_line :: "'v screen \<Rightarrow> 'v \<Rightarrow> bool \<times> 'v" where
  "tty_clear_line scr v = con_clear_line scr v"

definition tty_clear :: "'v screen \<Rightarrow> 'v \<Rightarrow> bool \<times> 'v" where
  "tty_clear scr v = (True, con_clear scr v)"

text \<open>The wait of a kernel caller; \<open>hw\<close> is what the last interrupt left in the controller.\<close>

partial_function (option) tty_wait :: "(nat \<Rightarrow> u8 list) \<Rightarrow> nat \<Rightarrow> u8 list \<Rightarrow> kbd_t \<Rightarrow> (rabbitbone_key_event_t \<times> kbd_t) option" where
  "tty_wait wake i hw k = do {
     (k, hw) \<leftarrow> keyboard_irq (hw @ wake i) k;
     (r, k) \<leftarrow> keyboard_get_event k;
     case r of Some ev \<Rightarrow> Some (ev, k) | None \<Rightarrow> tty_wait wake (Suc i) hw k }"

text \<open>The result, what is stored through \<^verbatim>\<open>out\<close> if it is not null, and the new states.\<close>

definition tty_read_key :: "'v screen \<Rightarrow> caller \<Rightarrow> (nat \<Rightarrow> u8 list) \<Rightarrow> bool \<Rightarrow> u32 \<Rightarrow> kbd_t \<Rightarrow> 'v \<Rightarrow>
    (bool \<times> rabbitbone_key_event_t option \<times> kbd_t \<times> 'v) option" where
  "tty_read_key scr c wake out flags k v =
     (let v = con_flush scr v in
      if \<not> out then Some (False, None, k, v)
      else if flags AND NOT RABBITBONE_TTY_READ_NONBLOCK \<noteq> 0 then Some (False, Some tty_key_none, k, v)
      else do {
        (r, k) \<leftarrow> keyboard_get_event k;
        case r of Some ev \<Rightarrow> Some (True, Some ev, k, v)
        | None \<Rightarrow>
            if flags AND RABBITBONE_TTY_READ_NONBLOCK \<noteq> 0 \<or> user_active c then Some (True, Some tty_key_none, k, v)
            else do { (ev, k) \<leftarrow> tty_wait wake 0 [] k; Some (True, Some ev, k, v) } })"

definition tty_selftest :: "'v screen \<Rightarrow> caller \<Rightarrow> tty_t \<Rightarrow> kbd_t \<Rightarrow> 'v \<Rightarrow> (bool \<times> tty_t \<times> kbd_t \<times> 'v) option" where
  "tty_selftest scr c s k v = do {
     info \<leftarrow> tty_getinfo scr c s k v;
     if ti_rows info < 12 \<or> ti_cols info < 40 \<or> ti_cursor_row info \<ge> ti_rows info \<or> ti_cursor_col info \<ge> ti_cols info
     then Some (False, s, k, v)
     else do {
       old \<leftarrow> tty_get_mode c s;
       (ok, s) \<leftarrow> tty_set_mode c RABBITBONE_TTY_MODE_RAW s;
       if \<not> ok then Some (False, s, k, v)
       else do {
         mode \<leftarrow> tty_get_mode c s;
         if mode \<noteq> RABBITBONE_TTY_MODE_RAW then Some (False, s, k, v)
         else do {
           (ok, s) \<leftarrow> tty_set_mode c (RABBITBONE_TTY_MODE_RAW OR RABBITBONE_TTY_MODE_CANON) s;
           if ok then Some (False, s, k, v)
           else do {
             (ok, s) \<leftarrow> tty_set_mode c old s;
             if \<not> ok then Some (False, s, k, v)
             else do {
               let old_row = ti_cursor_row info;
               let old_col = ti_cursor_col info;
               let (ok, v) = tty_set_cursor scr (ti_rows info - 1) (ti_cols info - 1) v;
               if \<not> ok then Some (False, s, k, v)
               else do {
                 let (ok, v) = tty_set_cursor scr (if old_row < ti_rows info then old_row else 0) (if old_col < ti_cols info then old_col else 0) v;
                 if \<not> ok then Some (False, s, k, v)
                 else do {
                   (ok, ev, k, v) \<leftarrow> tty_read_key scr c (\<lambda>_. []) True RABBITBONE_TTY_READ_NONBLOCK k v;
                   ev \<leftarrow> ev;
                   Some (ok \<and> (ev_code ev = RABBITBONE_KEY_NONE \<or> ev_code ev = RABBITBONE_KEY_CHAR \<or> ev_code ev \<ge> RABBITBONE_KEY_UP),
                         s, k, v) } } } } } } } }"

section \<open>The mode table as a map\<close>

definition holds :: "tty_mode_slot_t list \<Rightarrow> nat \<Rightarrow> nat \<Rightarrow> bool" where
  "holds sl pid j = (sl_used (sl ! j) \<and> sl_pid (sl ! j) = pid)"

definition tty_map :: "tty_t \<Rightarrow> nat \<Rightarrow> u32 option" where
  "tty_map s pid = map_option (\<lambda>j. sl_mode (tty_modes s ! j)) (find (holds (tty_modes s) pid) [0..<TTY_MODE_SLOTS])"

definition tty_full :: "tty_t \<Rightarrow> bool" where
  "tty_full s = (\<forall>j<TTY_MODE_SLOTS. sl_used (tty_modes s ! j))"

definition tty_inv :: "tty_t \<Rightarrow> bool" where
  "tty_inv s = (length (tty_modes s) = TTY_MODE_SLOTS \<and> tty_mode_valid (kernel_tty_mode s) \<and>
     (\<forall>j<TTY_MODE_SLOTS. sl_used (tty_modes s ! j) \<longrightarrow> sl_pid (tty_modes s ! j) \<noteq> 0 \<and> tty_mode_valid (sl_mode (tty_modes s ! j))) \<and>
     (\<forall>i<TTY_MODE_SLOTS. \<forall>j<TTY_MODE_SLOTS. sl_used (tty_modes s ! i) \<and> sl_used (tty_modes s ! j) \<and>
        sl_pid (tty_modes s ! i) = sl_pid (tty_modes s ! j) \<longrightarrow> i = j))"

lemma tty_invI:
  assumes "length (tty_modes s) = TTY_MODE_SLOTS" "tty_mode_valid (kernel_tty_mode s)"
    and "\<And>j. j < TTY_MODE_SLOTS \<Longrightarrow> sl_used (tty_modes s ! j) \<Longrightarrow> sl_pid (tty_modes s ! j) \<noteq> 0 \<and> tty_mode_valid (sl_mode (tty_modes s ! j))"
    and "\<And>i j pid. i < TTY_MODE_SLOTS \<Longrightarrow> j < TTY_MODE_SLOTS \<Longrightarrow> holds (tty_modes s) pid i \<Longrightarrow> holds (tty_modes s) pid j \<Longrightarrow> i = j"
  shows "tty_inv s"
  using assms unfolding tty_inv_def holds_def by metis

lemma tty_inv_slot: "tty_inv s \<Longrightarrow> j < TTY_MODE_SLOTS \<Longrightarrow> sl_used (tty_modes s ! j) \<Longrightarrow>
    sl_pid (tty_modes s ! j) \<noteq> 0 \<and> tty_mode_valid (sl_mode (tty_modes s ! j))"
  by (simp add: tty_inv_def)

lemma tty_inv_unique: "tty_inv s \<Longrightarrow> i < TTY_MODE_SLOTS \<Longrightarrow> j < TTY_MODE_SLOTS \<Longrightarrow>
    holds (tty_modes s) pid i \<Longrightarrow> holds (tty_modes s) pid j \<Longrightarrow> i = j"
  unfolding tty_inv_def holds_def by metis

lemma slot_scan_None:
  "i + n \<le> length sl \<Longrightarrow> find (holds sl pid) [i..<i + n] = None \<Longrightarrow>
   slot_scan sl pid i n fr = Some (None, case fr of None \<Rightarrow> find (\<lambda>j. \<not> sl_used (sl ! j)) [i..<i + n] | Some f \<Rightarrow> Some f)"
proof (induction n arbitrary: i fr)
  case (Suc n)
  have u: "[i..<i + Suc n] = i # [Suc i..<Suc i + n]" by (simp add: upt_conv_Cons del: upt_Suc)
  show ?case using Suc.prems Suc.IH [of "Suc i"] unfolding u by (auto simp: holds_def split: if_splits option.splits)
qed (simp split: option.splits)

lemma slot_scan_Some:
  "i + n \<le> length sl \<Longrightarrow> find (holds sl pid) [i..<i + n] = Some j \<Longrightarrow> \<exists>f. slot_scan sl pid i n fr = Some (Some j, f)"
proof (induction n arbitrary: i fr)
  case (Suc n)
  have u: "[i..<i + Suc n] = i # [Suc i..<Suc i + n]" by (simp add: upt_conv_Cons del: upt_Suc)
  show ?case using Suc.prems Suc.IH [of "Suc i"] unfolding u by (auto simp: holds_def split: if_splits)
qed simp

lemma forget_scan_eq:
  "i + n \<le> length sl \<Longrightarrow> forget_scan sl pid i n =
     Some (case find (holds sl pid) [i..<i + n] of None \<Rightarrow> sl | Some j \<Rightarrow> sl[j := zero_slot])"
proof (induction n arbitrary: i)
  case (Suc n)
  have u: "[i..<i + Suc n] = i # [Suc i..<Suc i + n]" by (simp add: upt_conv_Cons del: upt_Suc)
  show ?case using Suc.prems Suc.IH [of "Suc i"] unfolding u by (auto simp: holds_def)
qed simp

lemma find_upt_Some: "find P [0..<n] = Some j \<Longrightarrow> j < n \<and> P j" for n :: nat
  by (auto simp: find_Some_iff)

lemma find_upt_None: "find P [0..<n] = None \<longleftrightarrow> (\<forall>j<n. \<not> P j)" for n :: nat
  by (auto simp: find_None_iff)

lemma tty_map_Some:
  assumes "tty_inv s" "j < TTY_MODE_SLOTS" "holds (tty_modes s) pid j"
  shows "tty_map s pid = Some (sl_mode (tty_modes s ! j))"
proof (cases "find (holds (tty_modes s) pid) [0..<TTY_MODE_SLOTS]")
  case None
  then show ?thesis using assms(2,3) by (simp add: find_upt_None)
next
  case (Some k)
  then have "k = j" using find_upt_Some [OF Some] assms unfolding tty_inv_def holds_def by metis
  then show ?thesis using Some by (simp add: tty_map_def)
qed

lemma tty_map_None: "tty_map s pid = None \<longleftrightarrow> (\<forall>j<TTY_MODE_SLOTS. \<not> holds (tty_modes s) pid j)"
  by (simp add: tty_map_def find_upt_None)

lemma tty_map_eqI:
  assumes "tty_inv s" "tty_inv s'"
    and "\<And>j. j < TTY_MODE_SLOTS \<Longrightarrow> holds (tty_modes s) pid j \<longleftrightarrow> holds (tty_modes s') pid j"
    and "\<And>j. j < TTY_MODE_SLOTS \<Longrightarrow> holds (tty_modes s) pid j \<Longrightarrow> sl_mode (tty_modes s ! j) = sl_mode (tty_modes s' ! j)"
  shows "tty_map s' pid = tty_map s pid"
  using assms tty_map_Some tty_map_None by (metis (no_types, lifting) not_None_eq)

text \<open>Replacing slot \<open>j\<close>, which is free or belongs to the process already.\<close>

lemma tty_set_slot:
  assumes inv: "tty_inv s" and j: "j < TTY_MODE_SLOTS" "\<not> sl_used (tty_modes s ! j) \<and> tty_map s pid = None \<or> holds (tty_modes s) pid j"
    and ok: "pid \<noteq> 0" "tty_mode_valid mode"
  defines "s' \<equiv> s\<lparr>tty_modes := (tty_modes s)[j := \<lparr>sl_used = True, sl_pid = pid, sl_mode = mode\<rparr>]\<rparr>"
  shows "tty_inv s'" "tty_map s' = (tty_map s)(pid \<mapsto> mode)"
proof -
  have len: "length (tty_modes s) = TTY_MODE_SLOTS" using inv by (simp add: tty_inv_def)
  have other: "k = j" if "k < TTY_MODE_SLOTS" "holds (tty_modes s) pid k" for k
    using j(2) that inv j(1) unfolding tty_map_None tty_inv_def holds_def by metis
  have new: "holds (tty_modes s') p k \<longleftrightarrow> (if k = j then p = pid else holds (tty_modes s) p k)" if "k < TTY_MODE_SLOTS" for p k
    using that j(1) len by (auto simp: s'_def holds_def)
  show inv': "tty_inv s'"
  proof (rule tty_invI)
    show "length (tty_modes s') = TTY_MODE_SLOTS" "tty_mode_valid (kernel_tty_mode s')"
      using inv len by (simp_all add: s'_def tty_inv_def)
    show "sl_pid (tty_modes s' ! k) \<noteq> 0 \<and> tty_mode_valid (sl_mode (tty_modes s' ! k))" if "k < TTY_MODE_SLOTS" "sl_used (tty_modes s' ! k)" for k
      using that tty_inv_slot [OF inv that(1)] ok j(1) len by (cases "k = j") (simp_all add: s'_def)
    show "i = k" if "i < TTY_MODE_SLOTS" "k < TTY_MODE_SLOTS" "holds (tty_modes s') p i" "holds (tty_modes s') p k" for i k p
      using that new other tty_inv_unique [OF inv that(1,2)] by metis
  qed
  have "tty_map s' pid = Some mode"
    using tty_map_Some [OF inv' j(1)] j(1) len by (simp add: s'_def holds_def)
  moreover have "tty_map s' p = tty_map s p" if p: "p \<noteq> pid" for p
  proof (rule tty_map_eqI [OF inv inv'])
    have keep: "k \<noteq> j" if "holds (tty_modes s) p k" for k using that p j(2) by (auto simp: holds_def)
    show "holds (tty_modes s) p k \<longleftrightarrow> holds (tty_modes s') p k" if "k < TTY_MODE_SLOTS" for k
      using keep new [OF that] p by auto
    show "sl_mode (tty_modes s ! k) = sl_mode (tty_modes s' ! k)" if "holds (tty_modes s) p k" for k
      using keep [OF that] by (simp add: s'_def)
  qed
  ultimately show "tty_map s' = (tty_map s)(pid \<mapsto> mode)" by auto
qed

lemma tty_drop_slot:
  assumes inv: "tty_inv s" and j: "j < TTY_MODE_SLOTS" "holds (tty_modes s) pid j"
  defines "s' \<equiv> s\<lparr>tty_modes := (tty_modes s)[j := zero_slot]\<rparr>"
  shows "tty_inv s'" "tty_map s' = (tty_map s)(pid := None)"
proof -
  have len: "length (tty_modes s) = TTY_MODE_SLOTS" using inv by (simp add: tty_inv_def)
  have new: "holds (tty_modes s') p k \<longleftrightarrow> k \<noteq> j \<and> holds (tty_modes s) p k" if "k < TTY_MODE_SLOTS" for p k
    using that j(1) len by (auto simp: s'_def holds_def nth_list_update zero_slot_def)
  show inv': "tty_inv s'"
  proof (rule tty_invI)
    show "length (tty_modes s') = TTY_MODE_SLOTS" "tty_mode_valid (kernel_tty_mode s')"
      using inv len by (simp_all add: s'_def tty_inv_def)
    show "sl_pid (tty_modes s' ! k) \<noteq> 0 \<and> tty_mode_valid (sl_mode (tty_modes s' ! k))" if "k < TTY_MODE_SLOTS" "sl_used (tty_modes s' ! k)" for k
      using that tty_inv_slot [OF inv that(1)] j(1) len by (cases "k = j") (simp_all add: s'_def zero_slot_def)
    show "i = k" if "i < TTY_MODE_SLOTS" "k < TTY_MODE_SLOTS" "holds (tty_modes s') p i" "holds (tty_modes s') p k" for i k p
      using that new tty_inv_unique [OF inv that(1,2)] by metis
  qed
  have "tty_map s' pid = None"
    using new tty_inv_unique [OF inv _ j(1) _ j(2)] unfolding tty_map_None by blast
  moreover have "tty_map s' p = tty_map s p" if p: "p \<noteq> pid" for p
  proof (rule tty_map_eqI [OF inv inv'])
    have keep: "k \<noteq> j" if "holds (tty_modes s) p k" for k using that p j(2) by (auto simp: holds_def)
    show "holds (tty_modes s) p k \<longleftrightarrow> holds (tty_modes s') p k" if "k < TTY_MODE_SLOTS" for k
      using keep new [OF that] by auto
    show "sl_mode (tty_modes s ! k) = sl_mode (tty_modes s' ! k)" if "holds (tty_modes s) p k" for k
      using keep [OF that] by (simp add: s'_def)
  qed
  ultimately show "tty_map s' = (tty_map s)(pid := None)" by auto
qed

section \<open>Operations on the map\<close>

lemma find_slot_found:
  assumes "tty_inv s" "tty_map s pid = Some m"
  shows "\<exists>j<TTY_MODE_SLOTS. holds (tty_modes s) pid j \<and> sl_mode (tty_modes s ! j) = m \<and> tty_find_slot_locked pid create s = Some (Some j, s)"
proof -
  obtain j where j: "find (holds (tty_modes s) pid) [0..<0 + TTY_MODE_SLOTS] = Some j" "sl_mode (tty_modes s ! j) = m"
    using assms(2) by (auto simp: tty_map_def)
  have "0 + TTY_MODE_SLOTS \<le> length (tty_modes s)" using assms(1) by (simp add: tty_inv_def)
  from slot_scan_Some [OF this j(1), of None]
  have "tty_find_slot_locked pid create s = Some (Some j, s)" by (auto simp: tty_find_slot_locked_def)
  moreover have "j < TTY_MODE_SLOTS \<and> holds (tty_modes s) pid j" by (rule find_upt_Some) (use j(1) in simp)
  ultimately show ?thesis using j(2) by blast
qed

lemma find_slot_missing:
  assumes "tty_inv s" "tty_map s pid = None"
  shows "tty_find_slot_locked pid False s = Some (None, s)"
    "tty_full s \<Longrightarrow> tty_find_slot_locked pid True s = Some (None, s)"
    "\<not> tty_full s \<Longrightarrow> \<exists>j<TTY_MODE_SLOTS. \<not> sl_used (tty_modes s ! j) \<and> tty_find_slot_locked pid True s =
       Some (Some j, s\<lparr>tty_modes := (tty_modes s)[j := \<lparr>sl_used = True, sl_pid = pid, sl_mode = TTY_DEFAULT_MODE\<rparr>]\<rparr>)"
proof -
  have len: "length (tty_modes s) = TTY_MODE_SLOTS" using assms(1) by (simp add: tty_inv_def)
  have n: "find (holds (tty_modes s) pid) [0..<0 + TTY_MODE_SLOTS] = None" using assms(2) by (simp add: tty_map_def)
  have scan: "slot_scan (tty_modes s) pid 0 TTY_MODE_SLOTS None = Some (None, find (\<lambda>j. \<not> sl_used (tty_modes s ! j)) [0..<TTY_MODE_SLOTS])"
    using slot_scan_None [OF _ n] len by simp
  show "tty_find_slot_locked pid False s = Some (None, s)"
    by (simp add: tty_find_slot_locked_def scan split: option.splits)
  show "tty_full s \<Longrightarrow> tty_find_slot_locked pid True s = Some (None, s)"
    by (simp add: tty_find_slot_locked_def scan tty_full_def find_upt_None [THEN iffD2])
  assume "\<not> tty_full s"
  then obtain j where j: "find (\<lambda>j. \<not> sl_used (tty_modes s ! j)) [0..<TTY_MODE_SLOTS] = Some j"
    using find_upt_None [of "\<lambda>j. \<not> sl_used (tty_modes s ! j)" TTY_MODE_SLOTS] unfolding tty_full_def by (metis not_None_eq)
  show "\<exists>j<TTY_MODE_SLOTS. \<not> sl_used (tty_modes s ! j) \<and> tty_find_slot_locked pid True s =
       Some (Some j, s\<lparr>tty_modes := (tty_modes s)[j := \<lparr>sl_used = True, sl_pid = pid, sl_mode = TTY_DEFAULT_MODE\<rparr>]\<rparr>)"
    using find_upt_Some [OF j] len by (intro exI [of _ j]) (simp add: tty_find_slot_locked_def scan j)
qed

definition caller_mode :: "tty_t \<Rightarrow> nat \<Rightarrow> u32" where
  "caller_mode s pid = (case tty_map s pid of Some m \<Rightarrow> if pid = 0 then kernel_tty_mode s else m | None \<Rightarrow> kernel_tty_mode s)"

lemma get_mode_map: "tty_inv s \<Longrightarrow> tty_get_mode c s = Some (caller_mode s (current_tty_pid c))"
proof (cases "tty_map s (current_tty_pid c)")
  case None
  assume "tty_inv s"
  with None find_slot_missing(1) [of s "current_tty_pid c"] show ?thesis by (simp add: tty_get_mode_def caller_mode_def Let_def)
next
  case (Some m)
  assume inv: "tty_inv s"
  have "length (tty_modes s) = TTY_MODE_SLOTS" using inv by (simp add: tty_inv_def)
  with find_slot_found [OF inv Some, of False] Some show ?thesis by (auto simp: tty_get_mode_def caller_mode_def)
qed

lemma set_mode_user:
  assumes inv: "tty_inv s" and v: "tty_mode_valid mode" and pid: "current_tty_pid c \<noteq> 0"
  shows "if tty_map s (current_tty_pid c) = None \<and> tty_full s then tty_set_mode c mode s = Some (False, s)
     else \<exists>s'. tty_set_mode c mode s = Some (True, s') \<and> tty_inv s' \<and> kernel_tty_mode s' = kernel_tty_mode s \<and>
       tty_map s' = (tty_map s)(current_tty_pid c \<mapsto> mode)"
proof -
  let ?p = "current_tty_pid c"
  have len: "length (tty_modes s) = TTY_MODE_SLOTS" using inv by (simp add: tty_inv_def)
  have store: "\<exists>s'. tty_set_mode c mode s = Some (True, s') \<and> tty_inv s' \<and> kernel_tty_mode s' = kernel_tty_mode s \<and>
      tty_map s' = (tty_map s)(?p \<mapsto> mode)"
    if j: "j < TTY_MODE_SLOTS" "\<not> sl_used (tty_modes s ! j) \<and> tty_map s ?p = None \<or> holds (tty_modes s) ?p j"
      and f: "tty_set_mode c mode s = Some (True, s\<lparr>tty_modes := (tty_modes s)[j := \<lparr>sl_used = True, sl_pid = ?p, sl_mode = mode\<rparr>]\<rparr>)" for j
    using tty_set_slot [OF inv j pid v] f by simp
  show ?thesis
  proof (cases "tty_map s ?p")
    case (Some m)
    then obtain j where j: "j < TTY_MODE_SLOTS" "holds (tty_modes s) ?p j" "tty_find_slot_locked ?p True s = Some (Some j, s)"
      using find_slot_found [OF inv Some, of True] by blast
    have "(tty_modes s ! j)\<lparr>sl_mode := mode\<rparr> = \<lparr>sl_used = True, sl_pid = ?p, sl_mode = mode\<rparr>"
      using j(2) by (cases "tty_modes s ! j") (simp add: holds_def)
    then show ?thesis using store [OF j(1)] j len v pid Some by (simp add: tty_set_mode_def)
  next
    case None
    show ?thesis
    proof (cases "tty_full s")
      case True
      then show ?thesis using None find_slot_missing(2) [OF inv None] v pid by (simp add: tty_set_mode_def)
    next
      case False
      then obtain j where j: "j < TTY_MODE_SLOTS" "\<not> sl_used (tty_modes s ! j)"
        "tty_find_slot_locked ?p True s = Some (Some j, s\<lparr>tty_modes := (tty_modes s)[j := \<lparr>sl_used = True, sl_pid = ?p, sl_mode = TTY_DEFAULT_MODE\<rparr>]\<rparr>)"
        using find_slot_missing(3) [OF inv None] by blast
      then show ?thesis using store [OF j(1)] len v pid None False by (simp add: tty_set_mode_def)
    qed
  qed
qed

lemma forget_map:
  assumes inv: "tty_inv s" and pid: "pid \<noteq> 0"
  shows "\<exists>s'. tty_forget_pid pid s = Some s' \<and> tty_inv s' \<and> kernel_tty_mode s' = kernel_tty_mode s \<and> tty_map s' = (tty_map s)(pid := None)"
proof -
  have "0 + TTY_MODE_SLOTS \<le> length (tty_modes s)" using inv by (simp add: tty_inv_def)
  note scan = forget_scan_eq [OF this, of pid]
  show ?thesis
  proof (cases "find (holds (tty_modes s) pid) [0..<TTY_MODE_SLOTS]")
    case None
    then have "(tty_map s)(pid := None) = tty_map s" by (auto simp: tty_map_def)
    then show ?thesis using scan None inv pid by (simp add: tty_forget_pid_def)
  next
    case (Some j)
    note j = find_upt_Some [OF Some]
    show ?thesis using scan Some pid tty_drop_slot [OF inv conjunct1 [OF j] conjunct2 [OF j]]
      by (simp add: tty_forget_pid_def)
  qed
qed

text \<open>The table after initialisation does not depend on the screen, so a screen with a trivial state will do.\<close>

inductive tty_reach :: "tty_t \<Rightarrow> bool" where
  init: "tty_init (scr :: unit screen) v = (s, v', lg) \<Longrightarrow> tty_reach s"
| set: "tty_reach s \<Longrightarrow> tty_set_mode c mode s = Some (ok, s') \<Longrightarrow> tty_reach s'"
| forget: "tty_reach s \<Longrightarrow> tty_forget_pid pid s = Some s' \<Longrightarrow> tty_reach s'"

lemma default_valid: "tty_mode_valid TTY_DEFAULT_MODE"
  by (simp add: tty_mode_valid_def TTY_DEFAULT_MODE_def RABBITBONE_TTY_MODE_RAW_def RABBITBONE_TTY_MODE_ECHO_def RABBITBONE_TTY_MODE_CANON_def)

definition boot_tty :: tty_t where
  "boot_tty = \<lparr>kernel_tty_mode = TTY_DEFAULT_MODE, tty_modes = replicate TTY_MODE_SLOTS zero_slot\<rparr>"

definition demo_screen :: "unit screen" where
  "demo_screen = \<lparr>vga_size = \<lambda>_. (25, 80), vga_cursor = \<lambda>_. (0, 0), vga_scrollback = \<lambda>v. (True, v), con_flush = id,
       con_scroll = \<lambda>_ v. (True, v), con_move = \<lambda>_ _ v. (True, v), con_visible = \<lambda>_ v. (True, v), con_clear_line = \<lambda>v. (True, v),
       con_clear = id\<rparr>"

lemma boot_tty_inv: "tty_inv boot_tty"
  by (rule tty_invI) (simp_all add: boot_tty_def default_valid zero_slot_def holds_def)

lemma set_mode_cases:
  assumes "tty_inv s"
  shows "\<exists>ok s'. tty_set_mode c mode s = Some (ok, s') \<and> tty_inv s' \<and>
     ok = (tty_mode_valid mode \<and> (current_tty_pid c = 0 \<or> tty_map s (current_tty_pid c) \<noteq> None \<or> \<not> tty_full s)) \<and> (\<not> ok \<longrightarrow> s' = s) \<and>
     (ok \<longrightarrow> caller_mode s' (current_tty_pid c) = mode \<and>
        (current_tty_pid c \<noteq> 0 \<longrightarrow> (\<forall>p. p \<noteq> current_tty_pid c \<longrightarrow> caller_mode s' p = caller_mode s p)))"
proof (cases "tty_mode_valid mode \<and> current_tty_pid c \<noteq> 0")
  case True
  then show ?thesis using set_mode_user [OF assms conjunct1 [OF True] conjunct2 [OF True]] assms
    by (auto simp: caller_mode_def split: if_splits option.splits)
next
  case False
  have "tty_inv (s\<lparr>kernel_tty_mode := mode\<rparr>)" if "tty_mode_valid mode" using assms that by (simp add: tty_inv_def)
  then show ?thesis using False assms by (auto simp: tty_set_mode_def Let_def caller_mode_def split: option.splits)
qed

lemma tty_reach_inv: "tty_reach s \<Longrightarrow> tty_inv s"
proof (induction rule: tty_reach.induct)
  case (init scr v s v' lg)
  then show ?case using boot_tty_inv by (auto simp: tty_init_def boot_tty_def split: prod.splits)
next
  case (set s c mode ok s')
  then show ?case using set_mode_cases [of s c mode] by auto
next
  case (forget s pid s')
  then show ?case using forget_map [of s pid] by (cases "pid = 0") (auto simp: tty_forget_pid_def)
qed

lemma caller_mode_valid:
  assumes "tty_inv s"
  shows "tty_mode_valid (caller_mode s pid)"
proof (cases "tty_map s pid")
  case None
  then show ?thesis using assms by (simp add: caller_mode_def tty_inv_def)
next
  case (Some m)
  then show ?thesis using find_slot_found [OF assms Some] tty_inv_slot [OF assms] assms
    by (auto simp: caller_mode_def holds_def tty_inv_def)
qed

section \<open>Waiting for a key\<close>

lemma tty_wait_returns:
  assumes "kbd_inv k" "kbd_content k = []" "\<And>i. length (wake i) \<le> 32"
    "decode_all (kmode_of k) (concat (map wake [i..<i + n])) \<noteq> []"
  shows "\<exists>k'. tty_wait wake i [] k = Some (hd (decode_all (kmode_of k) (concat (map wake [i..<i + n]))), k') \<and> kbd_inv k'"
  using assms
proof (induction n arbitrary: i k)
  case (Suc n)
  let ?d = "decode_all (kmode_of k) (wake i)"
  have u: "[i..<i + Suc n] = i # [Suc i..<Suc i + n]" by (simp add: upt_conv_Cons del: upt_Suc)
  obtain k1 where k1: "keyboard_irq (wake i) k = Some (k1, [])" "kbd_inv k1" "kmode_of k1 = mode_after (kmode_of k) (wake i)"
      "kbd_content k1 = take 63 ?d"
    using irq_drain_content [OF Suc.prems(1), of KBD_IRQ_DRAIN_LIMIT "wake i"] Suc.prems(2) Suc.prems(3) [of i]
    by (auto simp: keyboard_irq_def KBD_IRQ_DRAIN_LIMIT_def QUEUE_SIZE_def)
  show ?case
  proof (cases "?d = []")
    case True
    have "keyboard_get_event k1 = Some (None, k1)" using kq.pop_empty [OF k1(2)] k1(4) True by simp
    then have w: "tty_wait wake i [] k = tty_wait wake (Suc i) [] k1" using k1(1) by (simp add: tty_wait.simps [of wake i])
    have "decode_all (kmode_of k1) (concat (map wake [Suc i..<Suc i + n])) = decode_all (kmode_of k) (concat (map wake [i..<i + Suc n]))"
      unfolding u using True k1(3) by (simp add: decode_all_append del: upt_Suc)
    with Suc.IH [OF k1(2) _ Suc.prems(3), of "Suc i"] Suc.prems(4) True k1(4) w show ?thesis by simp
  next
    case False
    obtain k2 where "keyboard_get_event k1 = Some (Some (hd ?d), k2)" "kbd_inv k2"
      using kq.pop_some [OF k1(2)] k1(4) False by auto
    then show ?thesis unfolding u using k1(1) False by (simp add: tty_wait.simps [of wake i] decode_all_append del: upt_Suc)
  qed
qed simp

lemma read_char_loop_getc: "kbd_inv k \<Longrightarrow> read_char_loop k = keyboard_getc k"
proof (induction "kbd_content k" arbitrary: k)
  case Nil
  then show ?case using kq.pop_empty [OF Nil.prems] by (simp add: keyboard_getc.simps [of k] read_char_loop.simps [of k])
next
  case (Cons ev evs)
  obtain k1 where k1: "keyboard_get_event k = Some (Some ev, k1)" "kbd_inv k1" "kbd_content k1 = evs"
    using kq.pop_some [OF Cons.prems] Cons.hyps(2) by (metis list.sel list.distinct(1))
  then show ?case using Cons.hyps(1) [of k1] by (simp add: keyboard_getc.simps [of k] read_char_loop.simps [of k])
qed

text \<open>
  The terminal self-test treats a pending enter, backspace, tab or escape key as a failure: its
  last test accepts the codes 0, 1 and those from 100 on.
\<close>

lemma tty_selftest_special_key:
  assumes "kbd_inv k" "kbd_content k = ev # evs" "ev_code ev \<in> {2, 3, 4, 5}" "tty_selftest scr c s k v = Some (ok, r)"
  shows "\<not> ok"
proof -
  obtain k' where "keyboard_get_event k = Some (Some ev, k')" using kq.pop_some [OF assms(1)] assms(2) by auto
  then have "tty_read_key scr c (\<lambda>_. []) True RABBITBONE_TTY_READ_NONBLOCK k v = Some (True, Some ev, k', con_flush scr v)" for v
    by (simp add: tty_read_key_def)
  moreover have "\<not> (ev_code ev = RABBITBONE_KEY_NONE \<or> ev_code ev = RABBITBONE_KEY_CHAR \<or> ev_code ev \<ge> RABBITBONE_KEY_UP)"
    using assms(3) by (auto simp: RABBITBONE_KEY_NONE_def RABBITBONE_KEY_CHAR_def RABBITBONE_KEY_UP_def)
  ultimately show ?thesis using assms(4) unfolding tty_selftest_def
    by (auto simp: bind_eq_Some Let_def case_prod_beta split: if_splits)
qed

section \<open>Properties\<close>

text \<open>
  C16: Every process has its own terminal mode. In every reachable state reading the mode gives a
  valid mode; setting it succeeds exactly for a valid mode when the caller is the kernel, has a
  slot or a slot is free; after success the caller reads the mode it set and, when it is a
  process, every other caller reads the mode it had; a refused mode changes nothing.
\<close>
theorem tty_mode_per_process:
  assumes "tty_reach s"
  shows "(\<exists>m. tty_get_mode c s = Some m \<and> tty_mode_valid m) \<and>
    (\<exists>ok s'. tty_set_mode c mode s = Some (ok, s') \<and>
       ok = (tty_mode_valid mode \<and> (current_tty_pid c = 0 \<or> tty_map s (current_tty_pid c) \<noteq> None \<or> \<not> tty_full s)) \<and>
       (\<not> ok \<longrightarrow> s' = s) \<and>
       (ok \<longrightarrow> tty_get_mode c s' = Some mode \<and>
          (current_tty_pid c \<noteq> 0 \<longrightarrow> (\<forall>c'. current_tty_pid c' \<noteq> current_tty_pid c \<longrightarrow> tty_get_mode c' s' = tty_get_mode c' s))))"
proof -
  note inv = tty_reach_inv [OF assms]
  obtain ok s' where r: "tty_set_mode c mode s = Some (ok, s')" "tty_inv s'"
    "ok = (tty_mode_valid mode \<and> (current_tty_pid c = 0 \<or> tty_map s (current_tty_pid c) \<noteq> None \<or> \<not> tty_full s))" "\<not> ok \<longrightarrow> s' = s"
    "ok \<longrightarrow> caller_mode s' (current_tty_pid c) = mode \<and>
        (current_tty_pid c \<noteq> 0 \<longrightarrow> (\<forall>p. p \<noteq> current_tty_pid c \<longrightarrow> caller_mode s' p = caller_mode s p))"
    using set_mode_cases [OF inv, of c mode] by (elim exE conjE) (rule that)
  show ?thesis using r get_mode_map [OF inv] get_mode_map [OF r(2)] caller_mode_valid [OF inv] by auto
qed

theorem tty_mode_per_process_witness:
  "tty_reach boot_tty \<and>
   (\<exists>s'. tty_set_mode \<lparr>user_active = True, caller_pid = 7\<rparr> RABBITBONE_TTY_MODE_RAW boot_tty = Some (True, s') \<and>
      tty_get_mode \<lparr>user_active = True, caller_pid = 7\<rparr> s' = Some RABBITBONE_TTY_MODE_RAW \<and>
      tty_get_mode \<lparr>user_active = True, caller_pid = 8\<rparr> s' = Some TTY_DEFAULT_MODE)"
proof -
  have r: "tty_reach boot_tty"
    by (rule tty_reach.init [of demo_screen "()" _ "()" "[]"]) (simp add: tty_init_def boot_tty_def demo_screen_def)
  have "tty_mode_valid RABBITBONE_TTY_MODE_RAW"
    by (simp add: tty_mode_valid_def RABBITBONE_TTY_MODE_RAW_def RABBITBONE_TTY_MODE_ECHO_def RABBITBONE_TTY_MODE_CANON_def)
  moreover have "\<not> tty_full boot_tty" by (auto simp: tty_full_def boot_tty_def zero_slot_def TTY_MODE_SLOTS_def intro: exI [of _ 0])
  moreover have "tty_get_mode \<lparr>user_active = True, caller_pid = 8\<rparr> boot_tty = Some TTY_DEFAULT_MODE"
    using get_mode_map [OF boot_tty_inv] tty_map_None [of boot_tty 8]
    by (simp add: caller_mode_def current_tty_pid_def boot_tty_def holds_def zero_slot_def)
  ultimately show ?thesis
    using tty_mode_per_process [OF r, of "\<lparr>user_active = True, caller_pid = 7\<rparr>" RABBITBONE_TTY_MODE_RAW] r
    by (auto simp: current_tty_pid_def)
qed

text \<open>
  C21: A blocking read of a key returns once a key is pressed. A kernel caller that waits with an
  empty queue is given the first key event of the bytes the interrupts deliver, however many
  interrupts without a key come before it, provided that an interrupt finds no more bytes than
  the driver drains at once.
\<close>
theorem tty_read_key_returns:
  assumes "kbd_inv k" "kbd_content k = []" "\<not> user_active c" "\<forall>i. length (wake i) \<le> 32"
    "decode_all (kmode_of k) (concat (map wake [0..<n])) \<noteq> []"
  shows "\<exists>k'. tty_read_key scr c wake True 0 k v =
     Some (True, Some (hd (decode_all (kmode_of k) (concat (map wake [0..<n])))), k', con_flush scr v) \<and> kbd_inv k'"
proof -
  have "keyboard_get_event k = Some (None, k)" using kq.pop_empty [OF assms(1,2)] .
  moreover obtain k' where "tty_wait wake 0 [] k = Some (hd (decode_all (kmode_of k) (concat (map wake [0..<n]))), k')" "kbd_inv k'"
    using tty_wait_returns [OF assms(1,2), of wake 0 n] assms(4,5) by auto
  ultimately show ?thesis using assms(3) by (simp add: tty_read_key_def)
qed

theorem tty_read_key_returns_witness:
  "\<exists>k'. tty_read_key demo_screen \<lparr>user_active = False, caller_pid = 0\<rparr> (\<lambda>i. if i = 1 then [0x1e] else [0x9e]) True 0 boot_kbd () =
     Some (True, Some \<lparr>ev_code = 1, ev_mods = 0, ev_ch = 0x61, ev_scancode = 0x1e\<rparr>, k', ())"
proof -
  have d: "decode_all (kmode_of boot_kbd) [0x9e, 0x1e] = [\<lparr>ev_code = 1, ev_mods = 0, ev_ch = 0x61, ev_scancode = 0x1e\<rparr>]"
    by code_simp
  have w: "\<forall>i :: nat. length (if i = 1 then [0x1e :: u8] else [0x9e]) \<le> 32" by simp
  have n: "concat (map (\<lambda>i. if i = 1 then [0x1e] else [0x9e :: u8]) [0..<2]) = [0x9e, 0x1e]" by (simp add: upt_rec numeral_2_eq_2)
  have "\<not> user_active \<lparr>user_active = False, caller_pid = 0\<rparr>" by simp
  from tty_read_key_returns [OF boot_kbd_inv(1,2) this w, where n = 2 and scr = demo_screen and v = "()"] d n
  show ?thesis by (auto simp: demo_screen_def simp del: decode_all.simps)
qed

end
