(* ===== verification/Task.thy ===== *)
theory Task
  imports Bootinfo Log
begin

text \<open>
  The kernel task table, \<^verbatim>\<open>kernel/sched/task.c\<close>. The table is a list of 64 slots and a pointer to
  a task is its index; a pid is a 32-bit word. Code between taking and releasing the table's lock
  is one step, so \<^verbatim>\<open>task_run_ready\<close> consists of a begin and a finish step around the call of the
  task's entry function. What an entry function does is an argument \<open>call\<close>, on the table and on
  the rest of the world \<open>'w\<close>; the processor and the tick count are given by an environment.
\<close>

section \<open>State\<close>

definition TASK_MAX :: nat where "TASK_MAX = 64"
definition TASK_NAME_MAX :: nat where "TASK_NAME_MAX = 32"
definition SMP_MAX_CPUS :: nat where "SMP_MAX_CPUS = 16"

datatype task_state_t = TASK_UNUSED | TASK_READY | TASK_RUNNING | TASK_BLOCKED | TASK_EXITED

record task_info_t =
  tk_pid :: u32
  tk_parent_pid :: u32
  tk_state :: task_state_t
  tk_name :: bytes
  tk_created_tick :: u64
  tk_run_count :: u64
  tk_exit_code :: int

record task_t =
  tk_info :: task_info_t
  tk_entry :: nat
  tk_ctx :: nat

record task_table =
  tt_tasks :: "task_t list"
  current_by_cpu :: "nat option list"
  next_pid :: u32
  total_runs :: u64
  tt_initialized :: bool

record task_stats_t =
  ts_used_slots :: nat
  ts_ready :: nat
  ts_running :: nat
  ts_blocked :: nat
  ts_exited :: nat
  ts_next_pid :: u32
  ts_total_runs :: u64

record cpu_env =
  env_cpu :: nat
  env_tick :: u64

definition zero_task :: task_t where
  "zero_task = \<lparr>tk_info = \<lparr>tk_pid = 0, tk_parent_pid = 0, tk_state = TASK_UNUSED, tk_name = replicate TASK_NAME_MAX 0,
     tk_created_tick = 0, tk_run_count = 0, tk_exit_code = 0\<rparr>, tk_entry = 0, tk_ctx = 0\<rparr>"

section \<open>Current task and snapshots\<close>

definition now_tick :: "cpu_env \<Rightarrow> u64" where
  "now_tick env = env_tick env"

definition task_cpu_slot :: "cpu_env \<Rightarrow> nat" where
  "task_cpu_slot env = (if env_cpu env < SMP_MAX_CPUS then env_cpu env else 0)"

definition task_current_locked :: "cpu_env \<Rightarrow> task_table \<Rightarrow> nat option option" where
  "task_current_locked env tt = arr_get (current_by_cpu tt) (task_cpu_slot env)"

definition task_set_current_locked :: "cpu_env \<Rightarrow> nat option \<Rightarrow> task_table \<Rightarrow> task_table option" where
  "task_set_current_locked env t tt = do {
     cs \<leftarrow> arr_set (current_by_cpu tt) (task_cpu_slot env) t;
     Some (tt\<lparr>current_by_cpu := cs\<rparr>) }"

definition TASK_SNAPSHOT_MAGIC :: nat where "TASK_SNAPSHOT_MAGIC = 0x52424f4e52415453"

record task_snapshot_t =
  sn_magic :: nat
  tasks_copy :: "task_t list"
  current_index :: "int list"
  next_pid_copy :: u32
  total_runs_copy :: u64
  initialized_copy :: bool

definition task_snapshot_size :: nat where "task_snapshot_size = 5728"

fun index_of_current :: "nat option \<Rightarrow> int" where
  "index_of_current None = - 1"
| "index_of_current (Some i) = (if i < TASK_MAX then int i else - 1)"

text \<open>The buffer is null or what it holds; saving returns its new contents.\<close>

definition task_snapshot_save :: "task_snapshot_t option \<Rightarrow> nat \<Rightarrow> task_table \<Rightarrow> bool \<times> task_snapshot_t option" where
  "task_snapshot_save buf n tt = (case buf of None \<Rightarrow> (False, None) | Some b \<Rightarrow>
     if n < task_snapshot_size then (False, buf)
     else (True, Some \<lparr>sn_magic = TASK_SNAPSHOT_MAGIC, tasks_copy = tt_tasks tt,
        current_index = map index_of_current (current_by_cpu tt), next_pid_copy = next_pid tt,
        total_runs_copy = total_runs tt, initialized_copy = tt_initialized tt\<rparr>))"

definition task_snapshot_restore :: "task_snapshot_t option \<Rightarrow> nat \<Rightarrow> task_table \<Rightarrow> bool \<times> task_table" where
  "task_snapshot_restore buf n tt = (case buf of None \<Rightarrow> (False, tt) | Some snap \<Rightarrow>
     if n < task_snapshot_size then (False, tt)
     else if sn_magic snap \<noteq> TASK_SNAPSHOT_MAGIC then (False, tt)
     else (True, \<lparr>tt_tasks = tasks_copy snap,
        current_by_cpu = map (\<lambda>i. if 0 \<le> i \<and> i < int TASK_MAX then Some (nat i) else None) (current_index snap),
        next_pid = next_pid_copy snap, total_runs = total_runs_copy snap, tt_initialized = initialized_copy snap\<rparr>))"

section \<open>The table\<close>

definition task_reset_for_test :: "task_table \<Rightarrow> task_table" where
  "task_reset_for_test tt = \<lparr>tt_tasks = replicate TASK_MAX zero_task, current_by_cpu = replicate SMP_MAX_CPUS None,
     next_pid = 1, total_runs = 0, tt_initialized = True\<rparr>"

definition task_table_has_live_locked :: "task_table \<Rightarrow> bool" where
  "task_table_has_live_locked tt =
     list_ex (\<lambda>t. tk_state (tk_info t) = TASK_READY \<or> tk_state (tk_info t) = TASK_RUNNING \<or> tk_state (tk_info t) = TASK_BLOCKED) (tt_tasks tt)"

definition task_state_name :: "task_state_t \<Rightarrow> bytes" where
  "task_state_name state = (case state of TASK_UNUSED \<Rightarrow> cbytes ''unused'' | TASK_READY \<Rightarrow> cbytes ''ready''
     | TASK_RUNNING \<Rightarrow> cbytes ''running'' | TASK_BLOCKED \<Rightarrow> cbytes ''blocked'' | TASK_EXITED \<Rightarrow> cbytes ''exited'')"

definition task_is_initialized :: "task_table \<Rightarrow> bool" where
  "task_is_initialized tt = tt_initialized tt"

definition task_init :: "task_table \<Rightarrow> task_table \<times> klog_call list" where
  "task_init tt =
     (if tt_initialized tt \<and> task_table_has_live_locked tt then (tt, [])
      else (\<lparr>tt_tasks = replicate TASK_MAX zero_task, current_by_cpu = replicate SMP_MAX_CPUS None,
             next_pid = 1, total_runs = 0, tt_initialized = True\<rparr>,
            [(LOG_INFO, cbytes ''task'', cbytes ''kernel task table initialized slots=%u'', [VNum (of_nat TASK_MAX)])]))"

fun first_slot :: "task_t list \<Rightarrow> nat \<Rightarrow> nat option" where
  "first_slot [] i = None"
| "first_slot (t # ts) i = (if tk_state (tk_info t) = TASK_UNUSED then Some i else first_slot ts (Suc i))"

definition alloc_slot_locked :: "task_table \<Rightarrow> nat option" where
  "alloc_slot_locked tt = first_slot (tt_tasks tt) 0"

definition task_pid_in_use_locked :: "u32 \<Rightarrow> task_table \<Rightarrow> bool" where
  "task_pid_in_use_locked pid tt =
     (if pid = 0 then True
      else list_ex (\<lambda>t. tk_state (tk_info t) \<noteq> TASK_UNUSED \<and> tk_pid (tk_info t) = pid) (tt_tasks tt))"

fun pid_attempts :: "nat \<Rightarrow> task_table \<Rightarrow> u32 \<times> task_table" where
  "pid_attempts 0 tt = (0, tt)"
| "pid_attempts (Suc n) tt =
     (let pid = next_pid tt;
          tt = tt\<lparr>next_pid := pid + 1\<rparr>;
          tt = (if next_pid tt = 0 then tt\<lparr>next_pid := 1\<rparr> else tt)
      in if \<not> task_pid_in_use_locked pid tt then (pid, tt) else pid_attempts n tt)"

definition allocate_task_pid_locked :: "task_table \<Rightarrow> u32 \<times> task_table" where
  "allocate_task_pid_locked tt = pid_attempts 0xffffffff tt"

text \<open>A name copied into a zeroed buffer; a string is given without its terminator.\<close>

definition task_name_buf :: "bytes \<Rightarrow> bytes" where
  "task_name_buf name = take (TASK_NAME_MAX - 1) name @ replicate (TASK_NAME_MAX - min (TASK_NAME_MAX - 1) (length name)) 0"

definition task_spawn_kernel :: "cpu_env \<Rightarrow> bytes option \<Rightarrow> nat \<Rightarrow> nat \<Rightarrow> task_table \<Rightarrow> (int \<times> task_table \<times> klog_call list) option" where
  "task_spawn_kernel env name entry ctx tt =
     (let (tt, lg) = (if \<not> tt_initialized tt then task_init tt else (tt, [])) in
      case name of None \<Rightarrow> Some (- 1, tt, lg) | Some name \<Rightarrow>
      if entry = 0 \<or> name = [] then Some (- 1, tt, lg)
      else case alloc_slot_locked tt of None \<Rightarrow> Some (- 2, tt, lg) | Some t \<Rightarrow>
      let (pid, tt) = allocate_task_pid_locked tt in
      if pid = 0 then Some (- 3, tt, lg)
      else do {
        parent \<leftarrow> task_current_locked env tt;
        ppid \<leftarrow> (case parent of None \<Rightarrow> Some 0 | Some p \<Rightarrow> do { pt \<leftarrow> arr_get (tt_tasks tt) p; Some (tk_pid (tk_info pt)) });
        let info = \<lparr>tk_pid = pid, tk_parent_pid = ppid, tk_state = TASK_READY, tk_name = task_name_buf name,
                    tk_created_tick = now_tick env, tk_run_count = 0, tk_exit_code = 0\<rparr>;
        ts \<leftarrow> arr_set (tt_tasks tt) t \<lparr>tk_info = info, tk_entry = entry, tk_ctx = ctx\<rparr>;
        Some (sint pid, tt\<lparr>tt_tasks := ts\<rparr>,
          lg @ [(LOG_INFO, cbytes ''task'', cbytes ''spawn pid=%u name=%s parent=%u'',
            [VNum (ucast pid), VStr (Some (task_name_buf name)), VNum (ucast ppid)])]) })"

definition task_exit_current :: "cpu_env \<Rightarrow> int \<Rightarrow> task_table \<Rightarrow> task_table option" where
  "task_exit_current env code tt = do {
     cur \<leftarrow> task_current_locked env tt;
     case cur of None \<Rightarrow> Some tt
     | Some i \<Rightarrow> do {
         t \<leftarrow> arr_get (tt_tasks tt) i;
         ts \<leftarrow> arr_set (tt_tasks tt) i (t\<lparr>tk_info := (tk_info t)\<lparr>tk_exit_code := code, tk_state := TASK_EXITED\<rparr>\<rparr>);
         Some (tt\<lparr>tt_tasks := ts\<rparr>) } }"

section \<open>Running tasks\<close>

text \<open>The first locked section of a dispatch: claims slot \<open>i\<close> if it is ready.\<close>

definition run_begin :: "cpu_env \<Rightarrow> nat \<Rightarrow> task_table \<Rightarrow> ((nat \<times> nat) option \<times> task_table) option" where
  "run_begin env i tt = do {
     t \<leftarrow> arr_get (tt_tasks tt) i;
     if tk_state (tk_info t) = TASK_READY \<and> tk_entry t \<noteq> 0 then do {
       tt \<leftarrow> task_set_current_locked env (Some i) tt;
       ts \<leftarrow> arr_set (tt_tasks tt) i (t\<lparr>tk_info := (tk_info t)\<lparr>tk_state := TASK_RUNNING, tk_run_count := tk_run_count (tk_info t) + 1\<rparr>\<rparr>);
       Some (Some (tk_entry t, tk_ctx t), tt\<lparr>tt_tasks := ts, total_runs := total_runs tt + 1\<rparr>) }
     else Some (None, tt) }"

text \<open>The second one: a task that is still running has returned and exits.\<close>

definition run_finish :: "cpu_env \<Rightarrow> nat \<Rightarrow> task_table \<Rightarrow> task_table option" where
  "run_finish env i tt = do {
     cur \<leftarrow> task_current_locked env tt;
     if cur = Some i then do {
       t \<leftarrow> arr_get (tt_tasks tt) i;
       ts \<leftarrow> (if tk_state (tk_info t) = TASK_RUNNING
              then arr_set (tt_tasks tt) i (t\<lparr>tk_info := (tk_info t)\<lparr>tk_state := TASK_EXITED\<rparr>\<rparr>) else Some (tt_tasks tt));
       task_set_current_locked env None (tt\<lparr>tt_tasks := ts\<rparr>) }
     else Some tt }"

fun run_loop :: "cpu_env \<Rightarrow> ('w \<Rightarrow> 'w) \<Rightarrow> (nat \<Rightarrow> nat \<Rightarrow> task_table \<times> 'w \<Rightarrow> (task_table \<times> 'w) option) \<Rightarrow> nat \<Rightarrow> nat \<Rightarrow> nat \<Rightarrow> nat \<Rightarrow>
    task_table \<times> 'w \<Rightarrow> (task_table \<times> 'w) option" where
  "run_loop env note call i 0 nran max_tasks (tt, w) = Some (tt, w)"
| "run_loop env note call i (Suc n) nran max_tasks (tt, w) =
     (if nran < max_tasks then do {
        (e, tt) \<leftarrow> run_begin env i tt;
        case e of None \<Rightarrow> run_loop env note call (Suc i) n nran max_tasks (tt, w)
        | Some (entry, ctx) \<Rightarrow> do {
            let w = note w;
            (tt, w) \<leftarrow> call entry ctx (tt, w);
            tt \<leftarrow> run_finish env i tt;
            run_loop env note call (Suc i) n (Suc nran) max_tasks (tt, w) } }
      else Some (tt, w))"

definition task_run_ready :: "cpu_env \<Rightarrow> ('w \<Rightarrow> 'w) \<Rightarrow> (nat \<Rightarrow> nat \<Rightarrow> task_table \<times> 'w \<Rightarrow> (task_table \<times> 'w) option) \<Rightarrow> nat \<Rightarrow>
    task_table \<Rightarrow> 'w \<Rightarrow> (task_table \<times> 'w \<times> klog_call list) option" where
  "task_run_ready env note call max_tasks tt w = do {
     let (tt, lg) = (if \<not> tt_initialized tt then task_init tt else (tt, []));
     let max_tasks = (if max_tasks = 0 then TASK_MAX else max_tasks);
     (tt, w) \<leftarrow> run_loop env note call 0 TASK_MAX 0 max_tasks (tt, w);
     Some (tt, w, lg) }"

definition task_reap_exited :: "task_table \<Rightarrow> task_table" where
  "task_reap_exited tt = tt\<lparr>tt_tasks := map (\<lambda>t. if tk_state (tk_info t) = TASK_EXITED then zero_task else t) (tt_tasks tt)\<rparr>"

section \<open>Reports\<close>

text \<open>The information for a destination that is not null.\<close>

definition task_get_info :: "u32 \<Rightarrow> task_table \<Rightarrow> task_info_t option" where
  "task_get_info pid tt =
     (if pid = 0 then None
      else map_option tk_info (find (\<lambda>t. tk_state (tk_info t) \<noteq> TASK_UNUSED \<and> tk_pid (tk_info t) = pid) (tt_tasks tt)))"

fun count_states :: "task_t list \<Rightarrow> task_stats_t \<Rightarrow> task_stats_t" where
  "count_states [] out = out"
| "count_states (t # ts) out = count_states ts (case tk_state (tk_info t) of
      TASK_UNUSED \<Rightarrow> out
    | TASK_READY \<Rightarrow> out\<lparr>ts_used_slots := ts_used_slots out + 1, ts_ready := ts_ready out + 1\<rparr>
    | TASK_RUNNING \<Rightarrow> out\<lparr>ts_used_slots := ts_used_slots out + 1, ts_running := ts_running out + 1\<rparr>
    | TASK_BLOCKED \<Rightarrow> out\<lparr>ts_used_slots := ts_used_slots out + 1, ts_blocked := ts_blocked out + 1\<rparr>
    | TASK_EXITED \<Rightarrow> out\<lparr>ts_used_slots := ts_used_slots out + 1, ts_exited := ts_exited out + 1\<rparr>)"

definition task_get_stats :: "task_table \<Rightarrow> task_stats_t" where
  "task_get_stats tt = count_states (tt_tasks tt)
     \<lparr>ts_used_slots = 0, ts_ready = 0, ts_running = 0, ts_blocked = 0, ts_exited = 0, ts_next_pid = next_pid tt, ts_total_runs = total_runs tt\<rparr>"

fun dump_tasks :: "task_t list \<Rightarrow> bytes option" where
  "dump_tasks [] = Some []"
| "dump_tasks (t # ts) =
     (if tk_state (tk_info t) = TASK_UNUSED then dump_tasks ts
      else do {
        line \<leftarrow> kout ''  %-5u %-5u %-8s %-5llu %s\<newline>''
          [VNum (ucast (tk_pid (tk_info t))), VNum (ucast (tk_parent_pid (tk_info t))),
           VStr (Some (task_state_name (tk_state (tk_info t)))), VNum (tk_run_count (tk_info t)), VStr (Some (tk_name (tk_info t)))];
        rest \<leftarrow> dump_tasks ts;
        Some (line @ rest) })"

definition task_dump :: "task_table \<Rightarrow> bytes option" where
  "task_dump tt = do {
     let s = task_get_stats tt;
     t1 \<leftarrow> kout ''tasks: used=%u ready=%u running=%u blocked=%u exited=%u total_runs=%llu next_pid=%u\<newline>''
       [VNum (of_nat (ts_used_slots s)), VNum (of_nat (ts_ready s)), VNum (of_nat (ts_running s)), VNum (of_nat (ts_blocked s)),
        VNum (of_nat (ts_exited s)), VNum (ts_total_runs s), VNum (ucast (ts_next_pid s))];
     t2 \<leftarrow> kout ''  pid   ppid  state    runs  name\<newline>'' [];
     t3 \<leftarrow> dump_tasks (tt_tasks tt);
     Some (t1 @ t2 @ t3) }"

section \<open>Self-test\<close>

text \<open>
  The test entry function, whose context holds the value; the counter is part of the world. Entry
  functions other than the test's own, at address \<open>te\<close>, do what \<open>call\<close> says.
\<close>

definition task_test_entry :: "cpu_env \<Rightarrow> u32 \<Rightarrow> task_table \<times> 'w \<times> u32 \<Rightarrow> (task_table \<times> 'w \<times> u32) option" where
  "task_test_entry env v s = (case s of (tt, w, counter) \<Rightarrow> do {
     tt \<leftarrow> task_exit_current env (sint v) tt;
     Some (tt, w, counter + v) })"

definition test_call :: "cpu_env \<Rightarrow> (nat \<Rightarrow> nat \<Rightarrow> task_table \<times> 'w \<times> u32 \<Rightarrow> (task_table \<times> 'w \<times> u32) option) \<Rightarrow> nat \<Rightarrow> nat \<Rightarrow> nat \<Rightarrow>
    nat \<Rightarrow> nat \<Rightarrow> task_table \<times> 'w \<times> u32 \<Rightarrow> (task_table \<times> 'w \<times> u32) option" where
  "test_call env call te a b entry ctx =
     (if entry = te \<and> ctx = a then task_test_entry env 3 else if entry = te \<and> ctx = b then task_test_entry env 7 else call entry ctx)"

definition task_selftest :: "cpu_env \<Rightarrow> ('w \<Rightarrow> 'w) \<Rightarrow> (nat \<Rightarrow> nat \<Rightarrow> task_table \<times> 'w \<times> u32 \<Rightarrow> (task_table \<times> 'w \<times> u32) option) \<Rightarrow>
    nat \<Rightarrow> nat \<Rightarrow> nat \<Rightarrow> task_table \<Rightarrow> 'w \<Rightarrow> (bool \<times> task_table \<times> 'w) option" where
  "task_selftest env note call te a b tt w = do {
     let (tt, _) = task_init tt;
     (pa, tt, _) \<leftarrow> task_spawn_kernel env (Some (map of_char ''ktest-a'')) te a tt;
     (pb, tt, _) \<leftarrow> task_spawn_kernel env (Some (map of_char ''ktest-b'')) te b tt;
     if pa \<le> 0 \<or> pb \<le> 0 \<or> pa = pb then Some (False, tt, w)
     else do {
       (tt, (w, counter), _) \<leftarrow> task_run_ready env (\<lambda>(w, c). (note w, c)) (test_call env call te a b) 16 tt (w, 0);
       case (task_get_info (word_of_int pa) tt, task_get_info (word_of_int pb) tt) of
         (Some ia, Some ib) \<Rightarrow>
           if counter \<noteq> 10 then Some (False, tt, w)
           else if tk_state ia \<noteq> TASK_EXITED \<or> tk_state ib \<noteq> TASK_EXITED then Some (False, tt, w)
           else if tk_exit_code ia \<noteq> 3 \<or> tk_exit_code ib \<noteq> 7 then Some (False, tt, w)
           else (let tt = task_reap_exited tt in Some (ts_used_slots (task_get_stats tt) = 0, tt, w))
       | _ \<Rightarrow> Some (False, tt, w) } }"

section \<open>Invariant\<close>

definition live :: "task_table \<Rightarrow> nat \<Rightarrow> bool" where
  "live tt i = (i < length (tt_tasks tt) \<and> tk_state (tk_info (tt_tasks tt ! i)) \<noteq> TASK_UNUSED)"

definition pid_at :: "task_table \<Rightarrow> nat \<Rightarrow> u32" where
  "pid_at tt i = tk_pid (tk_info (tt_tasks tt ! i))"

lemma live_fields [simp]:
  "live (tt\<lparr>current_by_cpu := c\<rparr>) i = live tt i" "live (tt\<lparr>next_pid := p\<rparr>) i = live tt i"
  "live (tt\<lparr>total_runs := n\<rparr>) i = live tt i" "live (tt\<lparr>tt_initialized := b\<rparr>) i = live tt i"
  "pid_at (tt\<lparr>current_by_cpu := c\<rparr>) i = pid_at tt i" "pid_at (tt\<lparr>next_pid := p\<rparr>) i = pid_at tt i"
  "pid_at (tt\<lparr>total_runs := n\<rparr>) i = pid_at tt i" "pid_at (tt\<lparr>tt_initialized := b\<rparr>) i = pid_at tt i"
  by (simp_all add: live_def pid_at_def)

text \<open>The table has its size, the current pointers are slots, and a nonzero pid names one task.\<close>

definition task_inv :: "task_table \<Rightarrow> bool" where
  "task_inv tt = (length (tt_tasks tt) = TASK_MAX \<and> length (current_by_cpu tt) = SMP_MAX_CPUS \<and>
     (\<forall>c\<in>set (current_by_cpu tt). \<forall>i. c = Some i \<longrightarrow> i < TASK_MAX) \<and> next_pid tt \<noteq> 0 \<and>
     (\<forall>i j. live tt i \<and> live tt j \<and> pid_at tt i = pid_at tt j \<and> pid_at tt i \<noteq> 0 \<longrightarrow> i = j))"

lemma task_invD:
  assumes "task_inv tt"
  shows "length (tt_tasks tt) = TASK_MAX" "length (current_by_cpu tt) = SMP_MAX_CPUS" "next_pid tt \<noteq> 0"
    "\<And>c i. c \<in> set (current_by_cpu tt) \<Longrightarrow> c = Some i \<Longrightarrow> i < TASK_MAX"
    "\<And>i j. live tt i \<Longrightarrow> live tt j \<Longrightarrow> pid_at tt i = pid_at tt j \<Longrightarrow> pid_at tt i \<noteq> 0 \<Longrightarrow> i = j"
  using assms unfolding task_inv_def by blast+

lemma fresh_table_inv: "task_inv \<lparr>tt_tasks = replicate TASK_MAX zero_task, current_by_cpu = replicate SMP_MAX_CPUS None,
    next_pid = 1, total_runs = n, tt_initialized = b\<rparr>"
  by (auto simp: task_inv_def live_def zero_task_def)

lemma inv_store:
  assumes inv: "task_inv tt" and i: "i < TASK_MAX"
    and t: "tk_state (tk_info t) = TASK_UNUSED \<or> tk_pid (tk_info t) = 0 \<or>
      (\<forall>j. live tt j \<and> j \<noteq> i \<longrightarrow> pid_at tt j \<noteq> tk_pid (tk_info t))"
  shows "task_inv (tt\<lparr>tt_tasks := (tt_tasks tt)[i := t]\<rparr>)"
proof -
  let ?tt = "tt\<lparr>tt_tasks := (tt_tasks tt)[i := t]\<rparr>"
  note d = task_invD [OF inv]
  have l: "live ?tt j \<longleftrightarrow> (if j = i then tk_state (tk_info t) \<noteq> TASK_UNUSED else live tt j)"
    and p: "pid_at ?tt j = (if j = i then tk_pid (tk_info t) else pid_at tt j)" for j
    using i d(1) by (auto simp: live_def pid_at_def)
  have "j = k" if a: "live ?tt j" "live ?tt k" "pid_at ?tt j = pid_at ?tt k" "pid_at ?tt j \<noteq> 0" for j k
    using a t d(5) [of j k] unfolding l p by (cases "j = i"; cases "k = i") auto
  then show ?thesis using d unfolding task_inv_def by auto
qed

text \<open>A change of a slot that keeps its pid, and brings no unused slot to life with a nonzero pid.\<close>

lemma inv_keep_pid:
  assumes inv: "task_inv tt" and i: "i < TASK_MAX" and pid: "tk_pid (tk_info t) = pid_at tt i" and l: "live tt i \<or> pid_at tt i = 0"
  shows "task_inv (tt\<lparr>tt_tasks := (tt_tasks tt)[i := t]\<rparr>)"
  by (rule inv_store [OF inv i]) (use task_invD(5) [OF inv, of i] pid l in metis)

lemma inv_current:
  assumes "task_inv tt" "c = None \<or> (\<exists>i<TASK_MAX. c = Some i)" "k < SMP_MAX_CPUS"
  shows "task_inv (tt\<lparr>current_by_cpu := (current_by_cpu tt)[k := c]\<rparr>)"
proof -
  have "\<forall>c'\<in>set ((current_by_cpu tt)[k := c]). \<forall>i. c' = Some i \<longrightarrow> i < TASK_MAX"
    using assms(2) task_invD(4) [OF assms(1)] set_update_subset_insert [of "current_by_cpu tt" k c] by auto
  then show ?thesis using assms(1) unfolding task_inv_def live_fields by auto
qed

lemma inv_fields [simp]:
  "task_inv (tt\<lparr>total_runs := n\<rparr>) = task_inv tt" "task_inv (tt\<lparr>tt_initialized := b\<rparr>) = task_inv tt"
  by (simp_all add: task_inv_def)

lemma cpu_slot [simp]: "task_cpu_slot env < SMP_MAX_CPUS"
  by (simp add: task_cpu_slot_def SMP_MAX_CPUS_def)

lemma current_Some:
  assumes "task_inv tt"
  shows "\<exists>c. task_current_locked env tt = Some c \<and> (\<forall>i. c = Some i \<longrightarrow> i < TASK_MAX)"
proof -
  have "task_cpu_slot env < length (current_by_cpu tt)" using task_invD(2) [OF assms] by simp
  then show ?thesis using task_invD(4) [OF assms nth_mem] by (simp add: task_current_locked_def)
qed

section \<open>Pids\<close>

definition pid_succ :: "u32 \<Rightarrow> u32" where
  "pid_succ p = (if p + 1 = 0 then 1 else p + 1)"

definition busy :: "task_table \<Rightarrow> u32 set" where
  "busy tt = {pid_at tt i |i. live tt i}"

lemma in_use_iff: "p \<noteq> 0 \<Longrightarrow> task_pid_in_use_locked p tt \<longleftrightarrow> p \<in> busy tt"
  by (auto simp: task_pid_in_use_locked_def list_ex_length busy_def live_def pid_at_def)

lemma in_use_next [simp]: "task_pid_in_use_locked p (tt\<lparr>next_pid := n\<rparr>) = task_pid_in_use_locked p tt"
  by (simp add: task_pid_in_use_locked_def)

lemma card_busy: "length (tt_tasks tt) = TASK_MAX \<Longrightarrow> card (busy tt) \<le> TASK_MAX"
proof -
  assume l: "length (tt_tasks tt) = TASK_MAX"
  have "busy tt \<subseteq> pid_at tt ` {..<TASK_MAX}" using l by (auto simp: busy_def live_def)
  then have "card (busy tt) \<le> card (pid_at tt ` {..<TASK_MAX})" by (intro card_mono) auto
  also have "\<dots> \<le> TASK_MAX" using card_image_le [of "{..<TASK_MAX}" "pid_at tt"] by simp
  finally show ?thesis .
qed

lemma pid_attempts_Suc: "pid_attempts (Suc n) tt =
   (let tt' = tt\<lparr>next_pid := pid_succ (next_pid tt)\<rparr> in
    if task_pid_in_use_locked (next_pid tt) tt then pid_attempts n tt' else (next_pid tt, tt'))"
  by (simp add: pid_succ_def Let_def)

text \<open>The candidates in turn: the \<open>k\<close>-th attempt tries the \<open>k\<close>-th successor.\<close>

lemma pid_attempts_find:
  assumes "next_pid tt \<noteq> 0" "k < n" "(pid_succ ^^ k) (next_pid tt) \<notin> busy tt"
    "\<forall>j<k. (pid_succ ^^ j) (next_pid tt) \<in> busy tt" "\<forall>j\<le>k. (pid_succ ^^ j) (next_pid tt) \<noteq> 0"
  shows "pid_attempts n tt = ((pid_succ ^^ k) (next_pid tt), tt\<lparr>next_pid := (pid_succ ^^ Suc k) (next_pid tt)\<rparr>)"
  using assms
proof (induction k arbitrary: n tt)
  case 0
  then obtain m where "n = Suc m" by (metis Suc_pred)
  then show ?case using 0 in_use_iff by (simp only: pid_attempts_Suc Let_def) simp
next
  case (Suc k)
  then obtain m where m: "n = Suc m" by (metis Suc_lessE)
  let ?tt = "tt\<lparr>next_pid := pid_succ (next_pid tt)\<rparr>"
  have b: "busy ?tt = busy tt" by (simp add: busy_def live_def pid_at_def)
  have s: "(pid_succ ^^ j) (next_pid ?tt) = (pid_succ ^^ Suc j) (next_pid tt)" for j by (simp add: funpow_swap1)
  have "pid_attempts m ?tt = ((pid_succ ^^ k) (next_pid ?tt), ?tt\<lparr>next_pid := (pid_succ ^^ Suc k) (next_pid ?tt)\<rparr>)"
  proof (rule Suc.IH)
    show "next_pid ?tt \<noteq> 0" by (simp add: pid_succ_def)
    show "k < m" using Suc.prems(2) m by simp
    show "(pid_succ ^^ k) (next_pid ?tt) \<notin> busy ?tt" unfolding b s using Suc.prems(3) .
    show "\<forall>j<k. (pid_succ ^^ j) (next_pid ?tt) \<in> busy ?tt" unfolding b s using Suc.prems(4) by auto
    show "\<forall>j\<le>k. (pid_succ ^^ j) (next_pid ?tt) \<noteq> 0" unfolding s using Suc.prems(5) by auto
  qed
  moreover have "task_pid_in_use_locked (next_pid tt) tt"
    using Suc.prems(1) Suc.prems(4) [rule_format, of 0] in_use_iff by simp
  ultimately show ?case unfolding m s by (simp only: pid_attempts_Suc Let_def) (simp add: funpow_swap1)
qed

lemma unat_pid_succ: "unat (pid_succ q) = (if unat q = 0xffffffff then 1 else unat q + 1)"
proof -
  have "unat q < 2 ^ 32" using unsigned_less [of q, where ?'a = nat] by simp
  then have u: "unat (q + 1) = (if unat q = 0xffffffff then 0 else unat q + 1)"
    by (simp add: unat_word_ariths)
  then have "q + 1 = 0 \<longleftrightarrow> unat q = 0xffffffff" by (metis add_is_0 unat_eq_zero zero_neq_one)
  with u show ?thesis by (simp add: pid_succ_def)
qed

lemma pid_iterates: "p \<noteq> 0 \<Longrightarrow> unat ((pid_succ ^^ k) p) = (unat p - 1 + k) mod 0xffffffff + 1"
proof (induction k)
  case 0
  have "unat p < 2 ^ 32" "unat p \<noteq> 0" using unsigned_less [of p, where ?'a = nat] 0 by (simp_all add: unat_eq_zero)
  then show ?case by simp
next
  case (Suc k)
  then show ?case by (simp add: unat_pid_succ mod_Suc)
qed

lemma iterates_inj: "p \<noteq> 0 \<Longrightarrow> inj_on (\<lambda>k. (pid_succ ^^ k) p) {..TASK_MAX}"
proof (rule inj_onI)
  fix j k
  assume p: "p \<noteq> 0" and jk: "j \<in> {..TASK_MAX}" "k \<in> {..TASK_MAX}" and e: "(pid_succ ^^ j) p = (pid_succ ^^ k) p"
  have "(unat p - 1 + j) mod 0xffffffff = (unat p - 1 + k) mod 0xffffffff"
    using e pid_iterates [OF p, of j] pid_iterates [OF p, of k] by simp
  note same = this
  have less: False if ab: "a < b" "b \<le> TASK_MAX" "(unat p - 1 + b) mod 0xffffffff = (unat p - 1 + a) mod 0xffffffff" for a b
  proof -
    have "0xffffffff dvd (unat p - 1 + b) - (unat p - 1 + a)"
      using ab(3) mod_eq_dvd_iff_nat [of "unat p - 1 + a" "unat p - 1 + b" "0xffffffff"] ab(1) by simp
    then show False using ab(1,2) by (auto simp: TASK_MAX_def dest: dvd_imp_le)
  qed
  show "j = k" using less [of j k] less [of k j] same jk by (metis atMost_iff linorder_neqE_nat)
qed

text \<open>The search ends within 65 attempts, since at most 64 pids are taken.\<close>

lemma allocate_pid:
  assumes "length (tt_tasks tt) = TASK_MAX" "next_pid tt \<noteq> 0"
  shows "\<exists>k\<le>TASK_MAX. let pid = (pid_succ ^^ k) (next_pid tt) in
     allocate_task_pid_locked tt = (pid, tt\<lparr>next_pid := pid_succ pid\<rparr>) \<and> pid \<noteq> 0 \<and> pid \<notin> busy tt"
proof -
  let ?f = "\<lambda>k. (pid_succ ^^ k) (next_pid tt)"
  have nz: "?f k \<noteq> 0" for k using assms(2) by (cases k) (simp_all add: pid_succ_def)
  have "\<exists>k\<le>TASK_MAX. ?f k \<notin> busy tt"
  proof (rule ccontr)
    assume "\<not> ?thesis"
    then have sub: "?f ` {..TASK_MAX} \<subseteq> busy tt" by auto
    have fin: "finite (busy tt)" by simp
    have "card (?f ` {..TASK_MAX}) = Suc TASK_MAX" using card_image [OF iterates_inj [OF assms(2)]] by simp
    with card_mono [OF fin sub] card_busy [OF assms(1)] show False by simp
  qed
  then obtain m where m: "m \<le> TASK_MAX" "?f m \<notin> busy tt" by blast
  define k where "k = (LEAST k. ?f k \<notin> busy tt)"
  have k: "?f k \<notin> busy tt" "k \<le> TASK_MAX" "\<forall>j<k. ?f j \<in> busy tt"
    using LeastI [of "\<lambda>k. ?f k \<notin> busy tt", OF m(2)] Least_le [of "\<lambda>k. ?f k \<notin> busy tt", OF m(2)] m(1)
      not_less_Least [of _ "\<lambda>k. ?f k \<notin> busy tt"] unfolding k_def by auto
  have "k < 0xffffffff" using k(2) by (simp add: TASK_MAX_def)
  from pid_attempts_find [OF assms(2) this k(1,3)] nz k(1,2) show ?thesis
    by (auto simp: allocate_task_pid_locked_def Let_def simp del: pid_attempts.simps)
qed

section \<open>Spawning\<close>

lemma first_slot_Some: "first_slot ts k = Some i \<Longrightarrow> k \<le> i \<and> i < k + length ts \<and> tk_state (tk_info (ts ! (i - k))) = TASK_UNUSED"
proof (induction ts arbitrary: k)
  case (Cons t ts)
  show ?case
  proof (cases "tk_state (tk_info t) = TASK_UNUSED")
    case False
    then have a: "Suc k \<le> i \<and> i < Suc k + length ts \<and> tk_state (tk_info (ts ! (i - Suc k))) = TASK_UNUSED"
      using Cons.IH [of "Suc k"] Cons.prems by simp
    then have "i - k = Suc (i - Suc k)" by linarith
    then show ?thesis using a by simp
  qed (use Cons in auto)
qed simp

lemma first_slot_None: "first_slot ts k = None \<longleftrightarrow> (\<forall>t\<in>set ts. tk_state (tk_info t) \<noteq> TASK_UNUSED)"
  by (induction ts arbitrary: k) auto

lemma alloc_slot_Some: "alloc_slot_locked tt = Some i \<Longrightarrow> i < length (tt_tasks tt) \<and> \<not> live tt i"
  using first_slot_Some [of "tt_tasks tt" 0 i] by (auto simp: alloc_slot_locked_def live_def)

lemma alloc_slot_None: "alloc_slot_locked tt = None \<longleftrightarrow> (\<forall>i<length (tt_tasks tt). live tt i)"
  by (auto simp: alloc_slot_locked_def first_slot_None live_def all_set_conv_all_nth)

definition new_task :: "u32 \<Rightarrow> u32 \<Rightarrow> bytes \<Rightarrow> u64 \<Rightarrow> nat \<Rightarrow> nat \<Rightarrow> task_t" where
  "new_task pid ppid name tick entry ctx = \<lparr>tk_info = \<lparr>tk_pid = pid, tk_parent_pid = ppid, tk_state = TASK_READY, tk_name = task_name_buf name,
     tk_created_tick = tick, tk_run_count = 0, tk_exit_code = 0\<rparr>, tk_entry = entry, tk_ctx = ctx\<rparr>"

definition parent_of :: "cpu_env \<Rightarrow> task_table \<Rightarrow> u32" where
  "parent_of env tt = (case current_by_cpu tt ! task_cpu_slot env of None \<Rightarrow> 0 | Some p \<Rightarrow> pid_at tt p)"

lemma spawn_free:
  assumes inv: "task_inv tt" and init: "tt_initialized tt" and arg: "name \<noteq> []" "entry \<noteq> 0" and slot: "alloc_slot_locked tt = Some i"
  shows "\<exists>k\<le>TASK_MAX. \<exists>lg. let pid = (pid_succ ^^ k) (next_pid tt);
       tt' = tt\<lparr>next_pid := pid_succ pid, tt_tasks := (tt_tasks tt)[i := new_task pid (parent_of env tt) name (env_tick env) entry ctx]\<rparr>
     in task_spawn_kernel env (Some name) entry ctx tt = Some (sint pid, tt', lg) \<and> pid \<noteq> 0 \<and> pid \<notin> busy tt \<and> task_inv tt'"
proof -
  note d = task_invD [OF inv]
  obtain k where k: "k \<le> TASK_MAX" and a: "allocate_task_pid_locked tt =
      ((pid_succ ^^ k) (next_pid tt), tt\<lparr>next_pid := pid_succ ((pid_succ ^^ k) (next_pid tt))\<rparr>)"
    and f: "(pid_succ ^^ k) (next_pid tt) \<noteq> 0" "(pid_succ ^^ k) (next_pid tt) \<notin> busy tt"
    using allocate_pid [OF d(1,3)] by (auto simp: Let_def)
  define pid where "pid = (pid_succ ^^ k) (next_pid tt)"
  let ?t = "new_task pid (parent_of env tt) name (env_tick env) entry ctx"
  let ?n = "tt\<lparr>next_pid := pid_succ pid\<rparr>"
  have i: "i < TASK_MAX" "\<not> live tt i" using alloc_slot_Some [OF slot] d(1) by auto
  obtain c where c: "task_current_locked env ?n = Some c" "current_by_cpu tt ! task_cpu_slot env = c" "\<forall>p. c = Some p \<longrightarrow> p < TASK_MAX"
    using current_Some [OF inv, of env] d(2) by (auto simp: task_current_locked_def)
  have "task_spawn_kernel env (Some name) entry ctx tt = Some (sint pid, ?n\<lparr>tt_tasks := (tt_tasks tt)[i := ?t]\<rparr>,
      [(LOG_INFO, cbytes ''task'', cbytes ''spawn pid=%u name=%s parent=%u'',
        [VNum (ucast pid), VStr (Some (task_name_buf name)), VNum (ucast (parent_of env tt))])])"
    using init arg slot a f(1) c d(1) i(1) unfolding task_spawn_kernel_def pid_def [symmetric]
    by (cases c) (simp_all add: parent_of_def new_task_def now_tick_def pid_at_def Let_def)
  moreover have "task_inv (?n\<lparr>tt_tasks := (tt_tasks ?n)[i := ?t]\<rparr>)"
  proof (rule inv_store)
    show "task_inv ?n" using inv unfolding task_inv_def live_fields by (auto simp: pid_succ_def)
    show "tk_state (tk_info ?t) = TASK_UNUSED \<or> tk_pid (tk_info ?t) = 0 \<or> (\<forall>j. live ?n j \<and> j \<noteq> i \<longrightarrow> pid_at ?n j \<noteq> tk_pid (tk_info ?t))"
      using f(2) unfolding pid_def [symmetric] by (auto simp: new_task_def busy_def)
  qed (rule i(1))
  ultimately show ?thesis using k f unfolding pid_def [symmetric] by (intro exI [of _ k]) (auto simp: Let_def pid_def)
qed

lemma spawn_full:
  "tt_initialized tt \<Longrightarrow> name \<noteq> [] \<Longrightarrow> entry \<noteq> 0 \<Longrightarrow> alloc_slot_locked tt = None \<Longrightarrow>
   task_spawn_kernel env (Some name) entry ctx tt = Some (- 2, tt, [])"
  by (simp add: task_spawn_kernel_def)

section \<open>Interleavings\<close>

text \<open>
  The states reachable by any order of the locked sections, on any processor: \<open>run_begin\<close> and
  \<open>run_finish\<close> are the two halves of a dispatch, between which anything may happen.
\<close>

inductive task_reach :: "task_table \<Rightarrow> bool" where
  init: "task_init tt = (tt', lg) \<Longrightarrow> \<not> tt_initialized tt \<Longrightarrow> task_reach tt'"
| again: "task_reach tt \<Longrightarrow> task_init tt = (tt', lg) \<Longrightarrow> task_reach tt'"
| reset: "task_reach tt \<Longrightarrow> task_reach (task_reset_for_test tt)"
| spawn: "task_reach tt \<Longrightarrow> task_spawn_kernel env name entry ctx tt = Some (r, tt', lg) \<Longrightarrow> task_reach tt'"
| exit_current: "task_reach tt \<Longrightarrow> task_exit_current env code tt = Some tt' \<Longrightarrow> task_reach tt'"
| begin_run: "task_reach tt \<Longrightarrow> i < TASK_MAX \<Longrightarrow> run_begin env i tt = Some (e, tt') \<Longrightarrow> task_reach tt'"
| finish_run: "task_reach tt \<Longrightarrow> i < TASK_MAX \<Longrightarrow> run_finish env i tt = Some tt' \<Longrightarrow> task_reach tt'"
| reap: "task_reach tt \<Longrightarrow> task_reach (task_reap_exited tt)"
| restore: "task_reach tt0 \<Longrightarrow> task_reach tt \<Longrightarrow> task_snapshot_save buf n tt0 = (True, snap) \<Longrightarrow>
    task_snapshot_restore snap n' tt = (True, tt') \<Longrightarrow> task_reach tt'"

definition task_ok :: "task_table \<Rightarrow> bool" where
  "task_ok tt = (task_inv tt \<and> tt_initialized tt \<and> (\<forall>i<TASK_MAX. \<not> live tt i \<longrightarrow> pid_at tt i = 0))"

lemma task_okD: "task_ok tt \<Longrightarrow> task_inv tt" "task_ok tt \<Longrightarrow> tt_initialized tt" "task_ok tt \<Longrightarrow> i < TASK_MAX \<Longrightarrow> live tt i \<or> pid_at tt i = 0"
  by (auto simp: task_ok_def)

lemma fresh_ok: "task_ok \<lparr>tt_tasks = replicate TASK_MAX zero_task, current_by_cpu = replicate SMP_MAX_CPUS None,
    next_pid = 1, total_runs = 0, tt_initialized = True\<rparr>"
  using fresh_table_inv by (auto simp: task_ok_def live_def pid_at_def zero_task_def)

lemma ok_keep_pid:
  assumes ok: "task_ok tt" and i: "i < TASK_MAX" and t: "tk_pid (tk_info t) = pid_at tt i" "tk_state (tk_info t) \<noteq> TASK_UNUSED"
  shows "task_ok (tt\<lparr>tt_tasks := (tt_tasks tt)[i := t]\<rparr>)"
proof -
  have inv: "task_inv (tt\<lparr>tt_tasks := (tt_tasks tt)[i := t]\<rparr>)"
    by (rule inv_keep_pid [OF task_okD(1) [OF ok] i t(1) task_okD(3) [OF ok i]])
  have l: "length (tt_tasks tt) = TASK_MAX" using task_invD(1) [OF task_okD(1) [OF ok]] .
  have "pid_at (tt\<lparr>tt_tasks := (tt_tasks tt)[i := t]\<rparr>) j = 0" if "\<not> live (tt\<lparr>tt_tasks := (tt_tasks tt)[i := t]\<rparr>) j" "j < TASK_MAX" for j
    using that t(2) l task_okD(3) [OF ok that(2)] by (cases "j = i") (auto simp: live_def pid_at_def)
  with inv ok show ?thesis by (auto simp: task_ok_def)
qed

lemma ok_current:
  assumes "task_ok tt" "c = None \<or> (\<exists>i<TASK_MAX. c = Some i)"
  shows "\<exists>tt'. task_set_current_locked env c tt = Some tt' \<and> tt' = tt\<lparr>current_by_cpu := (current_by_cpu tt)[task_cpu_slot env := c]\<rparr> \<and> task_ok tt'"
  using inv_current [OF task_okD(1) [OF assms(1)] assms(2), of "task_cpu_slot env"] assms(1) task_invD(2) [OF task_okD(1) [OF assms(1)]]
  by (auto simp: task_set_current_locked_def task_ok_def)

lemma init_ok: "task_ok tt \<or> \<not> tt_initialized tt \<Longrightarrow> task_ok (fst (task_init tt))"
  using fresh_ok by (auto simp: task_init_def)

lemma spawn_ok:
  assumes ok: "task_ok tt" and r: "task_spawn_kernel env name entry ctx tt = Some (r, tt', lg)"
  shows "task_ok tt'"
proof (cases "name = None \<or> name = Some [] \<or> entry = 0 \<or> alloc_slot_locked tt = None")
  case True
  then have "tt' = tt" using r task_okD(2) [OF ok] by (auto simp: task_spawn_kernel_def split: option.splits if_splits)
  then show ?thesis using ok by simp
next
  case False
  then obtain nm i where a: "name = Some nm" "nm \<noteq> []" "entry \<noteq> 0" "alloc_slot_locked tt = Some i" by auto
  from spawn_free [OF task_okD(1,2) [OF ok] a(2-4), of env ctx] r a(1)
  obtain pid where inv: "task_inv tt'" and t: "tt' = tt\<lparr>next_pid := pid_succ pid, tt_tasks := (tt_tasks tt)[i := new_task pid (parent_of env tt) nm (env_tick env) entry ctx]\<rparr>"
    by (auto simp: Let_def)
  have "pid_at tt' j = 0" if "j < TASK_MAX" "\<not> live tt' j" for j
    using that task_okD(3) [OF ok that(1)] task_invD(1) [OF inv] unfolding t
    by (cases "j = i") (auto simp: live_def pid_at_def new_task_def)
  then show ?thesis using inv task_okD(2) [OF ok] t by (auto simp: task_ok_def)
qed

lemma exit_ok:
  assumes ok: "task_ok tt"
  shows "\<exists>tt'. task_exit_current env code tt = Some tt' \<and> task_ok tt'"
proof -
  obtain c where c: "task_current_locked env tt = Some c" "\<forall>i. c = Some i \<longrightarrow> i < TASK_MAX"
    using current_Some [OF task_okD(1) [OF ok]] by blast
  have l: "length (tt_tasks tt) = TASK_MAX" using task_invD(1) [OF task_okD(1) [OF ok]] .
  show ?thesis
  proof (cases c)
    case (Some i)
    then show ?thesis using c l ok_keep_pid [OF ok, of i] by (simp add: task_exit_current_def pid_at_def)
  qed (use c ok in \<open>simp add: task_exit_current_def\<close>)
qed

lemma begin_ok:
  assumes ok: "task_ok tt" and i: "i < TASK_MAX"
  shows "\<exists>e tt'. run_begin env i tt = Some (e, tt') \<and> task_ok tt'"
proof -
  have l: "length (tt_tasks tt) = TASK_MAX" using task_invD(1) [OF task_okD(1) [OF ok]] .
  obtain tt1 where c: "task_set_current_locked env (Some i) tt = Some tt1"
    "tt1 = tt\<lparr>current_by_cpu := (current_by_cpu tt)[task_cpu_slot env := Some i]\<rparr>" "task_ok tt1"
    using ok_current [OF ok, of "Some i"] i by blast
  have runs: "task_ok (t\<lparr>total_runs := n\<rparr>) = task_ok t" for t n by (simp add: task_ok_def)
  let ?t = "(tt_tasks tt ! i)\<lparr>tk_info := (tk_info (tt_tasks tt ! i))\<lparr>tk_state := TASK_RUNNING, tk_run_count := tk_run_count (tk_info (tt_tasks tt ! i)) + 1\<rparr>\<rparr>"
  have "task_ok (tt1\<lparr>tt_tasks := (tt_tasks tt1)[i := ?t]\<rparr>)"
    by (rule ok_keep_pid [OF c(3) i]) (simp_all add: c(2) pid_at_def)
  then have "task_ok (tt1\<lparr>tt_tasks := (tt_tasks tt)[i := ?t], total_runs := total_runs tt1 + 1\<rparr>)"
    unfolding runs by (simp add: c(2))
  then show ?thesis using l i c(1,2) ok by (simp add: run_begin_def)
qed

lemma finish_ok:
  assumes ok: "task_ok tt" and i: "i < TASK_MAX"
  shows "\<exists>tt'. run_finish env i tt = Some tt' \<and> task_ok tt'"
proof -
  obtain c where c: "task_current_locked env tt = Some c" using current_Some [OF task_okD(1) [OF ok]] by blast
  have l: "length (tt_tasks tt) = TASK_MAX" using task_invD(1) [OF task_okD(1) [OF ok]] .
  let ?t = "(tt_tasks tt ! i)\<lparr>tk_info := (tk_info (tt_tasks tt ! i))\<lparr>tk_state := TASK_EXITED\<rparr>\<rparr>"
  have "task_ok (tt\<lparr>tt_tasks := (tt_tasks tt)[i := ?t]\<rparr>)" by (rule ok_keep_pid [OF ok i]) (simp_all add: pid_at_def)
  from ok_current [OF this, of None env] ok_current [OF ok, of None env] show ?thesis using c l i ok
    by (simp add: run_finish_def)
qed

lemma reap_ok: "task_ok tt \<Longrightarrow> task_ok (task_reap_exited tt)"
proof -
  assume ok: "task_ok tt"
  let ?tt = "task_reap_exited tt"
  have l: "length (tt_tasks tt) = TASK_MAX" using task_invD(1) [OF task_okD(1) [OF ok]] .
  have a: "live ?tt i \<Longrightarrow> live tt i \<and> pid_at ?tt i = pid_at tt i" and b: "i < TASK_MAX \<Longrightarrow> \<not> live ?tt i \<Longrightarrow> pid_at ?tt i = 0" for i
    using l task_okD(3) [OF ok, of i] by (auto simp: live_def pid_at_def task_reap_exited_def zero_task_def split: if_splits)
  show ?thesis using task_invD [OF task_okD(1) [OF ok]] task_okD(2) [OF ok] a b unfolding task_ok_def task_inv_def
    by (auto simp: task_reap_exited_def)
qed

lemma snapshot_roundtrip:
  assumes "task_inv tt" "task_snapshot_save buf n tt = (True, snap)" "task_snapshot_size \<le> n'"
  shows "task_snapshot_restore snap n' tt' = (True, tt)"
proof -
  have "map ((\<lambda>i. if 0 \<le> i \<and> i < int TASK_MAX then Some (nat i) else None) \<circ> index_of_current) (current_by_cpu tt) = current_by_cpu tt"
  proof (rule map_idI)
    fix c assume c: "c \<in> set (current_by_cpu tt)"
    show "((\<lambda>i. if 0 \<le> i \<and> i < int TASK_MAX then Some (nat i) else None) \<circ> index_of_current) c = c"
      by (cases c) (use task_invD(4) [OF assms(1) c] in auto)
  qed
  then show ?thesis using assms by (auto simp: task_snapshot_save_def task_snapshot_restore_def split: option.splits if_splits)
qed

lemma task_reach_ok: "task_reach tt \<Longrightarrow> task_ok tt"
proof (induction rule: task_reach.induct)
  case (init tt tt' lg)
  then show ?case using init_ok [of tt] by simp
next
  case (again tt tt' lg)
  then show ?case using init_ok [of tt] by simp
next
  case (reset tt)
  then show ?case using fresh_ok by (simp add: task_reset_for_test_def)
next
  case (spawn tt env name entry ctx r tt' lg)
  then show ?case using spawn_ok by blast
next
  case (exit_current tt env code tt')
  then show ?case using exit_ok [of tt env code] by auto
next
  case (begin_run tt i env e tt')
  then show ?case using begin_ok [of tt i env] by auto
next
  case (finish_run tt i env tt')
  then show ?case using finish_ok [of tt i env] by auto
next
  case (reap tt)
  then show ?case using reap_ok by blast
next
  case (restore tt0 tt buf n snap n' tt')
  then have "task_snapshot_size \<le> n'" by (auto simp: task_snapshot_restore_def split: option.splits if_splits)
  then show ?case using snapshot_roundtrip [OF task_okD(1) [OF restore.IH(1)] restore.hyps(3)] restore by auto
qed

section \<open>A table with two tasks\<close>

definition pad_tasks :: "task_t list" where
  "pad_tasks = replicate 62 zero_task"

lemma pad_tasks: "length pad_tasks = 62" "k < 62 \<Longrightarrow> pad_tasks ! k = zero_task" "t \<in> set pad_tasks \<Longrightarrow> t = zero_task"
  by (simp_all add: pad_tasks_def)

declare pad_tasks(1,2) [simp]

lemma zero_task_simps [simp]: "tk_state (tk_info zero_task) = TASK_UNUSED" "tk_pid (tk_info zero_task) = 0"
  by (simp_all add: zero_task_def)

definition boot_table :: task_table where
  "boot_table = \<lparr>tt_tasks = zero_task # zero_task # pad_tasks, current_by_cpu = replicate 16 None, next_pid = 1, total_runs = 0, tt_initialized = True\<rparr>"

lemma boot_table_fresh: "boot_table = \<lparr>tt_tasks = replicate TASK_MAX zero_task, current_by_cpu = replicate SMP_MAX_CPUS None,
    next_pid = 1, total_runs = 0, tt_initialized = True\<rparr>"
proof -
  have "TASK_MAX = Suc (Suc 62)" by (simp add: TASK_MAX_def)
  then have "replicate TASK_MAX zero_task = zero_task # zero_task # pad_tasks" unfolding pad_tasks_def by (metis replicate_Suc)
  then show ?thesis by (simp add: boot_table_def SMP_MAX_CPUS_def)
qed

lemma boot_table_init: "\<not> (tt_initialized tt \<and> task_table_has_live_locked tt) \<Longrightarrow> fst (task_init tt) = boot_table"
  by (auto simp: task_init_def boot_table_fresh)

lemma first_pid:
  assumes "next_pid tt \<noteq> 0" "\<forall>t\<in>set (tt_tasks tt). tk_state (tk_info t) \<noteq> TASK_UNUSED \<longrightarrow> tk_pid (tk_info t) \<noteq> next_pid tt"
  shows "allocate_task_pid_locked tt = (next_pid tt, tt\<lparr>next_pid := pid_succ (next_pid tt)\<rparr>)"
proof -
  have "next_pid tt \<notin> busy tt" using assms(2) by (auto simp: busy_def live_def pid_at_def)
  then show ?thesis using pid_attempts_find [of tt 0 "0xffffffff"] assms(1)
    by (simp add: allocate_task_pid_locked_def del: pid_attempts.simps)
qed

lemma pid_succ_values: "pid_succ 1 = 2" "pid_succ 2 = 3"
  by (simp_all add: pid_succ_def)

text \<open>The two tasks of the self-test, in state \<open>st\<close> with the run count \<open>n\<close> and exit code \<open>c\<close>.\<close>

definition test_task :: "u32 \<Rightarrow> string \<Rightarrow> task_state_t \<Rightarrow> u64 \<Rightarrow> int \<Rightarrow> u64 \<Rightarrow> nat \<Rightarrow> nat \<Rightarrow> task_t" where
  "test_task pid name sta n c tick te ctx = \<lparr>tk_info = \<lparr>tk_pid = pid, tk_parent_pid = 0, tk_state = sta, tk_name = task_name_buf (map of_char name),
     tk_created_tick = tick, tk_run_count = n, tk_exit_code = c\<rparr>, tk_entry = te, tk_ctx = ctx\<rparr>"

lemma spawn_first:
  assumes "te \<noteq> 0" "name \<noteq> []"
  shows "\<exists>lg. task_spawn_kernel env (Some (map of_char name)) te x boot_table =
     Some (1, boot_table\<lparr>tt_tasks := test_task 1 name TASK_READY 0 0 (env_tick env) te x # zero_task # pad_tasks, next_pid := 2\<rparr>, lg)"
proof -
  have "task_cpu_slot env < 16" using cpu_slot [of env] by (simp add: SMP_MAX_CPUS_def)
  then have c: "task_current_locked env (boot_table\<lparr>next_pid := 2\<rparr>) = Some None" by (simp add: task_current_locked_def boot_table_def)
  have "allocate_task_pid_locked boot_table = (next_pid boot_table, boot_table\<lparr>next_pid := pid_succ (next_pid boot_table)\<rparr>)"
    by (rule first_pid) (auto simp: boot_table_def dest!: pad_tasks(3))
  then have "allocate_task_pid_locked boot_table = (1, boot_table\<lparr>next_pid := 2\<rparr>)"
    by (simp add: boot_table_def pid_succ_values)
  moreover have "alloc_slot_locked boot_table = Some 0" by (simp add: alloc_slot_locked_def boot_table_def)
  ultimately show ?thesis using assms c
    by (simp add: task_spawn_kernel_def test_task_def now_tick_def) (simp add: boot_table_def)
qed

text \<open>The table of the self-test: its two tasks in the first two slots.\<close>

definition pair_table :: "task_t \<Rightarrow> task_t \<Rightarrow> nat option list \<Rightarrow> u64 \<Rightarrow> task_table" where
  "pair_table ta tb cur runs = \<lparr>tt_tasks = ta # tb # pad_tasks, current_by_cpu = cur, next_pid = 3, total_runs = runs, tt_initialized = True\<rparr>"

lemma spawn_second:
  assumes "te \<noteq> 0" "name \<noteq> []"
  shows "\<exists>lg. task_spawn_kernel env (Some (map of_char name)) te x
       (boot_table\<lparr>tt_tasks := test_task 1 na TASK_READY 0 0 tick te a # zero_task # pad_tasks, next_pid := 2\<rparr>) =
     Some (2, pair_table (test_task 1 na TASK_READY 0 0 tick te a) (test_task 2 name TASK_READY 0 0 (env_tick env) te x) (replicate 16 None) 0, lg)"
proof -
  let ?tt = "boot_table\<lparr>tt_tasks := test_task 1 na TASK_READY 0 0 tick te a # zero_task # pad_tasks, next_pid := 2\<rparr>"
  have "task_cpu_slot env < 16" using cpu_slot [of env] by (simp add: SMP_MAX_CPUS_def)
  then have c: "task_current_locked env (?tt\<lparr>next_pid := 3\<rparr>) = Some None" by (simp add: task_current_locked_def boot_table_def)
  have "allocate_task_pid_locked ?tt = (next_pid ?tt, ?tt\<lparr>next_pid := pid_succ (next_pid ?tt)\<rparr>)"
    by (rule first_pid) (auto simp: boot_table_def test_task_def dest!: pad_tasks(3))
  then have "allocate_task_pid_locked ?tt = (2, ?tt\<lparr>next_pid := 3\<rparr>)" by (simp add: pid_succ_values)
  moreover have "alloc_slot_locked ?tt = Some 1" by (simp add: alloc_slot_locked_def test_task_def)
  moreover have "tt_initialized ?tt" by (simp add: boot_table_def)
  ultimately show ?thesis using assms c
    unfolding task_spawn_kernel_def by (simp add: test_task_def now_tick_def pair_table_def boot_table_def)
qed

lemma cpu_slot_16: "task_cpu_slot env < 16"
  using cpu_slot [of env] by (simp add: SMP_MAX_CPUS_def)

text \<open>A dispatch of slot 0 or 1 whose entry function exits with a code.\<close>

lemma dispatch_first:
  assumes "te \<noteq> 0" "length cur = 16"
  shows "\<exists>tt1. run_begin env 0 (pair_table (test_task p na TASK_READY n c tick te a) tb cur runs) = Some (Some (te, a), tt1) \<and>
     (\<exists>tt2. task_exit_current env v tt1 = Some tt2 \<and>
       run_finish env 0 tt2 = Some (pair_table (test_task p na TASK_EXITED (n + 1) v tick te a) tb (cur[task_cpu_slot env := None]) (runs + 1)))"
  using assms cpu_slot_16 [of env]
  by (simp add: run_begin_def task_exit_current_def run_finish_def task_set_current_locked_def task_current_locked_def pair_table_def test_task_def)

lemma dispatch_second:
  assumes "te \<noteq> 0" "length cur = 16"
  shows "\<exists>tt1. run_begin env 1 (pair_table ta (test_task p na TASK_READY n c tick te a) cur runs) = Some (Some (te, a), tt1) \<and>
     (\<exists>tt2. task_exit_current env v tt1 = Some tt2 \<and>
       run_finish env 1 tt2 = Some (pair_table ta (test_task p na TASK_EXITED (n + 1) v tick te a) (cur[task_cpu_slot env := None]) (runs + 1)))"
  using assms cpu_slot_16 [of env]
  by (simp add: run_begin_def task_exit_current_def run_finish_def task_set_current_locked_def task_current_locked_def pair_table_def test_task_def)

lemma run_loop_idle:
  "\<forall>j. i \<le> j \<and> j < i + n \<longrightarrow> j < length (tt_tasks tt) \<and> tk_state (tk_info (tt_tasks tt ! j)) \<noteq> TASK_READY \<Longrightarrow>
   run_loop env note call i n nran m (tt, w) = Some (tt, w)"
  by (induction n arbitrary: i) (auto simp: run_begin_def)

lemma run_pair:
  fixes call :: "nat \<Rightarrow> nat \<Rightarrow> task_table \<times> 'w \<times> u32 \<Rightarrow> (task_table \<times> 'w \<times> u32) option"
  assumes te: "te \<noteq> 0" and ab: "a \<noteq> b" and cur: "length cur = 16"
  shows "run_loop env (\<lambda>(w, c). (note w, c)) (test_call env call te a b) 0 TASK_MAX 0 16
      (pair_table (test_task 1 na TASK_READY 0 0 tick te a) (test_task 2 nb TASK_READY 0 0 tick te b) cur 0, w, 0) =
    Some (pair_table (test_task 1 na TASK_EXITED 1 3 tick te a) (test_task 2 nb TASK_EXITED 1 7 tick te b)
       (cur[task_cpu_slot env := None]) 2, note (note w), 10)"
proof -
  let ?ta = "test_task 1 na TASK_READY 0 0 tick te a" and ?tb = "test_task 2 nb TASK_READY 0 0 tick te b"
  let ?ta' = "test_task 1 na TASK_EXITED 1 3 tick te a" and ?tb' = "test_task 2 nb TASK_EXITED 1 7 tick te b"
  let ?cur = "cur[task_cpu_slot env := None]"
  obtain m where m: "m = (62 :: nat)" "TASK_MAX = Suc (Suc m)" by (simp add: TASK_MAX_def)
  obtain t1 t2 where 1: "run_begin env 0 (pair_table ?ta ?tb cur 0) = Some (Some (te, a), t1)" "task_exit_current env 3 t1 = Some t2"
    "run_finish env 0 t2 = Some (pair_table ?ta' ?tb ?cur 1)"
    using dispatch_first [OF te cur, of env 1 na 0 0 tick a ?tb 0 3] by auto
  obtain u1 u2 where 2: "run_begin env 1 (pair_table ?ta' ?tb ?cur 1) = Some (Some (te, b), u1)" "task_exit_current env 7 u1 = Some u2"
    "run_finish env 1 u2 = Some (pair_table ?ta' ?tb' (?cur[task_cpu_slot env := None]) 2)"
    using dispatch_second [OF te, of ?cur env ?ta' 2 nb 0 0 tick b 1 7] cur by auto
  have idle: "run_loop env (\<lambda>(w, c). (note w, c)) (test_call env call te a b) (Suc (Suc 0)) m (Suc (Suc 0)) 16
      (pair_table ?ta' ?tb' (?cur[task_cpu_slot env := None]) 2, w', c) = Some (pair_table ?ta' ?tb' (?cur[task_cpu_slot env := None]) 2, w', c)" for w' c
  proof (rule run_loop_idle, intro allI impI)
    fix j :: nat assume j: "Suc (Suc 0) \<le> j \<and> j < Suc (Suc 0) + m"
    define k where "k = j - 2"
    have k: "j = Suc (Suc k)" "k < 62" using j m(1) unfolding k_def by linarith+
    show "j < length (tt_tasks (pair_table ?ta' ?tb' (?cur[task_cpu_slot env := None]) 2)) \<and>
        tk_state (tk_info (tt_tasks (pair_table ?ta' ?tb' (?cur[task_cpu_slot env := None]) 2) ! j)) \<noteq> TASK_READY"
      using k by (simp add: pair_table_def)
  qed
  have test: "test_call env call te a b te a = task_test_entry env 3" "test_call env call te a b te b = task_test_entry env 7"
    using ab by (simp_all add: test_call_def)
  show ?thesis unfolding m(2) using 1 2 idle by (simp add: test task_test_entry_def)
qed

lemma selftest_run:
  assumes te: "te \<noteq> 0" and ab: "a \<noteq> b" and idle: "\<not> (tt_initialized tt \<and> task_table_has_live_locked tt)"
  shows "\<exists>tt'. task_selftest env note call te a b tt w = Some (True, tt', note (note w)) \<and> tt_tasks tt' = replicate TASK_MAX zero_task \<and>
     ts_used_slots (task_get_stats tt') = 0"
proof -
  let ?ta = "test_task 1 ''ktest-a'' TASK_READY 0 0 (env_tick env) te a" and ?tb = "test_task 2 ''ktest-b'' TASK_READY 0 0 (env_tick env) te b"
  let ?ta' = "test_task 1 ''ktest-a'' TASK_EXITED 1 3 (env_tick env) te a" and ?tb' = "test_task 2 ''ktest-b'' TASK_EXITED 1 7 (env_tick env) te b"
  let ?cur = "(replicate 16 None)[task_cpu_slot env := None]"
  let ?fin = "pair_table ?ta' ?tb' ?cur 2"
  obtain l1 l2 where s: "task_spawn_kernel env (Some (map of_char ''ktest-a'')) te a boot_table =
      Some (1, boot_table\<lparr>tt_tasks := ?ta # zero_task # pad_tasks, next_pid := 2\<rparr>, l1)"
    "task_spawn_kernel env (Some (map of_char ''ktest-b'')) te b (boot_table\<lparr>tt_tasks := ?ta # zero_task # pad_tasks, next_pid := 2\<rparr>) =
      Some (2, pair_table ?ta ?tb (replicate 16 None) 0, l2)"
    using spawn_first [OF te, of "''ktest-a''" env a] spawn_second [OF te, of "''ktest-b''" env b "''ktest-a''" "env_tick env" a] by auto
  have run: "task_run_ready env (\<lambda>(w, c). (note w, c)) (test_call env call te a b) 16 (pair_table ?ta ?tb (replicate 16 None) 0) (w, 0) =
      Some (?fin, (note (note w), 10), [])"
    using run_pair [OF te ab, of "replicate 16 None" env "note" call "''ktest-a''" "env_tick env" "''ktest-b''" w]
    by (simp add: task_run_ready_def pair_table_def)
  have i: "task_get_info 1 ?fin = Some (tk_info ?ta')" "task_get_info 2 ?fin = Some (tk_info ?tb')"
    by (simp_all add: task_get_info_def pair_table_def test_task_def)
  have m: "replicate TASK_MAX zero_task = zero_task # zero_task # pad_tasks"
    using boot_table_fresh by (simp add: boot_table_def)
  have r: "tt_tasks (task_reap_exited ?fin) = replicate TASK_MAX zero_task"
    unfolding m by (simp add: task_reap_exited_def pair_table_def test_task_def) (rule map_idI, auto dest!: pad_tasks(3))
  have z: "count_states (replicate n zero_task) s = s" for n s by (induction n arbitrary: s) simp_all
  have u: "ts_used_slots (task_get_stats (task_reap_exited ?fin)) = 0" by (simp add: task_get_stats_def r z)
  obtain lg where b: "task_init tt = (boot_table, lg)" using boot_table_init [OF idle] by (metis prod.collapse)
  have "tk_state (tk_info ?ta') = TASK_EXITED" "tk_state (tk_info ?tb') = TASK_EXITED" "tk_exit_code (tk_info ?ta') = 3" "tk_exit_code (tk_info ?tb') = 7"
    by (simp_all add: test_task_def)
  then show ?thesis using s run i r u unfolding task_selftest_def b by simp
qed

section \<open>The report\<close>

lemma kout_fetch: "fetch_args (cbytes f) args 0 = None \<Longrightarrow> kout f args = None"
proof (rule ccontr)
  assume n: "fetch_args (cbytes f) args 0 = None" and "kout f args \<noteq> None"
  then obtain o1 o2 where "kvformat_loop o1 (cbytes f) args 0 = Some o2"
    by (auto simp: kout_def kprintf_def kvprintf_emit_buffered_def kvformat_def bind_eq_Some)
  then show False using format_fetch n by blast
qed

text \<open>
  The formatter has no minus flag: every \<^verbatim>\<open>%-\<close> of the report line prints as it stands and takes
  no argument, so that the final \<^verbatim>\<open>%s\<close> takes the pid for the address of a string.
\<close>

lemma report_line_fetch: "fetch_args (cbytes ''  %-5u %-5u %-8s %-5llu %s\<newline>'') (VNum p # args) 0 = None"
  by code_simp

lemma report_line_faults: "kout ''  %-5u %-5u %-8s %-5llu %s\<newline>'' (VNum p # args) = None"
  by (rule kout_fetch [OF report_line_fetch])

lemma dump_tasks_faults: "\<exists>t\<in>set ts. tk_state (tk_info t) \<noteq> TASK_UNUSED \<Longrightarrow> dump_tasks ts = None"
proof (induction ts)
  case (Cons t ts)
  show ?case
  proof (cases "tk_state (tk_info t) = TASK_UNUSED")
    case True
    then show ?thesis using Cons by simp
  next
    case False
    then show ?thesis by (simp add: report_line_faults del: list.simps)
  qed
qed simp

section \<open>A slot reused under a returning task\<close>

definition one_table :: "task_t \<Rightarrow> nat option list \<Rightarrow> u32 \<Rightarrow> u64 \<Rightarrow> task_table" where
  "one_table t cur n runs = \<lparr>tt_tasks = t # zero_task # pad_tasks, current_by_cpu = cur, next_pid = n, total_runs = runs, tt_initialized = True\<rparr>"

lemma spawn_one:
  assumes "te \<noteq> 0" "name \<noteq> []" "n \<noteq> 0" "length cur = 16" "cur ! task_cpu_slot env = None"
  shows "\<exists>lg. task_spawn_kernel env (Some (map of_char name)) te x (one_table zero_task cur n runs) =
     Some (sint n, one_table (test_task n name TASK_READY 0 0 (env_tick env) te x) cur (pid_succ n) runs, lg)"
proof -
  let ?tt = "one_table zero_task cur n runs"
  have c: "task_current_locked env (?tt\<lparr>next_pid := p\<rparr>) = Some None" for p
    using assms(4,5) cpu_slot_16 [of env] by (simp add: task_current_locked_def one_table_def)
  have "allocate_task_pid_locked ?tt = (next_pid ?tt, ?tt\<lparr>next_pid := pid_succ (next_pid ?tt)\<rparr>)"
    by (rule first_pid) (use assms(3) in \<open>auto simp: one_table_def dest!: pad_tasks(3)\<close>)
  then have "allocate_task_pid_locked ?tt = (n, ?tt\<lparr>next_pid := pid_succ n\<rparr>)" by (simp add: one_table_def)
  moreover have "alloc_slot_locked ?tt = Some 0" by (simp add: alloc_slot_locked_def one_table_def)
  moreover have "tt_initialized ?tt" by (simp add: one_table_def)
  ultimately show ?thesis using assms(1-3) c
    unfolding task_spawn_kernel_def by (simp add: test_task_def now_tick_def) (simp add: one_table_def)
qed

lemma begin_one:
  assumes "te \<noteq> 0" "length cur = 16"
  shows "run_begin env 0 (one_table (test_task p na TASK_READY k c tick te x) cur n runs) =
     Some (Some (te, x), one_table (test_task p na TASK_RUNNING (k + 1) c tick te x) (cur[task_cpu_slot env := Some 0]) n (runs + 1))"
  using assms cpu_slot_16 [of env]
  by (simp add: run_begin_def task_set_current_locked_def one_table_def test_task_def)

lemma exit_one:
  assumes "length cur = 16" "cur ! task_cpu_slot env = Some 0"
  shows "task_exit_current env v (one_table (test_task p na sta k c tick te x) cur n runs) =
     Some (one_table (test_task p na TASK_EXITED k v tick te x) cur n runs)"
  using assms cpu_slot_16 [of env] by (simp add: task_exit_current_def task_current_locked_def one_table_def test_task_def)

lemma finish_one:
  assumes "length cur = 16" "cur ! task_cpu_slot env = Some 0"
  shows "run_finish env 0 (one_table (test_task p na TASK_RUNNING k c tick te x) cur n runs) =
     Some (one_table (test_task p na TASK_EXITED k c tick te x) (cur[task_cpu_slot env := None]) n runs)"
  using assms cpu_slot_16 [of env]
  by (simp add: run_finish_def task_current_locked_def task_set_current_locked_def one_table_def test_task_def)

lemma reap_one: "task_reap_exited (one_table (test_task p na TASK_EXITED k c tick te x) cur n runs) = one_table zero_task cur n runs"
  by (simp add: task_reap_exited_def one_table_def test_task_def) (rule map_idI, auto dest!: pad_tasks(3))

lemma boot_one: "boot_table = one_table zero_task (replicate 16 None) 1 0"
  by (simp add: boot_table_def one_table_def)

definition on_cpu :: "nat \<Rightarrow> cpu_env" where
  "on_cpu n = \<lparr>env_cpu = n, env_tick = 0\<rparr>"

lemma on_cpu_slot: "task_cpu_slot (on_cpu 0) = 0" "task_cpu_slot (on_cpu (Suc 0)) = Suc 0" "env_tick (on_cpu n) = 0"
  by (simp_all add: task_cpu_slot_def on_cpu_def SMP_MAX_CPUS_def)

lemma get_info_live:
  assumes inv: "task_inv tt" and i: "live tt i" and p: "pid_at tt i \<noteq> 0"
  shows "task_get_info (pid_at tt i) tt = Some (tk_info (tt_tasks tt ! i))"
proof -
  let ?P = "\<lambda>t. tk_state (tk_info t) \<noteq> TASK_UNUSED \<and> tk_pid (tk_info t) = pid_at tt i"
  have ex: "\<exists>j<length (tt_tasks tt). ?P (tt_tasks tt ! j)" using i by (auto simp: live_def pid_at_def)
  have "find ?P (tt_tasks tt) \<noteq> None" unfolding find_None_iff using ex nth_mem by blast
  then obtain t where t: "find ?P (tt_tasks tt) = Some t" by blast
  then obtain j where j: "j < length (tt_tasks tt)" "?P (tt_tasks tt ! j)" "t = tt_tasks tt ! j" by (auto simp: find_Some_iff)
  have "j = i" using task_invD(5) [OF inv, of j i] j i p by (auto simp: live_def pid_at_def)
  then show ?thesis using t j(3) p by (simp add: task_get_info_def)
qed

text \<open>A pid from \<open>0x80000000\<close> on is returned as a negative number, although the task was created.\<close>

lemma spawn_high_pid:
  "\<exists>lg. task_spawn_kernel (on_cpu 0) (Some (map of_char ''a'')) 7 0 (one_table zero_task (replicate 16 None) 0x80000000 0) =
     Some (- 2147483648, one_table (test_task 0x80000000 ''a'' TASK_READY 0 0 0 7 0) (replicate 16 None) 0x80000001 0, lg)"
  using spawn_one [of 7 "''a''" "0x80000000" "replicate 16 None" "on_cpu 0" 0 0] by (auto simp: on_cpu_slot pid_succ_def)

section \<open>Properties\<close>

text \<open>
  C7: A pid names one task. However the locked sections of initialisation, spawning, exiting,
  dispatching on any processor, reaping and snapshot restoring interleave, two slots in use never
  have the same nonzero pid, and asking for the information of the task in a slot by its pid
  gives that slot.
\<close>
theorem task_pids_unique:
  assumes "task_reach tt" "live tt i" "pid_at tt i \<noteq> 0"
  shows "task_get_info (pid_at tt i) tt = Some (tk_info (tt_tasks tt ! i)) \<and> (\<forall>j. live tt j \<and> pid_at tt j = pid_at tt i \<longrightarrow> j = i)"
  using get_info_live [OF task_okD(1) [OF task_reach_ok [OF assms(1)]] assms(2,3)]
    task_invD(5) [OF task_okD(1) [OF task_reach_ok [OF assms(1)]]] assms(2,3) by auto

theorem task_pids_unique_witness:
  "\<exists>tt. task_reach tt \<and> live tt 0 \<and> pid_at tt 0 = 1 \<and> task_get_info 1 tt = Some (tk_info (tt_tasks tt ! 0))"
proof -
  have b: "task_reach boot_table"
    using task_reach.init [of "\<lparr>tt_tasks = [], current_by_cpu = [], next_pid = 0, total_runs = 0, tt_initialized = False\<rparr>" boot_table]
    by (auto simp: task_init_def boot_table_fresh)
  obtain tt r lg where tt: "task_spawn_kernel (on_cpu 0) (Some (map of_char ''a'')) 7 0 boot_table = Some (r, tt, lg)"
    "tt = one_table (test_task 1 ''a'' TASK_READY 0 0 0 7 0) (replicate 16 None) (pid_succ 1) 0"
    using spawn_one [of 7 "''a''" 1 "replicate 16 None" "on_cpu 0" 0 0] unfolding boot_one by (auto simp: on_cpu_slot)
  have l: "live tt 0" "pid_at tt 0 = 1" by (simp_all add: tt(2) live_def pid_at_def one_table_def test_task_def)
  have "task_reach tt" using task_reach.spawn [OF b tt(1)] .
  with task_pids_unique [OF this l(1)] l show ?thesis by auto
qed



text \<open>
  The self-test of the task table passes. When the table has no ready, running or blocked
  task, then on any processor and with any other entry functions the self-test returns true: both
  of its tasks get a pid, run once, exit with their codes, and are reaped, and the table is empty
  afterwards.
\<close>
theorem task_selftest_passes:
  assumes "te \<noteq> 0" "a \<noteq> b" "\<not> (tt_initialized tt \<and> task_table_has_live_locked tt)"
  shows "\<exists>tt'. task_selftest env note call te a b tt w = Some (True, tt', note (note w)) \<and> tt_tasks tt' = replicate TASK_MAX zero_task \<and>
     ts_used_slots (task_get_stats tt') = 0"
  by (rule selftest_run [OF assms])

theorem task_selftest_passes_witness:
  "\<exists>tt'. task_selftest (on_cpu 3) Suc (\<lambda>_ _ _. None) 7 1 2 boot_table 0 = Some (True, tt', 2)"
proof -
  have "\<not> (tt_initialized boot_table \<and> task_table_has_live_locked boot_table)"
    by (auto simp: boot_table_def task_table_has_live_locked_def list_ex_iff dest!: pad_tasks(3))
  from task_selftest_passes [OF _ _ this, of 7 1 2 "on_cpu 3" Suc "\<lambda>_ _ _. None" 0] show ?thesis by auto
qed



text \<open>
  C36: An exited task can be reaped while its entry function still runs, and its slot reused. In
  the sequence below task 1 runs on processor 0 and exits; before its entry function returns,
  processor 1 reaps it, spawns task 2 into the same slot and starts it; the return of task 1 then
  marks task 2 as exited although it is running on processor 1 and has not exited.
\<close>
theorem exited_slot_reuse_race:
  "do { (p1, tt, _) \<leftarrow> task_spawn_kernel (on_cpu 0) (Some (map of_char ''a'')) 7 0 boot_table;
        (_, tt) \<leftarrow> run_begin (on_cpu 0) 0 tt;
        tt \<leftarrow> task_exit_current (on_cpu 0) 0 tt;
        let tt = task_reap_exited tt;
        (p2, tt, _) \<leftarrow> task_spawn_kernel (on_cpu 1) (Some (map of_char ''b'')) 7 1 tt;
        (_, tt) \<leftarrow> run_begin (on_cpu 1) 0 tt;
        let before = tk_state (tk_info (tt_tasks tt ! 0));
        tt \<leftarrow> run_finish (on_cpu 0) 0 tt;
        Some (p1, p2, current_by_cpu tt ! 1, before, pid_at tt 0, tk_state (tk_info (tt_tasks tt ! 0))) } =
   Some (1, 2, Some 0, TASK_RUNNING, 2, TASK_EXITED)"
proof -
  obtain l1 where 1: "task_spawn_kernel (on_cpu 0) (Some (map of_char ''a'')) 7 0 boot_table =
      Some (1, one_table (test_task 1 ''a'' TASK_READY 0 0 0 7 0) (replicate 16 None) 2 0, l1)"
    using spawn_one [of 7 "''a''" 1 "replicate 16 None" "on_cpu 0" 0 0] unfolding boot_one by (auto simp: on_cpu_slot pid_succ_values)
  let ?c = "(replicate 16 None)[0 := Some 0] :: nat option list"
  obtain l2 where 2: "task_spawn_kernel (on_cpu 1) (Some (map of_char ''b'')) 7 1 (one_table zero_task ?c 2 1) =
      Some (2, one_table (test_task 2 ''b'' TASK_READY 0 0 0 7 1) ?c 3 1, l2)"
    using spawn_one [of 7 "''b''" 2 ?c "on_cpu 1" 1 1] by (auto simp: on_cpu_slot pid_succ_values)
  show ?thesis using 1 2
    by (simp add: begin_one exit_one finish_one reap_one on_cpu_slot Let_def) (simp add: one_table_def pid_at_def test_task_def)
qed

end
