(* ===== verification/Net.thy ===== *)
theory Net
  imports Ringbuf Printf Phys_Mem Log
begin

text \<open>
  The network device layer, \<^verbatim>\<open>kernel/drivers/net.c\<close>. A device is a record, the registry a list
  of device addresses in a memory of devices. A driver is a record of optional operations on its
  device, whose private state has the type \<open>'c\<close>; \<open>ops a\<close> is the driver at address \<open>a\<close> and
  \<open>cb a\<close> the receive callback at address \<open>a\<close>, both arguments. Lengths, indices and queue sizes
  are natural numbers, counters and flags are words.
\<close>

section \<open>Formats\<close>

definition NET_MAX_DEVS :: nat where "NET_MAX_DEVS = 4"
definition NET_NAME_LEN :: nat where "NET_NAME_LEN = 16"
definition NET_ETH_ADDR_LEN :: nat where "NET_ETH_ADDR_LEN = 6"
definition NET_ETH_HEADER_LEN :: nat where "NET_ETH_HEADER_LEN = 14"
definition NET_ETH_MAX_FRAME :: nat where "NET_ETH_MAX_FRAME = 2048"
definition NET_RX_BACKLOG :: nat where "NET_RX_BACKLOG = 64"
definition NETDEV_F_UP :: u32 where "NETDEV_F_UP = 0x1"
definition NETDEV_F_RUNNING :: u32 where "NETDEV_F_RUNNING = 0x2"
definition NETDEV_F_LINK_UP :: u32 where "NETDEV_F_LINK_UP = 0x4"
definition NETDEV_F_PROMISC :: u32 where "NETDEV_F_PROMISC = 0x8"
definition NETDEV_F_ALLMULTI :: u32 where "NETDEV_F_ALLMULTI = 0x10"
definition NET_RX_OK :: u32 where "NET_RX_OK = 0x1"
definition NET_RX_CSUM_OK :: u32 where "NET_RX_CSUM_OK = 0x2"
definition NET_RX_VLAN :: u32 where "NET_RX_VLAN = 0x4"
definition NET_TX_CSUM :: u32 where "NET_TX_CSUM = 0x1"
definition NET_TX_VLAN :: u32 where "NET_TX_VLAN = 0x4"

datatype net_status_t = NET_OK | NET_ERR_INVAL | NET_ERR_NOMEM | NET_ERR_NODEV | NET_ERR_BUSY | NET_ERR_RANGE
  | NET_ERR_IO | NET_ERR_UNSUPPORTED

record net_stats_t =
  rx_packets :: u64
  tx_packets :: u64
  rx_bytes :: u64
  tx_bytes :: u64
  rx_errors :: u64
  tx_errors :: u64
  rx_dropped :: u64
  tx_dropped :: u64
  rx_truncated :: u64
  rx_multicast :: u64
  rx_broadcast :: u64
  tx_busy :: u64
  tx_timeouts :: u64
  interrupts :: u64
  polls :: u64
  link_changes :: u64
  rx_queue_high_water :: u64
  resets :: u64
  dma_errors :: u64
  csum_rx_good :: u64
  csum_tx_offloaded :: u64
  vlan_rx :: u64
  vlan_tx :: u64

record net_rx_meta_t =
  rm_vlan_tag :: nat
  rm_protocol :: nat
  rm_flags :: u32

record net_tx_meta_t =
  tm_vlan_tag :: nat
  tm_mss :: nat
  tm_header_len :: nat
  tm_protocol :: nat
  tm_flags :: u32

record net_frame_slot_t =
  sl_len :: nat
  sl_meta :: net_rx_meta_t
  sl_data :: bytes

record 'c net_device_t =
  dv_name :: bytes
  dv_driver :: "bytes option"
  dv_mac :: bytes
  dv_mtu :: nat
  dv_max_mtu :: nat
  dv_flags :: u32
  dv_caps :: u32
  link_speed_mbps :: nat
  link_duplex :: nat
  tx_queue_len :: nat
  rx_queue_len :: nat
  dv_ctx :: 'c
  dv_ops :: nat
  dv_stats :: net_stats_t
  rx_queue :: "net_frame_slot_t list option"
  rx_head :: nat
  rx_tail :: nat
  rx_count :: nat
  rx_callback :: nat
  rx_callback_ctx :: nat

record 'c net_device_ops_t =
  op_open :: "('c net_device_t \<Rightarrow> net_status_t \<times> 'c net_device_t) option"
  op_close :: "('c net_device_t \<Rightarrow> 'c net_device_t) option"
  op_transmit :: "('c net_device_t \<Rightarrow> bytes \<Rightarrow> net_tx_meta_t option \<Rightarrow> net_status_t \<times> 'c net_device_t) option"
  op_poll :: "('c net_device_t \<Rightarrow> 'c net_device_t) option"
  op_set_promisc :: "('c net_device_t \<Rightarrow> bool \<Rightarrow> net_status_t \<times> 'c net_device_t) option"
  op_set_allmulti :: "('c net_device_t \<Rightarrow> bool \<Rightarrow> net_status_t \<times> 'c net_device_t) option"
  op_set_mac :: "('c net_device_t \<Rightarrow> bytes \<Rightarrow> net_status_t \<times> 'c net_device_t) option"
  op_set_mtu :: "('c net_device_t \<Rightarrow> nat \<Rightarrow> net_status_t \<times> 'c net_device_t) option"
  op_set_vlan :: "('c net_device_t \<Rightarrow> nat \<Rightarrow> bool \<Rightarrow> net_status_t \<times> 'c net_device_t) option"
  op_update_link :: "('c net_device_t \<Rightarrow> 'c net_device_t) option"
  op_format_driver :: "('c net_device_t \<Rightarrow> bytes \<Rightarrow> nat \<Rightarrow> bytes) option"

record 'c net_t =
  net_devices :: "nat list"
  net_device_count :: nat
  net_ready :: bool
  net_mem :: "nat \<Rightarrow> 'c net_device_t"

text \<open>An operation of the driver of a device, if the device has a driver and the driver the operation.\<close>

definition dev_op :: "(nat \<Rightarrow> 'c net_device_ops_t) \<Rightarrow> ('c net_device_ops_t \<Rightarrow> 'f option) \<Rightarrow> 'c net_device_t \<Rightarrow> 'f option" where
  "dev_op ops sel dev = (if dv_ops dev = 0 then None else sel (ops (dv_ops dev)))"

section \<open>Frames and addresses\<close>

definition net_frame_len_ok :: "nat \<Rightarrow> bool" where
  "net_frame_len_ok len = (NET_ETH_HEADER_LEN \<le> len \<and> len \<le> NET_ETH_MAX_FRAME)"

fun or_bytes :: "bytes \<Rightarrow> nat \<Rightarrow> nat \<Rightarrow> u8 \<Rightarrow> u8 option" where
  "or_bytes mac i 0 v = Some v"
| "or_bytes mac i (Suc n) v = do { b \<leftarrow> arr_get mac i; or_bytes mac (Suc i) n (v OR b) }"

definition net_mac_is_zero :: "bytes option \<Rightarrow> bool option" where
  "net_mac_is_zero mac = (case mac of None \<Rightarrow> Some True | Some mac \<Rightarrow> do { v \<leftarrow> or_bytes mac 0 NET_ETH_ADDR_LEN 0; Some (v = 0) })"

definition net_mac_is_multicast :: "bytes option \<Rightarrow> bool option" where
  "net_mac_is_multicast mac = (case mac of None \<Rightarrow> Some False | Some mac \<Rightarrow> do { b \<leftarrow> arr_get mac 0; Some (b AND 1 \<noteq> 0) })"

text \<open>The new contents of the output buffer, if there is one.\<close>

definition net_format_mac :: "bytes option \<Rightarrow> bytes option \<Rightarrow> nat \<Rightarrow> bytes option option" where
  "net_format_mac mac out out_len = (case out of None \<Rightarrow> Some None | Some o' \<Rightarrow>
     if out_len = 0 then Some out
     else case mac of
       None \<Rightarrow> do {
         (_, h) \<leftarrow> strlcpy (\<lambda>b. if b = 0 then o' else cbytes ''00:00:00:00:00:00'') (Some (0, 0)) (Some (1, 0)) out_len;
         Some (Some (h 0)) }
     | Some m \<Rightarrow> do {
         m0 \<leftarrow> arr_get m 0; m1 \<leftarrow> arr_get m 1; m2 \<leftarrow> arr_get m 2; m3 \<leftarrow> arr_get m 3; m4 \<leftarrow> arr_get m 4; m5 \<leftarrow> arr_get m 5;
         (_, b) \<leftarrow> kvsnprintf out out_len (Some (cbytes ''%02x:%02x:%02x:%02x:%02x:%02x''))
           [VNum (ucast m0), VNum (ucast m1), VNum (ucast m2), VNum (ucast m3), VNum (ucast m4), VNum (ucast m5)];
         Some b })"

section \<open>The registry\<close>

definition net_init :: "'c net_t \<Rightarrow> 'c net_t" where
  "net_init s = s\<lparr>net_devices := replicate NET_MAX_DEVS 0, net_device_count := 0, net_ready := True\<rparr>"

fun dev_listed :: "nat list \<Rightarrow> nat \<Rightarrow> nat \<Rightarrow> nat \<Rightarrow> bool option" where
  "dev_listed ds dev i 0 = Some False"
| "dev_listed ds dev i (Suc n) = do { p \<leftarrow> arr_get ds i; if p = dev then Some True else dev_listed ds dev (Suc i) n }"

definition zero_frame_slot :: net_frame_slot_t where
  "zero_frame_slot = \<lparr>sl_len = 0, sl_meta = \<lparr>rm_vlan_tag = 0, rm_protocol = 0, rm_flags = 0\<rparr>, sl_data = replicate NET_ETH_MAX_FRAME 0\<rparr>"

text \<open>The defaults a device gets, before its receive queue.\<close>

definition dev_limits :: "'c net_device_t \<Rightarrow> 'c net_device_t" where
  "dev_limits dev =
     (let dev = (if dv_mtu dev = 0 then dev\<lparr>dv_mtu := 1500\<rparr> else dev);
          dev = (if dv_mtu dev > dv_max_mtu dev then dev\<lparr>dv_mtu := dv_max_mtu dev\<rparr> else dev);
          dev = (if rx_queue_len dev = 0 \<or> rx_queue_len dev > NET_RX_BACKLOG then dev\<lparr>rx_queue_len := NET_RX_BACKLOG\<rparr> else dev)
      in if tx_queue_len dev = 0 then dev\<lparr>tx_queue_len := 64\<rparr> else dev)"

definition dev_defaults :: "nat \<Rightarrow> 'c net_device_t \<Rightarrow> 'c net_device_t option" where
  "dev_defaults index dev = do {
     c \<leftarrow> arr_get (dv_name dev) 0;
     dev \<leftarrow> (if c = 0 then do {
               (_, b) \<leftarrow> kvsnprintf (Some (dv_name dev)) NET_NAME_LEN (Some (cbytes ''net%llu'')) [VNum (of_nat index)];
               b \<leftarrow> b;
               Some (dev\<lparr>dv_name := b\<rparr>) }
             else Some dev);
     Some (dev_limits dev) }"

text \<open>Registering; \<open>nomem\<close> says that the queue cannot be allocated.\<close>

definition netdev_register :: "(nat \<Rightarrow> 'c net_device_ops_t) \<Rightarrow> bool \<Rightarrow> nat \<Rightarrow> 'c net_t \<Rightarrow> (net_status_t \<times> 'c net_t \<times> klog_call list) option" where
  "netdev_register ops nomem dev s =
     (if dev = 0 then Some (NET_ERR_INVAL, s, [])
      else let d = net_mem s dev in
      if dev_op ops op_transmit d = None \<or> dv_driver d = None \<or> dv_max_mtu d < 576 then Some (NET_ERR_INVAL, s, [])
      else let s = (if \<not> net_ready s then net_init s else s) in
      if net_device_count s \<ge> NET_MAX_DEVS then Some (NET_ERR_BUSY, s, [])
      else do {
        dup \<leftarrow> dev_listed (net_devices s) dev 0 (net_device_count s);
        if dup then Some (NET_ERR_BUSY, s, [])
        else do {
          d \<leftarrow> dev_defaults (net_device_count s) d;
          if nomem then Some (NET_ERR_NOMEM, s\<lparr>net_mem := (net_mem s)(dev := d\<lparr>rx_queue := None\<rparr>)\<rparr>, [])
          else do {
            let d = d\<lparr>rx_queue := Some (replicate (rx_queue_len d) zero_frame_slot)\<rparr>;
            ds \<leftarrow> arr_set (net_devices s) (net_device_count s) dev;
            let s = s\<lparr>net_mem := (net_mem s)(dev := d), net_devices := ds, net_device_count := net_device_count s + 1\<rparr>;
            mac \<leftarrow> net_format_mac (Some (dv_mac d)) (Some (replicate 24 0)) 24;
            Some (NET_OK, s, [(LOG_INFO, cbytes ''net'', cbytes ''registered %s driver=%s mac=%s mtu=%u caps=0x%x'',
              [VStr (Some (dv_name d)), VStr (dv_driver d), VStr mac, VNum (of_nat (dv_mtu d)), VNum (ucast (dv_caps d))])]) } } })"

definition netdev_count :: "'c net_t \<Rightarrow> nat" where
  "netdev_count s = net_device_count s"

definition netdev_get :: "nat \<Rightarrow> 'c net_t \<Rightarrow> nat option" where
  "netdev_get index s = (if index < net_device_count s then arr_get (net_devices s) index else Some 0)"

fun find_dev :: "'c net_t \<Rightarrow> bytes \<Rightarrow> nat \<Rightarrow> nat \<Rightarrow> nat option" where
  "find_dev s name i 0 = Some 0"
| "find_dev s name i (Suc n) = do {
     p \<leftarrow> arr_get (net_devices s) i;
     r \<leftarrow> (if p \<noteq> 0 then strcmp (\<lambda>b. if b = 0 then dv_name (net_mem s p) else name) (Some (0, 0)) (Some (1, 0)) else Some 1);
     if p \<noteq> 0 \<and> r = 0 then Some p else find_dev s name (Suc i) n }"

definition netdev_find :: "bytes option \<Rightarrow> 'c net_t \<Rightarrow> nat option" where
  "netdev_find name s = (case name of None \<Rightarrow> Some 0 | Some nm \<Rightarrow> find_dev s nm 0 (net_device_count s))"

section \<open>Sending and receiving\<close>

text \<open>Operations on one device; a null pointer is \<open>None\<close>.\<close>

definition netdev_open :: "(nat \<Rightarrow> 'c net_device_ops_t) \<Rightarrow> 'c net_device_t option \<Rightarrow> net_status_t \<times> 'c net_device_t option" where
  "netdev_open ops dev = (case dev of None \<Rightarrow> (NET_ERR_NODEV, None) | Some dev \<Rightarrow>
     (let (ns, dev) = (case dev_op ops op_open dev of None \<Rightarrow> (NET_OK, dev) | Some f \<Rightarrow> f dev) in
      (ns, Some (if ns = NET_OK then dev\<lparr>dv_flags := dv_flags dev OR NETDEV_F_UP\<rparr> else dev))))"

definition netdev_close :: "(nat \<Rightarrow> 'c net_device_ops_t) \<Rightarrow> 'c net_device_t option \<Rightarrow> 'c net_device_t option" where
  "netdev_close ops dev = map_option (\<lambda>dev.
     (let dev = (case dev_op ops op_close dev of None \<Rightarrow> dev | Some f \<Rightarrow> f dev) in
      dev\<lparr>dv_flags := dv_flags dev AND NOT (NETDEV_F_UP OR NETDEV_F_RUNNING)\<rparr>)) dev"

text \<open>\<open>frame\<close> is the memory the frame pointer shows; the call of a missing operation is a fault.\<close>

definition netdev_send :: "(nat \<Rightarrow> 'c net_device_ops_t) \<Rightarrow> 'c net_device_t option \<Rightarrow> bytes option \<Rightarrow> nat \<Rightarrow> net_tx_meta_t option \<Rightarrow>
    (net_status_t \<times> 'c net_device_t option) option" where
  "netdev_send ops dev frame len meta = (case (dev, frame) of
     (Some d, Some fr) \<Rightarrow>
       if \<not> net_frame_len_ok len then Some (NET_ERR_RANGE, dev)
       else if dv_flags d AND NETDEV_F_UP = 0 then Some (NET_ERR_NODEV, dev)
       else do {
         f \<leftarrow> dev_op ops op_transmit d;
         let (ns, d) = f d (take len fr) meta;
         let sa = dv_stats d;
         let sa = (if ns = NET_OK then
             (let sa = sa\<lparr>tx_packets := tx_packets sa + 1, tx_bytes := tx_bytes sa + of_nat len\<rparr>;
                  sa = (if meta \<noteq> None \<and> tm_flags (the meta) AND NET_TX_CSUM \<noteq> 0 then sa\<lparr>csum_tx_offloaded := csum_tx_offloaded sa + 1\<rparr> else sa)
              in if meta \<noteq> None \<and> tm_flags (the meta) AND NET_TX_VLAN \<noteq> 0 then sa\<lparr>vlan_tx := vlan_tx sa + 1\<rparr> else sa)
           else if ns = NET_ERR_BUSY then sa\<lparr>tx_busy := tx_busy sa + 1\<rparr>
           else sa\<lparr>tx_errors := tx_errors sa + 1\<rparr>);
         Some (ns, Some (d\<lparr>dv_stats := sa\<rparr>)) }
   | _ \<Rightarrow> Some (NET_ERR_INVAL, dev))"

definition net_count_rx_address_stats :: "bytes \<Rightarrow> net_stats_t \<Rightarrow> net_stats_t option" where
  "net_count_rx_address_stats frame sa = do {
     mc \<leftarrow> net_mac_is_multicast (Some frame);
     Some (if take NET_ETH_ADDR_LEN frame = replicate NET_ETH_ADDR_LEN 0xff then sa\<lparr>rx_broadcast := rx_broadcast sa + 1\<rparr>
           else if mc then sa\<lparr>rx_multicast := rx_multicast sa + 1\<rparr> else sa) }"

text \<open>The queue part of \<^verbatim>\<open>netdev_receive\<close>, with a flag that says whether there was room.\<close>

definition rx_enqueue :: "'c net_device_t \<Rightarrow> bytes \<times> net_rx_meta_t \<Rightarrow> (bool \<times> 'c net_device_t) option" where
  "rx_enqueue dev fm = (case (rx_queue dev, fm) of (None, _) \<Rightarrow> Some (False, dev) | (Some q, frame, meta) \<Rightarrow>
     if rx_queue_len dev = 0 \<or> rx_count dev \<ge> rx_queue_len dev then Some (False, dev)
     else do {
       slot \<leftarrow> arr_get q (rx_tail dev);
       d \<leftarrow> copy_in (sl_data slot) 0 frame;
       q \<leftarrow> arr_set q (rx_tail dev) \<lparr>sl_len = length frame mod 65536, sl_meta = meta, sl_data = d\<rparr>;
       Some (True, dev\<lparr>rx_queue := Some q, rx_tail := (rx_tail dev + 1) mod rx_queue_len dev mod 65536,
                       rx_count := (rx_count dev + 1) mod 65536\<rparr>) })"

definition netdev_receive :: "(nat \<Rightarrow> nat \<Rightarrow> bytes \<Rightarrow> net_rx_meta_t option \<Rightarrow> 'c net_device_t \<Rightarrow> 'c net_device_t) \<Rightarrow> 'c net_device_t option \<Rightarrow>
    bytes option \<Rightarrow> nat \<Rightarrow> net_rx_meta_t option \<Rightarrow> (net_status_t \<times> 'c net_device_t option) option" where
  "netdev_receive cb dev frame len meta = (case (dev, frame) of
     (Some d, Some fr) \<Rightarrow>
       if \<not> net_frame_len_ok len then Some (NET_ERR_RANGE, dev)
       else if length fr < len then None
       else do {
         let fr = take len fr;
         let d = (if rx_callback d \<noteq> 0 then cb (rx_callback d) (rx_callback_ctx d) fr meta d else d);
         let sa = dv_stats d;
         let sa = sa\<lparr>rx_packets := rx_packets sa + 1, rx_bytes := rx_bytes sa + of_nat len\<rparr>;
         let sa = (if meta \<noteq> None \<and> rm_flags (the meta) AND NET_RX_CSUM_OK \<noteq> 0 then sa\<lparr>csum_rx_good := csum_rx_good sa + 1\<rparr> else sa);
         let sa = (if meta \<noteq> None \<and> rm_flags (the meta) AND NET_RX_VLAN \<noteq> 0 then sa\<lparr>vlan_rx := vlan_rx sa + 1\<rparr> else sa);
         sa \<leftarrow> net_count_rx_address_stats fr sa;
         (ok, d) \<leftarrow> rx_enqueue (d\<lparr>dv_stats := sa\<rparr>)
            (fr, case meta of Some m \<Rightarrow> m | None \<Rightarrow> \<lparr>rm_vlan_tag = 0, rm_protocol = 0, rm_flags = NET_RX_OK\<rparr>);
         if \<not> ok then Some (NET_ERR_BUSY, Some (d\<lparr>dv_stats := sa\<lparr>rx_dropped := rx_dropped sa + 1\<rparr>\<rparr>))
         else Some (NET_OK, Some (if of_nat (rx_count d) > rx_queue_high_water sa
                then d\<lparr>dv_stats := sa\<lparr>rx_queue_high_water := of_nat (rx_count d)\<rparr>\<rparr> else d)) }
   | _ \<Rightarrow> Some (NET_ERR_INVAL, dev))"

definition netdev_poll :: "(nat \<Rightarrow> 'c net_device_ops_t) \<Rightarrow> 'c net_device_t option \<Rightarrow> 'c net_device_t option" where
  "netdev_poll ops dev = map_option (\<lambda>dev.
     (let dev = (case dev_op ops op_poll dev of None \<Rightarrow> dev | Some f \<Rightarrow> f dev) in
      dev\<lparr>dv_stats := (dv_stats dev)\<lparr>polls := polls (dv_stats dev) + 1\<rparr>\<rparr>)) dev"

text \<open>The queue part of \<^verbatim>\<open>netdev_read_frame\<close>: the oldest slot leaves the queue.\<close>

definition rx_dequeue :: "'c net_device_t \<Rightarrow> ((bytes \<times> net_rx_meta_t) option \<times> 'c net_device_t) option" where
  "rx_dequeue dev = (case rx_queue dev of None \<Rightarrow> Some (None, dev) | Some q \<Rightarrow>
     if rx_count dev = 0 then Some (None, dev)
     else do {
       slot \<leftarrow> arr_get q (rx_head dev);
       Some (Some (take (sl_len slot) (sl_data slot), sl_meta slot),
         dev\<lparr>rx_head := (rx_head dev + 1) mod rx_queue_len dev mod 65536, rx_count := rx_count dev - 1\<rparr>) })"

text \<open>The status, the new buffer, the number of bytes read and the metadata of the frame.\<close>

definition netdev_read_frame :: "(nat \<Rightarrow> 'c net_device_ops_t) \<Rightarrow> 'c net_device_t option \<Rightarrow> bytes option \<Rightarrow> nat \<Rightarrow>
    (net_status_t \<times> bytes option \<times> nat \<times> net_rx_meta_t option \<times> 'c net_device_t option) option" where
  "netdev_read_frame ops dev buf n = (case dev of None \<Rightarrow> Some (NET_ERR_INVAL, buf, 0, None, dev) | Some _ \<Rightarrow>
     if n \<noteq> 0 \<and> buf = None then Some (NET_ERR_INVAL, buf, 0, None, dev)
     else do {
       d \<leftarrow> netdev_poll ops dev;
       (r, d) \<leftarrow> rx_dequeue d;
       case r of None \<Rightarrow> Some (NET_OK, buf, 0, None, Some d)
       | Some (frame, meta) \<Rightarrow> do {
           let (tk, d) = (if length frame > n then (n, d\<lparr>dv_stats := (dv_stats d)\<lparr>rx_truncated := rx_truncated (dv_stats d) + 1\<rparr>\<rparr>)
                          else (length frame, d));
           buf \<leftarrow> (if tk \<noteq> 0 then do { b \<leftarrow> buf; b \<leftarrow> copy_in b 0 (take tk frame); Some (Some b) } else Some buf);
           Some (NET_OK, buf, tk, Some meta, Some d) } })"

definition netdev_write_frame :: "(nat \<Rightarrow> 'c net_device_ops_t) \<Rightarrow> 'c net_device_t option \<Rightarrow> bytes option \<Rightarrow> nat \<Rightarrow>
    (net_status_t \<times> nat \<times> 'c net_device_t option) option" where
  "netdev_write_frame ops dev buf n = do {
     (ns, dev) \<leftarrow> netdev_send ops dev buf n None;
     Some (ns, if ns = NET_OK then n else 0, dev) }"

fun poll_loop :: "(nat \<Rightarrow> 'c net_device_ops_t) \<Rightarrow> nat \<Rightarrow> nat \<Rightarrow> 'c net_t \<Rightarrow> 'c net_t option" where
  "poll_loop ops i 0 s = Some s"
| "poll_loop ops i (Suc n) s = do {
     p \<leftarrow> arr_get (net_devices s) i;
     let s = (if p = 0 then s else case netdev_poll ops (Some (net_mem s p)) of None \<Rightarrow> s | Some d \<Rightarrow> s\<lparr>net_mem := (net_mem s)(p := d)\<rparr>);
     poll_loop ops (Suc i) n s }"

definition net_poll_all :: "(nat \<Rightarrow> 'c net_device_ops_t) \<Rightarrow> 'c net_t \<Rightarrow> 'c net_t option" where
  "net_poll_all ops s = poll_loop ops 0 (net_device_count s) s"

section \<open>Settings\<close>

definition netdev_set_promisc :: "(nat \<Rightarrow> 'c net_device_ops_t) \<Rightarrow> 'c net_device_t option \<Rightarrow> bool \<Rightarrow> net_status_t \<times> 'c net_device_t option" where
  "netdev_set_promisc ops dev enabled = (case dev of None \<Rightarrow> (NET_ERR_NODEV, None) | Some dev \<Rightarrow>
     (let (ns, dev) = (case dev_op ops op_set_promisc dev of Some f \<Rightarrow> f dev enabled
                       | None \<Rightarrow> (if enabled then NET_ERR_UNSUPPORTED else NET_OK, dev)) in
      (ns, Some (if ns = NET_OK then dev\<lparr>dv_flags := (if enabled then dv_flags dev OR NETDEV_F_PROMISC else dv_flags dev AND NOT NETDEV_F_PROMISC)\<rparr>
                 else dev))))"

definition netdev_set_allmulti :: "(nat \<Rightarrow> 'c net_device_ops_t) \<Rightarrow> 'c net_device_t option \<Rightarrow> bool \<Rightarrow> net_status_t \<times> 'c net_device_t option" where
  "netdev_set_allmulti ops dev enabled = (case dev of None \<Rightarrow> (NET_ERR_NODEV, None) | Some dev \<Rightarrow>
     (let (ns, dev) = (case dev_op ops op_set_allmulti dev of Some f \<Rightarrow> f dev enabled
                       | None \<Rightarrow> (if enabled then NET_ERR_UNSUPPORTED else NET_OK, dev)) in
      (ns, Some (if ns = NET_OK then dev\<lparr>dv_flags := (if enabled then dv_flags dev OR NETDEV_F_ALLMULTI else dv_flags dev AND NOT NETDEV_F_ALLMULTI)\<rparr>
                 else dev))))"

definition netdev_set_mtu :: "(nat \<Rightarrow> 'c net_device_ops_t) \<Rightarrow> 'c net_device_t option \<Rightarrow> nat \<Rightarrow> net_status_t \<times> 'c net_device_t option" where
  "netdev_set_mtu ops dev mtu = (case dev of None \<Rightarrow> (NET_ERR_NODEV, None) | Some dev \<Rightarrow>
     if mtu < 576 \<or> mtu > dv_max_mtu dev then (NET_ERR_RANGE, Some dev)
     else (let (ns, dev) = (case dev_op ops op_set_mtu dev of Some f \<Rightarrow> f dev mtu | None \<Rightarrow> (NET_OK, dev)) in
       (ns, Some (if ns = NET_OK then dev\<lparr>dv_mtu := mtu\<rparr> else dev))))"

definition netdev_set_vlan :: "(nat \<Rightarrow> 'c net_device_ops_t) \<Rightarrow> 'c net_device_t option \<Rightarrow> nat \<Rightarrow> bool \<Rightarrow> net_status_t \<times> 'c net_device_t option" where
  "netdev_set_vlan ops dev vlan enabled = (case dev of None \<Rightarrow> (NET_ERR_INVAL, None) | Some dev \<Rightarrow>
     if vlan \<ge> 4096 then (NET_ERR_INVAL, Some dev)
     else case dev_op ops op_set_vlan dev of Some f \<Rightarrow> map_prod id Some (f dev vlan enabled)
     | None \<Rightarrow> (if enabled then NET_ERR_UNSUPPORTED else NET_OK, Some dev))"

definition netdev_set_link :: "'c net_device_t option \<Rightarrow> bool \<Rightarrow> nat \<Rightarrow> nat \<Rightarrow> 'c net_device_t option" where
  "netdev_set_link dev up speed duplex = map_option (\<lambda>dev.
     (let old = (dv_flags dev AND NETDEV_F_LINK_UP \<noteq> 0);
          dev = dev\<lparr>dv_flags := (if up then dv_flags dev OR (NETDEV_F_LINK_UP OR NETDEV_F_RUNNING)
                               else dv_flags dev AND NOT (NETDEV_F_LINK_UP OR NETDEV_F_RUNNING)),
                   link_speed_mbps := (if up then speed else 0), link_duplex := (if up then duplex else 0)\<rparr>
      in if old \<noteq> up then dev\<lparr>dv_stats := (dv_stats dev)\<lparr>link_changes := link_changes (dv_stats dev) + 1\<rparr>\<rparr> else dev)) dev"

definition netdev_set_rx_callback :: "'c net_device_t option \<Rightarrow> nat \<Rightarrow> nat \<Rightarrow> 'c net_device_t option" where
  "netdev_set_rx_callback dev callback ctx = map_option (\<lambda>dev. dev\<lparr>rx_callback := callback, rx_callback_ctx := ctx\<rparr>) dev"

definition net_status_name :: "net_status_t \<Rightarrow> bytes" where
  "net_status_name status = (case status of NET_OK \<Rightarrow> cbytes ''ok'' | NET_ERR_INVAL \<Rightarrow> cbytes ''invalid'' | NET_ERR_NOMEM \<Rightarrow> cbytes ''no-memory''
     | NET_ERR_NODEV \<Rightarrow> cbytes ''no-device'' | NET_ERR_BUSY \<Rightarrow> cbytes ''busy'' | NET_ERR_RANGE \<Rightarrow> cbytes ''range''
     | NET_ERR_IO \<Rightarrow> cbytes ''io'' | NET_ERR_UNSUPPORTED \<Rightarrow> cbytes ''unsupported'')"

section \<open>Reports\<close>

definition bflag :: "u32 \<Rightarrow> u32 \<Rightarrow> varg" where
  "bflag v m = VNum (if v AND m \<noteq> 0 then 1 else 0)"

text \<open>The three lines of one device, then what its driver adds behind them.\<close>

definition format_dev :: "(nat \<Rightarrow> 'c net_device_ops_t) \<Rightarrow> 'c net_device_t \<Rightarrow> rabbitbone_buf_out_t option \<Rightarrow> rabbitbone_buf_out_t option option" where
  "format_dev ops d bo = do {
     mac \<leftarrow> net_format_mac (Some (dv_mac d)) (Some (replicate 24 0)) 24;
     let sa = dv_stats d;
     bo \<leftarrow> rabbitbone_buf_vappendf bo
       (Some (cbytes ''  %s driver=%s mac=%s mtu=%u max_mtu=%u flags=0x%x caps=0x%x link=%u speed=%u duplex=%u rxq=%u/%u txqlen=%u\<newline>''))
       [VStr (Some (dv_name d)), VStr (dv_driver d), VStr mac, VNum (of_nat (dv_mtu d)), VNum (of_nat (dv_max_mtu d)), VNum (ucast (dv_flags d)),
        VNum (ucast (dv_caps d)), bflag (dv_flags d) NETDEV_F_LINK_UP, VNum (of_nat (link_speed_mbps d)), VNum (of_nat (link_duplex d)),
        VNum (of_nat (rx_count d)), VNum (of_nat (rx_queue_len d)), VNum (of_nat (tx_queue_len d))];
     bo \<leftarrow> rabbitbone_buf_vappendf bo
       (Some (cbytes ''    rx_packets=%llu rx_bytes=%llu rx_errors=%llu rx_dropped=%llu rx_truncated=%llu rx_multicast=%llu rx_broadcast=%llu\<newline>''))
       [VNum (rx_packets sa), VNum (rx_bytes sa), VNum (rx_errors sa), VNum (rx_dropped sa), VNum (rx_truncated sa), VNum (rx_multicast sa), VNum (rx_broadcast sa)];
     bo \<leftarrow> rabbitbone_buf_vappendf bo
       (Some (cbytes (''    tx_packets=%llu tx_bytes=%llu tx_errors=%llu tx_dropped=%llu tx_busy=%llu tx_timeouts=%llu '' @
              ''interrupts=%llu polls=%llu resets=%llu dma_errors=%llu\<newline>'')))
       [VNum (tx_packets sa), VNum (tx_bytes sa), VNum (tx_errors sa), VNum (tx_dropped sa), VNum (tx_busy sa), VNum (tx_timeouts sa),
        VNum (interrupts sa), VNum (polls sa), VNum (resets sa), VNum (dma_errors sa)];
     b \<leftarrow> bo;
     buf \<leftarrow> bo_buf b;
     buf \<leftarrow> (case dev_op ops op_format_driver d of None \<Rightarrow> Some buf
       | Some f \<Rightarrow> do {
           let t = f d (drop (bo_used b) buf) (if bo_cap b > bo_used b then bo_cap b - bo_used b else 0);
           if length t = length (drop (bo_used b) buf) then Some (take (bo_used b) buf @ t) else None });
     n \<leftarrow> strnlen (\<lambda>_. buf) (Some (0, 0)) (bo_cap b);
     Some (Some (b\<lparr>bo_buf := Some buf, bo_used := n\<rparr>)) }"

fun format_devs :: "(nat \<Rightarrow> 'c net_device_ops_t) \<Rightarrow> nat \<Rightarrow> nat \<Rightarrow> 'c net_t \<Rightarrow> rabbitbone_buf_out_t option \<Rightarrow>
    ('c net_t \<times> rabbitbone_buf_out_t option) option" where
  "format_devs ops i 0 s bo = Some (s, bo)"
| "format_devs ops i (Suc n) s bo = do {
     p \<leftarrow> arr_get (net_devices s) i;
     if p = 0 then format_devs ops (Suc i) n s bo
     else do {
       let d = net_mem s p;
       let d = (case dev_op ops op_update_link d of None \<Rightarrow> d | Some f \<Rightarrow> f d);
       let s = s\<lparr>net_mem := (net_mem s)(p := d)\<rparr>;
       bo \<leftarrow> format_dev ops d bo;
       format_devs ops (Suc i) n s bo } }"

definition net_format_status :: "(nat \<Rightarrow> 'c net_device_ops_t) \<Rightarrow> bytes option \<Rightarrow> nat \<Rightarrow> 'c net_t \<Rightarrow> ('c net_t \<times> bytes option) option" where
  "net_format_status ops out out_len s =
     (if out = None \<or> out_len = 0 then Some (s, out)
      else do {
        bo \<leftarrow> rabbitbone_buf_init (Some \<lparr>bo_buf = None, bo_cap = 0, bo_used = 0\<rparr>) out out_len;
        bo \<leftarrow> rabbitbone_buf_vappendf bo (Some (cbytes ''net: count=%llu\<newline>'')) [VNum (of_nat (net_device_count s))];
        bo \<leftarrow> (if net_device_count s = 0 then rabbitbone_buf_vappendf bo
                (Some (cbytes ''  hint: VMware virtualDev must be e1000 or e1000e; expected PCI ids include 8086:10d3, 8086:100f, 8086:100e\<newline>'')) []
              else Some bo);
        (s, bo) \<leftarrow> format_devs ops 0 (net_device_count s) s bo;
        b \<leftarrow> bo;
        Some (s, bo_buf b) })"

fun log_devs :: "'c net_t \<Rightarrow> nat \<Rightarrow> nat \<Rightarrow> klog_call list option" where
  "log_devs s i 0 = Some []"
| "log_devs s i (Suc n) = do {
     p \<leftarrow> arr_get (net_devices s) i;
     if p = 0 then log_devs s (Suc i) n
     else do {
       let d = net_mem s p;
       mac \<leftarrow> net_format_mac (Some (dv_mac d)) (Some (replicate 24 0)) 24;
       rest \<leftarrow> log_devs s (Suc i) n;
       Some ((LOG_INFO, cbytes ''net'', cbytes ''%s driver=%s mac=%s mtu=%u flags=0x%x caps=0x%x link=%u speed=%u'',
         [VStr (Some (dv_name d)), VStr (dv_driver d), VStr mac, VNum (of_nat (dv_mtu d)), VNum (ucast (dv_flags d)), VNum (ucast (dv_caps d)),
          bflag (dv_flags d) NETDEV_F_LINK_UP, VNum (of_nat (link_speed_mbps d))]) # rest) } }"

definition net_log_devices :: "'c net_t \<Rightarrow> klog_call list option" where
  "net_log_devices s = do {
     rest \<leftarrow> log_devs s 0 (net_device_count s);
     Some ((LOG_INFO, cbytes ''net'', cbytes ''registered devices=%llu'', [VNum (of_nat (net_device_count s))]) # rest) }"

section \<open>The receive queue\<close>

definition slot_ok :: "net_frame_slot_t \<Rightarrow> bool" where
  "slot_ok sl = (length (sl_data sl) = NET_ETH_MAX_FRAME \<and> sl_len sl \<le> NET_ETH_MAX_FRAME)"

definition rx_inv :: "'c net_device_t \<Rightarrow> bool" where
  "rx_inv d = (case rx_queue d of None \<Rightarrow> False | Some q \<Rightarrow>
     0 < rx_queue_len d \<and> rx_queue_len d \<le> NET_RX_BACKLOG \<and> length q = rx_queue_len d \<and> list_all slot_ok q \<and>
     rx_head d < rx_queue_len d \<and> rx_count d \<le> rx_queue_len d \<and> rx_tail d = (rx_head d + rx_count d) mod rx_queue_len d)"

definition slot_frame :: "net_frame_slot_t \<Rightarrow> bytes \<times> net_rx_meta_t" where
  "slot_frame sl = (take (sl_len sl) (sl_data sl), sl_meta sl)"

definition rx_content :: "'c net_device_t \<Rightarrow> (bytes \<times> net_rx_meta_t) list" where
  "rx_content d = map slot_frame (ring_slice (the (rx_queue d)) (rx_queue_len d) (rx_head d) (rx_count d))"

lemma length_rx_content [simp]: "length (rx_content d) = rx_count d"
  by (simp add: rx_content_def)

lemma index_small: "0 < n \<Longrightarrow> n \<le> NET_RX_BACKLOG \<Longrightarrow> x mod n mod 65536 = x mod n"
  by (rule mod_less, drule mod_less_divisor [of n x]) (simp add: NET_RX_BACKLOG_def)

lemma rx_enqueue_room:
  assumes inv: "rx_inv d" and room: "rx_count d < rx_queue_len d" and fr: "length frame \<le> NET_ETH_MAX_FRAME"
  shows "\<exists>d'. rx_enqueue d (frame, meta) = Some (True, d') \<and> rx_inv d' \<and> rx_content d' = rx_content d @ [(frame, meta)] \<and>
     rx_queue_len d' = rx_queue_len d \<and> dv_stats d' = dv_stats d \<and> rx_count d' = Suc (rx_count d)"
proof -
  obtain q where q: "rx_queue d = Some q" and len: "0 < rx_queue_len d" "rx_queue_len d \<le> NET_RX_BACKLOG" "length q = rx_queue_len d"
    and sl: "list_all slot_ok q" and h: "rx_head d < rx_queue_len d" and t: "rx_tail d = (rx_head d + rx_count d) mod rx_queue_len d"
    using inv by (auto simp: rx_inv_def split: option.splits)
  have tl: "rx_tail d < rx_queue_len d" using t len(1) by simp
  have so: "slot_ok (q ! rx_tail d)" using sl tl len(3) by (simp add: list_all_length)
  let ?d = "frame @ drop (length frame) (sl_data (q ! rx_tail d))"
  let ?s = "\<lparr>sl_len = length frame, sl_meta = meta, sl_data = ?d\<rparr>"
  let ?e = "d\<lparr>rx_queue := Some (q[rx_tail d := ?s]), rx_tail := Suc (rx_tail d) mod rx_queue_len d, rx_count := Suc (rx_count d)\<rparr>"
  have small: "Suc (rx_tail d) mod rx_queue_len d mod 65536 = Suc (rx_tail d) mod rx_queue_len d" "Suc (rx_count d) mod 65536 = Suc (rx_count d)"
    using len room index_small [OF len(1,2)] by (simp_all add: NET_RX_BACKLOG_def)
  have "length frame mod 65536 = length frame" using fr by (simp add: NET_ETH_MAX_FRAME_def)
  then have run: "rx_enqueue d (frame, meta) = Some (True, ?e)"
    using q room len tl so fr small by (simp add: rx_enqueue_def copy_in_def blit_def slot_ok_def)
  have "slot_ok ?s" using so fr by (simp add: slot_ok_def)
  then have "list_all slot_ok (q[rx_tail d := ?s])" using sl tl len(3) by (auto simp: list_all_length nth_list_update)
  then have inv': "rx_inv ?e" using len h room t by (simp add: rx_inv_def mod_Suc_eq)
  have "rx_content ?e = rx_content d @ [(frame, meta)]"
    using ring_slice_push [OF room h len(3), of ?s] q t by (simp add: rx_content_def slot_frame_def)
  with run inv' show ?thesis by simp
qed

lemma rx_enqueue_full: "rx_inv d \<Longrightarrow> rx_count d = rx_queue_len d \<Longrightarrow> rx_enqueue d fm = Some (False, d)"
  by (auto simp: rx_inv_def rx_enqueue_def split: option.splits prod.splits)

lemma rx_dequeue_some:
  assumes inv: "rx_inv d" and n: "rx_count d \<noteq> 0"
  shows "\<exists>d'. rx_dequeue d = Some (Some (hd (rx_content d)), d') \<and> rx_inv d' \<and> rx_content d' = tl (rx_content d) \<and>
     rx_queue_len d' = rx_queue_len d \<and> dv_stats d' = dv_stats d \<and> d' = d\<lparr>rx_head := rx_head d', rx_count := rx_count d'\<rparr>"
proof -
  obtain q where q: "rx_queue d = Some q" and len: "0 < rx_queue_len d" "rx_queue_len d \<le> NET_RX_BACKLOG" "length q = rx_queue_len d"
    and h: "rx_head d < rx_queue_len d" and t: "rx_tail d = (rx_head d + rx_count d) mod rx_queue_len d" and c: "rx_count d \<le> rx_queue_len d"
    using inv by (auto simp: rx_inv_def split: option.splits)
  let ?e = "d\<lparr>rx_head := Suc (rx_head d) mod rx_queue_len d, rx_count := rx_count d - 1\<rparr>"
  have "Suc (rx_head d) mod rx_queue_len d mod 65536 = Suc (rx_head d) mod rx_queue_len d"
    by (rule index_small [OF len(1,2)])
  then have run: "rx_dequeue d = Some (Some (slot_frame (q ! rx_head d)), ?e)"
    using q n h len by (simp add: rx_dequeue_def slot_frame_def)
  have sl: "rx_content d = slot_frame (q ! rx_head d) # rx_content ?e"
    using ring_slice_pop [of "rx_count d" "rx_head d" "rx_queue_len d" q] q n h by (simp add: rx_content_def)
  have "(Suc (rx_head d) mod rx_queue_len d + (rx_count d - 1)) mod rx_queue_len d = rx_tail d"
    unfolding t using n by (cases "rx_count d") (simp_all add: mod_add_left_eq)
  then have "rx_inv ?e" using inv q len h c by (simp add: rx_inv_def)
  with run sl show ?thesis by simp
qed

lemma rx_dequeue_none: "rx_inv d \<Longrightarrow> rx_count d = 0 \<Longrightarrow> rx_dequeue d = Some (None, d)"
  by (auto simp: rx_inv_def rx_dequeue_def split: option.splits)

section \<open>Receiving and reading\<close>

definition rx_default :: "net_rx_meta_t option \<Rightarrow> net_rx_meta_t" where
  "rx_default meta = (case meta of Some m \<Rightarrow> m | None \<Rightarrow> \<lparr>rm_vlan_tag = 0, rm_protocol = 0, rm_flags = NET_RX_OK\<rparr>)"

lemma rx_stats [simp]: "rx_inv (d\<lparr>dv_stats := sa\<rparr>) = rx_inv d" "rx_content (d\<lparr>dv_stats := sa\<rparr>) = rx_content d"
  by (simp_all add: rx_inv_def rx_content_def split: option.splits)

lemma address_stats:
  assumes "frame \<noteq> []"
  shows "\<exists>sb. net_count_rx_address_stats frame sa = Some sb \<and> rx_packets sb = rx_packets sa \<and> rx_bytes sb = rx_bytes sa \<and> rx_dropped sb = rx_dropped sa"
  using assms by (cases frame) (auto simp: net_count_rx_address_stats_def net_mac_is_multicast_def)

lemma receive_queue:
  assumes inv: "rx_inv d" and cb: "rx_callback d = 0" and len: "net_frame_len_ok len" "len \<le> length fr"
  shows "\<exists>d'. netdev_receive cbk (Some d) (Some fr) len meta = Some (if rx_count d < rx_queue_len d then NET_OK else NET_ERR_BUSY, Some d') \<and>
     rx_inv d' \<and> rx_content d' = take (rx_queue_len d) (rx_content d @ [(take len fr, rx_default meta)]) \<and>
     rx_packets (dv_stats d') = rx_packets (dv_stats d) + 1 \<and> rx_bytes (dv_stats d') = rx_bytes (dv_stats d) + of_nat len \<and>
     rx_dropped (dv_stats d') = rx_dropped (dv_stats d) + (if rx_count d < rx_queue_len d then 0 else 1)"
proof -
  define sa where "sa = (let sa = (dv_stats d)\<lparr>rx_packets := rx_packets (dv_stats d) + 1, rx_bytes := rx_bytes (dv_stats d) + of_nat len\<rparr>;
      sa = (if meta \<noteq> None \<and> rm_flags (the meta) AND NET_RX_CSUM_OK \<noteq> 0 then sa\<lparr>csum_rx_good := csum_rx_good sa + 1\<rparr> else sa)
    in if meta \<noteq> None \<and> rm_flags (the meta) AND NET_RX_VLAN \<noteq> 0 then sa\<lparr>vlan_rx := vlan_rx sa + 1\<rparr> else sa)"
  have n: "take len fr \<noteq> []" "length (take len fr) \<le> NET_ETH_MAX_FRAME"
    using len by (auto simp: net_frame_len_ok_def NET_ETH_HEADER_LEN_def)
  obtain sb where sb: "net_count_rx_address_stats (take len fr) sa = Some sb" "rx_packets sb = rx_packets sa" "rx_bytes sb = rx_bytes sa"
      "rx_dropped sb = rx_dropped sa"
    using address_stats [OF n(1)] by blast
  have sa: "rx_packets sa = rx_packets (dv_stats d) + 1" "rx_bytes sa = rx_bytes (dv_stats d) + of_nat len" "rx_dropped sa = rx_dropped (dv_stats d)"
    by (simp_all add: sa_def Let_def)
  have run: "netdev_receive cbk (Some d) (Some fr) len meta = do {
      (ok, d) \<leftarrow> rx_enqueue (d\<lparr>dv_stats := sb\<rparr>) (take len fr, rx_default meta);
      if \<not> ok then Some (NET_ERR_BUSY, Some (d\<lparr>dv_stats := sb\<lparr>rx_dropped := rx_dropped sb + 1\<rparr>\<rparr>))
      else Some (NET_OK, Some (if of_nat (rx_count d) > rx_queue_high_water sb
             then d\<lparr>dv_stats := sb\<lparr>rx_queue_high_water := of_nat (rx_count d)\<rparr>\<rparr> else d)) }"
    using len cb sb(1) unfolding netdev_receive_def rx_default_def sa_def by (simp add: Let_def)
  show ?thesis
  proof (cases "rx_count d < rx_queue_len d")
    case True
    then obtain e where e: "rx_enqueue (d\<lparr>dv_stats := sb\<rparr>) (take len fr, rx_default meta) = Some (True, e)" "rx_inv e"
        "rx_content e = rx_content d @ [(take len fr, rx_default meta)]" "dv_stats e = sb"
      using rx_enqueue_room [of "d\<lparr>dv_stats := sb\<rparr>" "take len fr" "rx_default meta"] inv n(2) by auto
    then show ?thesis unfolding run using True sb sa by (simp del: take_append)
  next
    case False
    then have c: "rx_count d = rx_queue_len d" using inv by (auto simp: rx_inv_def split: option.splits)
    then have "rx_enqueue (d\<lparr>dv_stats := sb\<rparr>) (take len fr, rx_default meta) = Some (False, d\<lparr>dv_stats := sb\<rparr>)"
      using rx_enqueue_full [of "d\<lparr>dv_stats := sb\<rparr>"] inv by simp
    then show ?thesis unfolding run using False c sb sa inv by simp
  qed
qed

lemma read_queue:
  assumes p: "netdev_poll ops (Some d) = Some p" "rx_inv p" and b: "n \<le> length b"
  shows "\<exists>d'. netdev_read_frame ops (Some d) (Some b) n = Some (case rx_content p of
        [] \<Rightarrow> (NET_OK, Some b, 0, None, Some d')
      | (frame, meta) # _ \<Rightarrow> (NET_OK, Some (take n frame @ drop (min n (length frame)) b), min n (length frame), Some meta, Some d')) \<and>
     rx_inv d' \<and> rx_content d' = tl (rx_content p) \<and>
     rx_truncated (dv_stats d') = rx_truncated (dv_stats p) + (if rx_content p \<noteq> [] \<and> n < length (fst (hd (rx_content p))) then 1 else 0)"
proof (cases "rx_content p")
  case Nil
  then have "rx_count p = 0" using length_rx_content [of p] by simp
  then show ?thesis using rx_dequeue_none [OF p(2)] p Nil unfolding netdev_read_frame_def by simp
next
  case (Cons fm rest)
  then obtain frame meta where fm: "fm = (frame, meta)" "rx_count p \<noteq> 0" using length_rx_content [of p] by (cases fm) simp
  obtain e where e: "rx_dequeue p = Some (Some (frame, meta), e)" "rx_inv e" "rx_content e = rest" "dv_stats e = dv_stats p"
    using rx_dequeue_some [OF p(2) fm(2)] Cons fm(1) by auto
  have copy: "(if k \<noteq> 0 then do { b \<leftarrow> Some b; b \<leftarrow> copy_in b 0 (take k frame); Some (Some b) } else Some (Some b)) = Some (Some (take k frame @ drop k b))"
    if "k \<le> n" "k \<le> length frame" for k
    using that b by (simp add: copy_in_def blit_def min_def)
  show ?thesis
  proof (cases "n < length frame")
    case True
    then show ?thesis using e p(1) fm Cons copy [of n] unfolding netdev_read_frame_def by (simp add: min_def)
  next
    case False
    then show ?thesis using e p(1) fm Cons copy [of "length frame"] unfolding netdev_read_frame_def by (simp add: min_def)
  qed
qed

section \<open>Registering devices\<close>

definition reg_devs :: "'c net_t \<Rightarrow> nat list" where
  "reg_devs s = take (net_device_count s) (net_devices s)"

definition reg_inv :: "'c net_t \<Rightarrow> bool" where
  "reg_inv s = (net_ready s \<longrightarrow> length (net_devices s) = NET_MAX_DEVS \<and> net_device_count s \<le> NET_MAX_DEVS \<and> distinct (reg_devs s) \<and> 0 \<notin> set (reg_devs s))"

lemma dev_listed_set: "i + n \<le> length ds \<Longrightarrow> dev_listed ds dev i n = Some (dev \<in> set (take n (drop i ds)))"
proof (induction n arbitrary: i)
  case (Suc n)
  then have "drop i ds = ds ! i # drop (Suc i) ds" by (simp add: Cons_nth_drop_Suc)
  with Suc show ?case by (auto simp: arr)
qed simp

lemma net_fetch:
  "fetch_args (cbytes ''net%llu'') [VNum w] 0 = Some []"
  "fetch_args (cbytes ''%02x:%02x:%02x:%02x:%02x:%02x'') [VNum a, VNum b, VNum c, VNum d, VNum e, VNum f] 0 = Some []"
  by (simp_all add: cbytes_def fetch)

lemma net_format_mac_total:
  assumes "length m = NET_ETH_ADDR_LEN" "0 < n" "n \<le> length b" "n \<le> U64_MAX"
  shows "\<exists>b'. net_format_mac (Some m) (Some b) n = Some (Some b') \<and> length b' = length b"
proof -
  define args where "args = [VNum (ucast (m ! 0)), VNum (ucast (m ! 1)), VNum (ucast (m ! 2)), VNum (ucast (m ! 3)), VNum (ucast (m ! 4)), VNum (ucast (m ! 5))]"
  have "strings_ok args" "fetch_args (cbytes ''%02x:%02x:%02x:%02x:%02x:%02x'') args 0 = Some []"
    by (simp_all add: args_def strings_ok_def net_fetch)
  from kvsnprintf_total [OF this(2,1) assms(2-4)] obtain k b' where
    "kvsnprintf (Some b) n (Some (cbytes ''%02x:%02x:%02x:%02x:%02x:%02x'')) args = Some (k, Some b')" "length b' = length b" by blast
  then show ?thesis using assms(1,2) by (simp add: net_format_mac_def args_def NET_ETH_ADDR_LEN_def)
qed

lemma dev_limits:
  "dv_mtu (dev_limits d) \<le> dv_max_mtu d" "0 < rx_queue_len (dev_limits d)" "rx_queue_len (dev_limits d) \<le> NET_RX_BACKLOG"
  "dv_max_mtu (dev_limits d) = dv_max_mtu d" "dv_mac (dev_limits d) = dv_mac d"
  "rx_head (dev_limits d) = rx_head d" "rx_tail (dev_limits d) = rx_tail d" "rx_count (dev_limits d) = rx_count d"
  by (simp_all add: dev_limits_def Let_def NET_RX_BACKLOG_def)

lemma dev_defaults_total:
  assumes "length (dv_name d) = NET_NAME_LEN"
  shows "\<exists>e. dev_defaults i d = Some e \<and> dv_mtu e \<le> dv_max_mtu e \<and> dv_max_mtu e = dv_max_mtu d \<and> dv_mac e = dv_mac d \<and>
     0 < rx_queue_len e \<and> rx_queue_len e \<le> NET_RX_BACKLOG \<and> rx_head e = rx_head d \<and> rx_tail e = rx_tail d \<and> rx_count e = rx_count d"
proof -
  have "strings_ok [VNum (of_nat i)]" by (simp add: strings_ok_def)
  then obtain k b where "kvsnprintf (Some (dv_name d)) NET_NAME_LEN (Some (cbytes ''net%llu'')) [VNum (of_nat i)] = Some (k, Some b)"
    using kvsnprintf_total [OF net_fetch(1), of "of_nat i" NET_NAME_LEN "dv_name d"] assms by (auto simp: NET_NAME_LEN_def)
  moreover obtain c where "arr_get (dv_name d) 0 = Some c" using assms by (auto simp: arr NET_NAME_LEN_def)
  ultimately show ?thesis using dev_limits(1) [of "d\<lparr>dv_name := b\<rparr>"] by (simp add: dev_defaults_def dev_limits)
qed

lemma reg_devs_snoc: "net_device_count s < length (net_devices s) \<Longrightarrow>
  take (Suc (net_device_count s)) ((net_devices s)[net_device_count s := dev]) = reg_devs s @ [dev]"
  by (simp add: reg_devs_def take_Suc_conv_app_nth)

lemma register_new:
  assumes inv: "reg_inv s" "net_ready s" and d: "dev \<noteq> 0" "dev \<notin> set (reg_devs s)" "length (reg_devs s) < NET_MAX_DEVS"
    and ok: "dev_op ops op_transmit (net_mem s dev) \<noteq> None" "dv_driver (net_mem s dev) \<noteq> None" "576 \<le> dv_max_mtu (net_mem s dev)"
    and sz: "length (dv_name (net_mem s dev)) = NET_NAME_LEN" "length (dv_mac (net_mem s dev)) = NET_ETH_ADDR_LEN"
    and z: "rx_head (net_mem s dev) = 0" "rx_tail (net_mem s dev) = 0" "rx_count (net_mem s dev) = 0"
  shows "\<exists>s' ls. netdev_register ops False dev s = Some (NET_OK, s', ls) \<and> reg_inv s' \<and> net_ready s' \<and> reg_devs s' = reg_devs s @ [dev] \<and>
     rx_inv (net_mem s' dev) \<and> rx_content (net_mem s' dev) = [] \<and> dv_mtu (net_mem s' dev) \<le> dv_max_mtu (net_mem s' dev) \<and>
     (\<forall>e. e \<noteq> dev \<longrightarrow> net_mem s' e = net_mem s e)"
proof -
  have len: "length (net_devices s) = NET_MAX_DEVS" "net_device_count s < NET_MAX_DEVS" using inv d(3) by (auto simp: reg_inv_def reg_devs_def)
  have nl: "dev_listed (net_devices s) dev 0 (net_device_count s) = Some False"
    using dev_listed_set [of 0 "net_device_count s" "net_devices s" dev] len d(2) by (simp add: reg_devs_def)
  obtain e where e: "dev_defaults (net_device_count s) (net_mem s dev) = Some e" "dv_mtu e \<le> dv_max_mtu e" "dv_mac e = dv_mac (net_mem s dev)"
      "0 < rx_queue_len e" "rx_queue_len e \<le> NET_RX_BACKLOG" "rx_head e = 0" "rx_tail e = 0" "rx_count e = 0"
    using dev_defaults_total [OF sz(1), of "net_device_count s"] z by auto
  obtain mb where mb: "net_format_mac (Some (dv_mac (net_mem s dev))) (Some (replicate 24 0)) 24 = Some (Some mb)"
    using net_format_mac_total [OF sz(2), of 24 "replicate 24 0"] by auto
  let ?q = "e\<lparr>rx_queue := Some (replicate (rx_queue_len e) zero_frame_slot)\<rparr>"
  let ?s = "s\<lparr>net_mem := (net_mem s)(dev := ?q), net_devices := (net_devices s)[net_device_count s := dev], net_device_count := net_device_count s + 1\<rparr>"
  have run: "\<exists>ls. netdev_register ops False dev s = Some (NET_OK, ?s, ls)"
    using d(1) ok inv(2) len nl e mb by (auto simp: netdev_register_def Let_def arr)
  have "slot_ok zero_frame_slot" by (simp add: slot_ok_def zero_frame_slot_def)
  then have q: "rx_inv ?q" "rx_content ?q = []"
    using e by (simp_all add: rx_inv_def rx_content_def list_all_length ring_slice_def)
  have ds: "reg_devs ?s = reg_devs s @ [dev]" using reg_devs_snoc [of s dev] len by (simp add: reg_devs_def)
  then have "reg_inv ?s" using inv len d by (simp add: reg_inv_def)
  then show ?thesis using run q ds e(2) inv(2) by auto
qed

lemma register_inv:
  assumes "netdev_register ops nomem dev s = Some (r, s', ls)" "reg_inv s"
  shows "reg_inv s'"
proof -
  define t where "t = (if \<not> net_ready s then net_init s else s)"
  have t: "reg_inv t" "net_ready t" using assms(2) by (auto simp: t_def net_init_def reg_inv_def reg_devs_def)
  consider "s' = s" | "s' = t" | m where "s' = t\<lparr>net_mem := m\<rparr>"
    | m ds where "dev \<noteq> 0" "net_device_count t < NET_MAX_DEVS" "dev_listed (net_devices t) dev 0 (net_device_count t) = Some False"
        "arr_set (net_devices t) (net_device_count t) dev = Some ds" "s' = t\<lparr>net_mem := m, net_devices := ds, net_device_count := net_device_count t + 1\<rparr>"
    using assms(1) unfolding netdev_register_def t_def [symmetric] Let_def by (auto simp: bind_eq_Some split: if_splits)
  then show ?thesis
  proof cases
    case 4
    then have "dev \<notin> set (reg_devs t)" using dev_listed_set [of 0 "net_device_count t" "net_devices t" dev] t by (auto simp: reg_inv_def reg_devs_def)
    moreover have "reg_devs s' = reg_devs t @ [dev]" "length (net_devices s') = length (net_devices t)"
      using 4 t reg_devs_snoc [of t dev] by (auto simp: reg_inv_def reg_devs_def arr)
    ultimately show ?thesis using 4 t by (simp add: reg_inv_def)
  qed (use assms(2) t in \<open>auto simp: reg_inv_def reg_devs_def\<close>)
qed

section \<open>Properties\<close>

definition demo_dev :: "unit net_device_t" where
  "demo_dev = \<lparr>dv_name = replicate NET_NAME_LEN 0, dv_driver = Some (cbytes ''demo''), dv_mac = replicate NET_ETH_ADDR_LEN 2,
     dv_mtu = 0, dv_max_mtu = 1500, dv_flags = NETDEV_F_UP, dv_caps = 0, link_speed_mbps = 0, link_duplex = 0, tx_queue_len = 0, rx_queue_len = 2,
     dv_ctx = (), dv_ops = 1,
     dv_stats = \<lparr>rx_packets = 0, tx_packets = 0, rx_bytes = 0, tx_bytes = 0, rx_errors = 0, tx_errors = 0, rx_dropped = 0, tx_dropped = 0,
       rx_truncated = 0, rx_multicast = 0, rx_broadcast = 0, tx_busy = 0, tx_timeouts = 0, interrupts = 0, polls = 0, link_changes = 0,
       rx_queue_high_water = 0, resets = 0, dma_errors = 0, csum_rx_good = 0, csum_tx_offloaded = 0, vlan_rx = 0, vlan_tx = 0\<rparr>,
     rx_queue = Some (replicate 2 zero_frame_slot), rx_head = 1, rx_tail = 1, rx_count = 0, rx_callback = 0, rx_callback_ctx = 0\<rparr>"

definition demo_ops :: "unit net_device_ops_t" where
  "demo_ops = \<lparr>op_open = None, op_close = None, op_transmit = Some (\<lambda>d _ _. (NET_OK, d)), op_poll = None, op_set_promisc = None,
     op_set_allmulti = None, op_set_mac = None, op_set_mtu = None, op_set_vlan = None, op_update_link = None, op_format_driver = None\<rparr>"

lemma demo_dev_inv: "rx_inv demo_dev" "rx_content demo_dev = []" "rx_callback demo_dev = 0"
  by (simp_all add: rx_inv_def rx_content_def ring_slice_def demo_dev_def NET_RX_BACKLOG_def slot_ok_def zero_frame_slot_def numeral_2_eq_2)

text \<open>C11:
  The receive path of a network device is a bounded queue of frames. For every device whose queue
  is consistent and that has no callback, delivering a frame of admissible length never faults, keeps the
  queue consistent, appends the frame with its metadata when the queue has room and otherwise
  drops it, answers OK or BUSY accordingly, and counts one packet, its bytes, and the drop. Reading after
  a poll that leaves the queue consistent takes the oldest frame out, cut to the size of the
  reader's buffer, counts a truncation exactly when it was cut, and leaves the rest in order;
  an empty queue gives no bytes.
\<close>
theorem net_receive_fifo:
  assumes "rx_inv d" "rx_callback d = 0" "net_frame_len_ok len" "len \<le> length fr"
    and "netdev_poll ops (Some e) = Some p" "rx_inv p" "n \<le> length b"
  shows "(\<exists>d'. netdev_receive cbk (Some d) (Some fr) len meta = Some (if rx_count d < rx_queue_len d then NET_OK else NET_ERR_BUSY, Some d') \<and>
       rx_inv d' \<and> rx_content d' = take (rx_queue_len d) (rx_content d @ [(take len fr, rx_default meta)]) \<and>
       rx_packets (dv_stats d') = rx_packets (dv_stats d) + 1 \<and> rx_bytes (dv_stats d') = rx_bytes (dv_stats d) + of_nat len \<and>
       rx_dropped (dv_stats d') = rx_dropped (dv_stats d) + (if rx_count d < rx_queue_len d then 0 else 1)) \<and>
    (\<exists>d'. netdev_read_frame ops (Some e) (Some b) n = Some (case rx_content p of
          [] \<Rightarrow> (NET_OK, Some b, 0, None, Some d')
        | (frame, m) # _ \<Rightarrow> (NET_OK, Some (take n frame @ drop (min n (length frame)) b), min n (length frame), Some m, Some d')) \<and>
       rx_inv d' \<and> rx_content d' = tl (rx_content p) \<and>
       rx_truncated (dv_stats d') = rx_truncated (dv_stats p) + (if rx_content p \<noteq> [] \<and> n < length (fst (hd (rx_content p))) then 1 else 0))"
  using receive_queue [OF assms(1-4), of cbk meta] read_queue [OF assms(5-7)] by blast

theorem net_receive_fifo_witness:
  "\<exists>d'. netdev_receive (\<lambda>_ _ _ _ d. d) (Some demo_dev) (Some (replicate 60 1)) 60 None = Some (NET_OK, Some d') \<and>
     rx_content d' = [(replicate 60 1, rx_default None)]"
proof -
  have p: "netdev_poll (\<lambda>_. demo_ops) (Some demo_dev) = Some (demo_dev\<lparr>dv_stats := (dv_stats demo_dev)\<lparr>polls := 1\<rparr>\<rparr>)"
    by (simp add: netdev_poll_def dev_op_def demo_dev_def demo_ops_def)
  have l: "net_frame_len_ok 60" "60 \<le> length (replicate 60 (1::u8))"
    by (simp_all add: net_frame_len_ok_def NET_ETH_HEADER_LEN_def NET_ETH_MAX_FRAME_def)
  have q: "rx_count demo_dev = 0" "rx_queue_len demo_dev = 2" by (simp_all add: demo_dev_def)
  show ?thesis
    using net_receive_fifo [OF demo_dev_inv(1,3) l p, of 0 "[]" "\<lambda>_ _ _ _ d. d" None] demo_dev_inv q
    by auto
qed

text \<open>C26:
  The device registry holds distinct devices in registration order. Registering keeps the registry
  well formed whatever the outcome, and registering a new, complete device on a ready registry with a free
  place succeeds: the device comes last, its queue is empty and consistent, its MTU does not exceed its
  maximum, and no other device changes.
\<close>
theorem net_register_correct:
  assumes "reg_inv s"
  shows "(\<forall>r s' ls. netdev_register ops nomem dev s = Some (r, s', ls) \<longrightarrow> reg_inv s') \<and>
    (net_ready s \<and> dev \<noteq> 0 \<and> dev \<notin> set (reg_devs s) \<and> length (reg_devs s) < NET_MAX_DEVS \<and>
       dev_op ops op_transmit (net_mem s dev) \<noteq> None \<and> dv_driver (net_mem s dev) \<noteq> None \<and> 576 \<le> dv_max_mtu (net_mem s dev) \<and>
       length (dv_name (net_mem s dev)) = NET_NAME_LEN \<and> length (dv_mac (net_mem s dev)) = NET_ETH_ADDR_LEN \<and>
       rx_head (net_mem s dev) = 0 \<and> rx_tail (net_mem s dev) = 0 \<and> rx_count (net_mem s dev) = 0 \<longrightarrow>
     (\<exists>s' ls. netdev_register ops False dev s = Some (NET_OK, s', ls) \<and> reg_devs s' = reg_devs s @ [dev] \<and>
       rx_inv (net_mem s' dev) \<and> rx_content (net_mem s' dev) = [] \<and> dv_mtu (net_mem s' dev) \<le> dv_max_mtu (net_mem s' dev) \<and>
       (\<forall>e. e \<noteq> dev \<longrightarrow> net_mem s' e = net_mem s e)))"
  using register_inv [OF _ assms, of ops nomem dev] register_new [OF assms, of dev ops] by blast

theorem net_register_correct_witness:
  "\<exists>s' ls. netdev_register (\<lambda>_. demo_ops) False 7 (net_init \<lparr>net_devices = [], net_device_count = 0, net_ready = False,
      net_mem = (\<lambda>_. demo_dev\<lparr>rx_head := 0, rx_tail := 0\<rparr>)\<rparr>) = Some (NET_OK, s', ls) \<and> reg_devs s' = [7]"
proof -
  let ?s = "net_init \<lparr>net_devices = [], net_device_count = 0, net_ready = False, net_mem = (\<lambda>_. demo_dev\<lparr>rx_head := 0, rx_tail := 0\<rparr>)\<rparr>"
  have "reg_inv ?s" "net_ready ?s" "reg_devs ?s = []" by (simp_all add: reg_inv_def reg_devs_def net_init_def)
  moreover have "dev_op (\<lambda>_. demo_ops) op_transmit (net_mem ?s 7) \<noteq> None" by (simp add: dev_op_def demo_ops_def net_init_def demo_dev_def)
  moreover have "dv_driver (net_mem ?s 7) \<noteq> None" "576 \<le> dv_max_mtu (net_mem ?s 7)" "length (dv_name (net_mem ?s 7)) = NET_NAME_LEN"
    "length (dv_mac (net_mem ?s 7)) = NET_ETH_ADDR_LEN" "rx_head (net_mem ?s 7) = 0" "rx_tail (net_mem ?s 7) = 0" "rx_count (net_mem ?s 7) = 0"
    by (simp_all add: demo_dev_def net_init_def)
  ultimately show ?thesis using net_register_correct [of ?s "\<lambda>_. demo_ops" False 7] by (auto simp: NET_MAX_DEVS_def)
qed

end
