(* ===== verification/Acpi.thy ===== *)
theory Acpi
  imports Phys_Frames Bootinfo Log
begin

text \<open>
  ACPI table discovery, \<^verbatim>\<open>kernel/drivers/acpi.c\<close>. The firmware tables are read through the page
  tables: \<open>vm_translate\<close> and \<open>vm_map\<close> stand for \<^verbatim>\<open>vmm_translate\<close> and the identity mapping by
  \<^verbatim>\<open>vmm_map_4k\<close>, on an abstract state of the page tables, and a read at a virtual address without a
  translation is a fault. Physical memory holds a byte at every address. Table fields are read one
  by one at their offset in the packed structures of the source, so that the order of checks and reads is
  the one of the code. Null pointers are 0; 32-bit identifiers and counts are natural numbers, with the
  wrap-around of the one decrement written out.
\<close>

section \<open>Structures\<close>

text \<open>Sizes of the packed structures.\<close>

definition RSDP_V1_SIZE :: nat where "RSDP_V1_SIZE = 20"
definition RSDP_V2_SIZE :: nat where "RSDP_V2_SIZE = 36"
definition SDT_HEADER_SIZE :: nat where "SDT_HEADER_SIZE = 36"
definition MADT_SIZE :: nat where "MADT_SIZE = 44"
definition MADT_ENTRY_HEADER_SIZE :: nat where "MADT_ENTRY_HEADER_SIZE = 2"
definition MADT_LAPIC_SIZE :: nat where "MADT_LAPIC_SIZE = 8"
definition MADT_IOAPIC_SIZE :: nat where "MADT_IOAPIC_SIZE = 12"
definition MADT_ISO_SIZE :: nat where "MADT_ISO_SIZE = 10"
definition MADT_LAPIC_OVERRIDE_SIZE :: nat where "MADT_LAPIC_OVERRIDE_SIZE = 12"
definition MADT_X2APIC_SIZE :: nat where "MADT_X2APIC_SIZE = 16"
definition HPET_TABLE_SIZE :: nat where "HPET_TABLE_SIZE = 56"

text \<open>Fields, read from the memory \<open>m\<close> at the address \<open>r\<close> of the structure.\<close>

definition rsdp_signature :: "pmem \<Rightarrow> nat \<Rightarrow> bytes option" where "rsdp_signature m r = rd_bytes m r 8"
definition rsdp_revision :: "pmem \<Rightarrow> nat \<Rightarrow> nat option" where "rsdp_revision m r = rd_le m (r + 15) 1"
definition rsdp_rsdt_address :: "pmem \<Rightarrow> nat \<Rightarrow> nat option" where "rsdp_rsdt_address m r = rd_le m (r + 16) 4"
definition rsdp_length :: "pmem \<Rightarrow> nat \<Rightarrow> nat option" where "rsdp_length m r = rd_le m (r + 20) 4"
definition rsdp_xsdt_address :: "pmem \<Rightarrow> nat \<Rightarrow> nat option" where "rsdp_xsdt_address m r = rd_le m (r + 24) 8"
definition sdt_signature :: "pmem \<Rightarrow> nat \<Rightarrow> bytes option" where "sdt_signature m h = rd_bytes m h 4"
definition sdt_length :: "pmem \<Rightarrow> nat \<Rightarrow> nat option" where "sdt_length m h = rd_le m (h + 4) 4"
definition madt_lapic_address :: "pmem \<Rightarrow> nat \<Rightarrow> nat option" where "madt_lapic_address m t = rd_le m (t + 36) 4"
definition entry_type :: "pmem \<Rightarrow> nat \<Rightarrow> nat option" where "entry_type m p = rd_le m p 1"
definition entry_length :: "pmem \<Rightarrow> nat \<Rightarrow> nat option" where "entry_length m p = rd_le m (p + 1) 1"

record madt_lapic_t =
  la_acpi_processor_id :: nat
  la_apic_id :: nat
  la_flags :: u32

definition ld_lapic :: "pmem \<Rightarrow> nat \<Rightarrow> madt_lapic_t option" where
  "ld_lapic m p = do {
     u \<leftarrow> rd_le m (p + 2) 1; a \<leftarrow> rd_le m (p + 3) 1; f \<leftarrow> rd_le m (p + 4) 4;
     Some \<lparr>la_acpi_processor_id = u, la_apic_id = a, la_flags = of_nat f\<rparr> }"

record acpi_ioapic_info_t =
  io_id :: nat
  io_address :: nat
  io_gsi_base :: nat

definition ld_ioapic :: "pmem \<Rightarrow> nat \<Rightarrow> acpi_ioapic_info_t option" where
  "ld_ioapic m p = do {
     i \<leftarrow> rd_le m (p + 2) 1; a \<leftarrow> rd_le m (p + 4) 4; g \<leftarrow> rd_le m (p + 8) 4;
     Some \<lparr>io_id = i, io_address = a, io_gsi_base = g\<rparr> }"

record acpi_iso_info_t =
  iso_bus :: nat
  iso_source :: nat
  iso_gsi :: nat
  iso_flags :: nat

definition ld_iso :: "pmem \<Rightarrow> nat \<Rightarrow> acpi_iso_info_t option" where
  "ld_iso m p = do {
     b \<leftarrow> rd_le m (p + 2) 1; s \<leftarrow> rd_le m (p + 3) 1; g \<leftarrow> rd_le m (p + 4) 4; f \<leftarrow> rd_le m (p + 8) 2;
     Some \<lparr>iso_bus = b, iso_source = s, iso_gsi = g, iso_flags = f\<rparr> }"

definition override_lapic_address :: "pmem \<Rightarrow> nat \<Rightarrow> nat option" where "override_lapic_address m p = rd_le m (p + 4) 8"

record madt_x2apic_t =
  x2_id :: nat
  x2_flags :: u32
  x2_acpi_uid :: nat

definition ld_x2apic :: "pmem \<Rightarrow> nat \<Rightarrow> madt_x2apic_t option" where
  "ld_x2apic m p = do {
     i \<leftarrow> rd_le m (p + 4) 4; f \<leftarrow> rd_le m (p + 8) 4; u \<leftarrow> rd_le m (p + 12) 4;
     Some \<lparr>x2_id = i, x2_flags = of_nat f, x2_acpi_uid = u\<rparr> }"

definition hpet_address_space_id :: "pmem \<Rightarrow> nat \<Rightarrow> nat option" where "hpet_address_space_id m h = rd_le m (h + 40) 1"
definition hpet_base :: "pmem \<Rightarrow> nat \<Rightarrow> nat option" where "hpet_base m h = rd_le m (h + 44) 8"
definition hpet_min_tick_field :: "pmem \<Rightarrow> nat \<Rightarrow> nat option" where "hpet_min_tick_field m h = rd_le m (h + 53) 2"

text \<open>What the discovery finds.\<close>

definition ACPI_MAX_CPUS :: nat where "ACPI_MAX_CPUS = 16"
definition ACPI_MAX_IOAPICS :: nat where "ACPI_MAX_IOAPICS = 4"
definition ACPI_MAX_ISO :: nat where "ACPI_MAX_ISO = 16"

record acpi_cpu_info_t =
  cpu_acpi_id :: nat
  cpu_apic_id :: nat
  cpu_flags :: u32
  cpu_enabled :: bool
  cpu_x2apic :: bool

record acpi_info_t =
  ac_found :: bool
  ac_xsdt :: bool
  madt_found :: bool
  hpet_found :: bool
  ac_rsdp :: nat
  root_table :: nat
  table_count :: nat
  lapic_address :: nat
  cpu_count :: nat
  enabled_cpu_count :: nat
  ioapic_count :: nat
  iso_count :: nat
  hpet_address :: nat
  hpet_min_tick :: nat
  cpus :: "acpi_cpu_info_t list"
  ioapics :: "acpi_ioapic_info_t list"
  isos :: "acpi_iso_info_t list"

definition zero_cpu :: acpi_cpu_info_t where
  "zero_cpu = \<lparr>cpu_acpi_id = 0, cpu_apic_id = 0, cpu_flags = 0, cpu_enabled = False, cpu_x2apic = False\<rparr>"

definition zero_acpi_info :: acpi_info_t where
  "zero_acpi_info = \<lparr>ac_found = False, ac_xsdt = False, madt_found = False, hpet_found = False, ac_rsdp = 0, root_table = 0, table_count = 0,
     lapic_address = 0, cpu_count = 0, enabled_cpu_count = 0, ioapic_count = 0, iso_count = 0, hpet_address = 0, hpet_min_tick = 0,
     cpus = replicate ACPI_MAX_CPUS zero_cpu, ioapics = replicate ACPI_MAX_IOAPICS \<lparr>io_id = 0, io_address = 0, io_gsi_base = 0\<rparr>,
     isos = replicate ACPI_MAX_ISO \<lparr>iso_bus = 0, iso_source = 0, iso_gsi = 0, iso_flags = 0\<rparr>\<rparr>"

definition ACPI_TABLES_MAX :: nat where "ACPI_TABLES_MAX = 32"

record acpi_t =
  acpi_info :: acpi_info_t
  acpi_tables :: "nat list"
  acpi_table_count :: nat

section \<open>Mapped memory\<close>

record 'v vmm =
  vm_translate :: "'v \<Rightarrow> nat \<Rightarrow> nat option"
  vm_map :: "'v \<Rightarrow> nat \<Rightarrow> 'v option"

text \<open>What a virtual address shows.\<close>

definition view :: "'v vmm \<Rightarrow> (nat \<Rightarrow> u8) \<Rightarrow> 'v \<Rightarrow> pmem" where
  "view vm m v a = (case vm_translate vm v (a div PAGE_SIZE * PAGE_SIZE) of None \<Rightarrow> None | Some p \<Rightarrow> Some (m (p + a mod PAGE_SIZE)))"

definition ACPI_IDENTITY_ACCESS_LIMIT :: nat where "ACPI_IDENTITY_ACCESS_LIMIT = 0x0000800000000000"

function page_loop :: "'v vmm \<Rightarrow> nat \<Rightarrow> nat \<Rightarrow> 'v \<Rightarrow> bool \<times> 'v" where
  "page_loop vm aligned_end page v =
     (if page < aligned_end then
        (case vm_translate vm v page of
           Some phys \<Rightarrow> if phys \<noteq> page then (False, v) else page_loop vm aligned_end (page + PAGE_SIZE) v
         | None \<Rightarrow> (case vm_map vm v page of None \<Rightarrow> (False, v) | Some v \<Rightarrow> page_loop vm aligned_end (page + PAGE_SIZE) v))
      else (True, v))"
  by pat_completeness auto
termination
  by (relation "measure (\<lambda>(vm, e, p, v). e - p)") (auto simp: PAGE_SIZE_def)

declare page_loop.simps [simp del]

definition phys_range_accessible :: "'v vmm \<Rightarrow> nat \<Rightarrow> nat \<Rightarrow> 'v \<Rightarrow> bool \<times> 'v" where
  "phys_range_accessible vm addr len v =
     (if len = 0 then (True, v)
      else case add_overflow addr len of None \<Rightarrow> (False, v) | Some e \<Rightarrow>
        if addr < 0x400 \<or> e > ACPI_IDENTITY_ACCESS_LIMIT then (False, v)
        else (let first = unat (RABBITBONE_ALIGN_DOWN (of_nat addr) (of_nat PAGE_SIZE)) in
          case rabbitbone_align_up_u64_checked (of_nat e) (of_nat PAGE_SIZE) of None \<Rightarrow> (False, v)
          | Some aligned_end \<Rightarrow>
              if unat aligned_end > ACPI_IDENTITY_ACCESS_LIMIT then (False, v)
              else page_loop vm (unat aligned_end) first v))"

fun sum_loop :: "pmem \<Rightarrow> nat \<Rightarrow> nat \<Rightarrow> u8 \<Rightarrow> u8 option" where
  "sum_loop m p 0 acc = Some acc"
| "sum_loop m p (Suc n) acc = do { b \<leftarrow> m p; sum_loop m (Suc p) n (acc + b) }"

definition checksum_ok :: "'v vmm \<Rightarrow> (nat \<Rightarrow> u8) \<Rightarrow> nat \<Rightarrow> nat \<Rightarrow> 'v \<Rightarrow> (bool \<times> 'v) option" where
  "checksum_ok vm m ptr len v =
     (if ptr = 0 then Some (False, v)
      else let (ok, v) = phys_range_accessible vm ptr len v in
        if \<not> ok then Some (False, v)
        else do { c \<leftarrow> sum_loop (view vm m v) ptr len 0; Some (c = 0, v) })"

definition sig_eq :: "bytes \<Rightarrow> bytes \<Rightarrow> bool" where
  "sig_eq a b = (a ! 0 = b ! 0 \<and> a ! 1 = b ! 1 \<and> a ! 2 = b ! 2 \<and> a ! 3 = b ! 3)"

definition acpi_span_has :: "nat \<Rightarrow> nat \<Rightarrow> nat \<Rightarrow> bool" where
  "acpi_span_has p e len = (p \<noteq> 0 \<and> e \<noteq> 0 \<and> p \<le> e \<and> e - p \<ge> len)"

section \<open>The root pointer\<close>

definition ACPI_RSDP_SIG :: bytes where "ACPI_RSDP_SIG = map of_char ''RSD PTR ''"

text \<open>The checks on a candidate whose first 20 bytes are accessible.\<close>

definition rsdp_check :: "'v vmm \<Rightarrow> (nat \<Rightarrow> u8) \<Rightarrow> nat \<Rightarrow> 'v \<Rightarrow> (bool \<times> 'v) option" where
  "rsdp_check vm m r v = do {
     sig \<leftarrow> rsdp_signature (view vm m v) r;
     if sig \<noteq> ACPI_RSDP_SIG then Some (False, v)
     else do {
       (ok, v) \<leftarrow> checksum_ok vm m r RSDP_V1_SIZE v;
       if \<not> ok then Some (False, v)
       else do {
         rev \<leftarrow> rsdp_revision (view vm m v) r;
         if rev \<ge> 2 then do {
           len \<leftarrow> rsdp_length (view vm m v) r;
           if len < RSDP_V2_SIZE \<or> len > 4096 then Some (False, v)
           else let (ok, v) = phys_range_accessible vm r len v in
             if \<not> ok then Some (False, v) else checksum_ok vm m r len v }
         else Some (True, v) } } }"

text \<open>The scan in steps of 16 bytes; the result is the address found, or 0.\<close>

function scan_loop :: "'v vmm \<Rightarrow> (nat \<Rightarrow> u8) \<Rightarrow> nat \<Rightarrow> nat \<Rightarrow> 'v \<Rightarrow> (nat \<times> 'v) option" where
  "scan_loop vm m e p v =
     (case add_overflow p RSDP_V1_SIZE of None \<Rightarrow> Some (0, v) | Some candidate_end \<Rightarrow>
        if candidate_end > e then Some (0, v)
        else do {
          (found, v) \<leftarrow> (let (ok, v) = phys_range_accessible vm p RSDP_V1_SIZE v in
                           if \<not> ok then Some (False, v) else rsdp_check vm m p v);
          if found then Some (p, v)
          else case add_overflow p 16 of None \<Rightarrow> Some (0, v) | Some p \<Rightarrow> scan_loop vm m e p v })"
  by pat_completeness auto
termination
  by (relation "measure (\<lambda>(vm, m, e, p, v). e - p)") (auto simp: ovf RSDP_V1_SIZE_def)

declare scan_loop.simps [simp del]

definition scan_rsdp_range :: "'v vmm \<Rightarrow> (nat \<Rightarrow> u8) \<Rightarrow> nat \<Rightarrow> nat \<Rightarrow> 'v \<Rightarrow> (nat \<times> 'v) option" where
  "scan_rsdp_range vm m start e v =
     (if start \<ge> e then Some (0, v)
      else case rabbitbone_align_up_u64_checked (of_nat start) 16 of None \<Rightarrow> Some (0, v)
        | Some aligned \<Rightarrow> scan_loop vm m e (unat aligned) v)"

definition validate_rsdp_at :: "'v vmm \<Rightarrow> (nat \<Rightarrow> u8) \<Rightarrow> nat \<Rightarrow> 'v \<Rightarrow> (nat \<times> 'v) option" where
  "validate_rsdp_at vm m addr v =
     (if addr = 0 \<or> addr mod 16 \<noteq> 0 then Some (0, v)
      else let (ok, v) = phys_range_accessible vm addr RSDP_V1_SIZE v in
        if \<not> ok then Some (0, v)
        else do { (ok, v) \<leftarrow> rsdp_check vm m addr v; Some (if ok then addr else 0, v) })"

definition find_rsdp :: "'v vmm \<Rightarrow> (nat \<Rightarrow> u8) \<Rightarrow> nat \<Rightarrow> 'v \<Rightarrow> (nat \<times> 'v) option" where
  "find_rsdp vm m boot_rsdp v = do {
     (from_boot, v) \<leftarrow> (if boot_rsdp \<noteq> 0 then validate_rsdp_at vm m boot_rsdp v else Some (0, v));
     if from_boot \<noteq> 0 then Some (from_boot, v)
     else do {
       ebda_seg \<leftarrow> rd_le (view vm m v) 0x40e 2;
       let ebda = ebda_seg * 16;
       (r, v) \<leftarrow> (if ebda \<ge> 0x80000 \<and> ebda < 0xa0000 then scan_rsdp_range vm m ebda (ebda + 1024) v else Some (0, v));
       if r \<noteq> 0 then Some (r, v) else scan_rsdp_range vm m 0xe0000 0x100000 v } }"

section \<open>Tables\<close>

definition valid_sdt :: "'v vmm \<Rightarrow> (nat \<Rightarrow> u8) \<Rightarrow> nat \<Rightarrow> 'v \<Rightarrow> (bool \<times> 'v) option" where
  "valid_sdt vm m h v =
     (if h = 0 then Some (False, v)
      else let (ok, v) = phys_range_accessible vm h SDT_HEADER_SIZE v in
        if \<not> ok then Some (False, v)
        else do {
          len \<leftarrow> sdt_length (view vm m v) h;
          if len < SDT_HEADER_SIZE \<or> len > 1024 * 1024 then Some (False, v)
          else let (ok, v) = phys_range_accessible vm h len v in
            if \<not> ok then Some (False, v) else checksum_ok vm m h len v })"

definition add_table :: "'v vmm \<Rightarrow> (nat \<Rightarrow> u8) \<Rightarrow> nat \<Rightarrow> acpi_t \<times> 'v \<Rightarrow> (acpi_t \<times> 'v) option" where
  "add_table vm m h sv = (case sv of (s, v) \<Rightarrow> do {
     (ok, v) \<leftarrow> valid_sdt vm m h v;
     if \<not> ok \<or> acpi_table_count s \<ge> ACPI_TABLES_MAX then Some (s, v)
     else do {
       ts \<leftarrow> arr_set (acpi_tables s) (acpi_table_count s) h;
       Some (s\<lparr>acpi_tables := ts, acpi_table_count := acpi_table_count s + 1\<rparr>, v) } })"

text \<open>The entries from address \<open>p\<close> on, \<open>w\<close> bytes each.\<close>

fun root_entries :: "'v vmm \<Rightarrow> (nat \<Rightarrow> u8) \<Rightarrow> nat \<Rightarrow> nat \<Rightarrow> nat \<Rightarrow> acpi_t \<times> 'v \<Rightarrow> (acpi_t \<times> 'v) option" where
  "root_entries vm m w p 0 sv = Some sv"
| "root_entries vm m w p (Suc n) sv = do {
     a \<leftarrow> rd_le (view vm m (snd sv)) p w;
     sv \<leftarrow> (if a \<noteq> 0 then add_table vm m a sv else Some sv);
     root_entries vm m w (p + w) n sv }"

definition parse_root_table :: "'v vmm \<Rightarrow> (nat \<Rightarrow> u8) \<Rightarrow> nat \<Rightarrow> bool \<Rightarrow> acpi_t \<times> 'v \<Rightarrow> (acpi_t \<times> 'v) option" where
  "parse_root_table vm m root xsdt sv = (case sv of (s, v) \<Rightarrow> do {
     (ok, v) \<leftarrow> valid_sdt vm m root v;
     if \<not> ok then Some (s, v)
     else do {
       let s = s\<lparr>acpi_info := (acpi_info s)\<lparr>root_table := root, ac_xsdt := xsdt\<rparr>\<rparr>;
       len \<leftarrow> sdt_length (view vm m v) root;
       if xsdt \<and> len < SDT_HEADER_SIZE then Some (s, v)
       else do {
         let w = (if xsdt then 8 else 4);
         (s, v) \<leftarrow> root_entries vm m w (root + SDT_HEADER_SIZE) ((len - SDT_HEADER_SIZE) div w) (s, v);
         Some (s\<lparr>acpi_info := (acpi_info s)\<lparr>table_count := acpi_table_count s\<rparr>\<rparr>, v) } } })"

fun find_table :: "pmem \<Rightarrow> acpi_t \<Rightarrow> bytes \<Rightarrow> nat \<Rightarrow> nat \<Rightarrow> nat option" where
  "find_table m s sig i 0 = Some 0"
| "find_table m s sig i (Suc n) = do {
     h \<leftarrow> arr_get (acpi_tables s) i;
     hs \<leftarrow> sdt_signature m h;
     if sig_eq hs sig then Some h else find_table m s sig (Suc i) n }"

definition acpi_find_table :: "pmem \<Rightarrow> acpi_t \<Rightarrow> bytes \<Rightarrow> nat option" where
  "acpi_find_table m s sig = find_table m s sig 0 (acpi_table_count s)"

section \<open>Processors and interrupt controllers\<close>

fun find_cpu :: "acpi_cpu_info_t list \<Rightarrow> (acpi_cpu_info_t \<Rightarrow> nat) \<Rightarrow> nat \<Rightarrow> nat \<Rightarrow> nat \<Rightarrow> nat option option" where
  "find_cpu cs key k i 0 = Some None"
| "find_cpu cs key k i (Suc n) = do {
     c \<leftarrow> arr_get cs i;
     if key c = k then Some (Some i) else find_cpu cs key k (Suc i) n }"

definition acpi_find_cpu_by_apic_id :: "acpi_info_t \<Rightarrow> nat \<Rightarrow> nat option option" where
  "acpi_find_cpu_by_apic_id a apic_id = find_cpu (cpus a) cpu_apic_id apic_id 0 (cpu_count a)"

definition acpi_find_cpu_by_uid :: "acpi_info_t \<Rightarrow> nat \<Rightarrow> nat option option" where
  "acpi_find_cpu_by_uid a acpi_id = find_cpu (cpus a) cpu_acpi_id acpi_id 0 (cpu_count a)"

text \<open>The entry for a processor, after the optional reset of a new one: its index and the new state.\<close>

definition cpu_slot :: "nat \<Rightarrow> nat \<Rightarrow> acpi_info_t \<Rightarrow> (nat \<times> acpi_info_t) option option" where
  "cpu_slot acpi_id apic_id a = do {
     c \<leftarrow> acpi_find_cpu_by_apic_id a apic_id;
     c \<leftarrow> (if c = None then acpi_find_cpu_by_uid a acpi_id else Some c);
     case c of
       None \<Rightarrow>
         if cpu_count a \<ge> ACPI_MAX_CPUS then Some None
         else do { cs \<leftarrow> arr_set (cpus a) (cpu_count a) zero_cpu; Some (Some (cpu_count a, a\<lparr>cpus := cs, cpu_count := cpu_count a + 1\<rparr>)) }
     | Some i \<Rightarrow> do {
         c \<leftarrow> arr_get (cpus a) i;
         Some (Some (i, if cpu_enabled c then a\<lparr>enabled_cpu_count := (enabled_cpu_count a + 0xffffffff) mod 0x100000000\<rparr> else a)) } }"

definition cpu_update :: "nat \<Rightarrow> nat \<Rightarrow> u32 \<Rightarrow> bool \<Rightarrow> acpi_cpu_info_t \<Rightarrow> acpi_cpu_info_t" where
  "cpu_update acpi_id apic_id flags x2apic c =
     (let c = c\<lparr>cpu_acpi_id := acpi_id, cpu_flags := flags, cpu_enabled := (flags AND 1 \<noteq> 0)\<rparr>
      in if x2apic \<or> \<not> cpu_x2apic c then c\<lparr>cpu_apic_id := apic_id, cpu_x2apic := x2apic\<rparr> else c)"

definition acpi_record_madt_cpu :: "nat \<Rightarrow> nat \<Rightarrow> u32 \<Rightarrow> bool \<Rightarrow> acpi_info_t \<Rightarrow> acpi_info_t option" where
  "acpi_record_madt_cpu acpi_id apic_id flags x2apic a = do {
     sl \<leftarrow> cpu_slot acpi_id apic_id a;
     case sl of None \<Rightarrow> Some a
     | Some (i, a) \<Rightarrow> do {
         c \<leftarrow> arr_get (cpus a) i;
         let c = cpu_update acpi_id apic_id flags x2apic c;
         cs \<leftarrow> arr_set (cpus a) i c;
         let a = a\<lparr>cpus := cs\<rparr>;
         Some (if cpu_enabled c then a\<lparr>enabled_cpu_count := (enabled_cpu_count a + 1) mod 0x100000000\<rparr> else a) } }"

text \<open>One entry of the interrupt controller table, at \<open>p\<close>, with type and length read.\<close>

definition madt_entry :: "pmem \<Rightarrow> nat \<Rightarrow> nat \<Rightarrow> nat \<Rightarrow> acpi_info_t \<Rightarrow> acpi_info_t option" where
  "madt_entry m ty len p a =
     (if ty = 0 \<and> len \<ge> MADT_LAPIC_SIZE then do {
        e \<leftarrow> ld_lapic m p;
        acpi_record_madt_cpu (la_acpi_processor_id e) (la_apic_id e) (la_flags e) False a }
      else if ty = 1 \<and> len \<ge> MADT_IOAPIC_SIZE then
        (if ioapic_count a < ACPI_MAX_IOAPICS then do {
           e \<leftarrow> ld_ioapic m p;
           ios \<leftarrow> arr_set (ioapics a) (ioapic_count a) e;
           Some (a\<lparr>ioapics := ios, ioapic_count := ioapic_count a + 1\<rparr>) }
         else Some a)
      else if ty = 2 \<and> len \<ge> MADT_ISO_SIZE then
        (if iso_count a < ACPI_MAX_ISO then do {
           e \<leftarrow> ld_iso m p;
           is \<leftarrow> arr_set (isos a) (iso_count a) e;
           Some (a\<lparr>isos := is, iso_count := iso_count a + 1\<rparr>) }
         else Some a)
      else if ty = 5 \<and> len \<ge> MADT_LAPIC_OVERRIDE_SIZE then do {
        l \<leftarrow> override_lapic_address m p;
        Some (if l \<le> 0xffffffff then a\<lparr>lapic_address := l\<rparr> else a) }
      else if ty = 9 \<and> len \<ge> MADT_X2APIC_SIZE then do {
        e \<leftarrow> ld_x2apic m p;
        acpi_record_madt_cpu (x2_acpi_uid e) (x2_id e) (x2_flags e) True a }
      else Some a)"

function madt_loop :: "pmem \<Rightarrow> nat \<Rightarrow> nat \<Rightarrow> acpi_info_t \<Rightarrow> acpi_info_t option" where
  "madt_loop m e p a =
     (if \<not> acpi_span_has p e MADT_ENTRY_HEADER_SIZE then Some a
      else do {
        len \<leftarrow> entry_length m p;
        if len < MADT_ENTRY_HEADER_SIZE \<or> \<not> acpi_span_has p e len then Some a
        else do {
          ty \<leftarrow> entry_type m p;
          a \<leftarrow> madt_entry m ty len p a;
          madt_loop m e (p + len) a } })"
  by pat_completeness auto
termination
  by (relation "measure (\<lambda>(m, e, p, a). e - p)") (auto simp: acpi_span_has_def MADT_ENTRY_HEADER_SIZE_def)

declare madt_loop.simps [simp del]

definition parse_madt :: "pmem \<Rightarrow> acpi_t \<Rightarrow> acpi_t option" where
  "parse_madt m s = do {
     t \<leftarrow> acpi_find_table m s (map of_char ''APIC'');
     if t = 0 then Some s
     else do {
       len \<leftarrow> sdt_length m t;
       if len < MADT_SIZE then Some s
       else do {
         l \<leftarrow> madt_lapic_address m t;
         a \<leftarrow> madt_loop m (t + len) (t + MADT_SIZE) ((acpi_info s)\<lparr>madt_found := True, lapic_address := l\<rparr>);
         Some (s\<lparr>acpi_info := a\<rparr>) } } }"

definition parse_hpet :: "pmem \<Rightarrow> acpi_t \<Rightarrow> acpi_t option" where
  "parse_hpet m s = do {
     h \<leftarrow> acpi_find_table m s (map of_char ''HPET'');
     if h = 0 then Some s
     else do {
       len \<leftarrow> sdt_length m h;
       if len < HPET_TABLE_SIZE then Some s
       else do {
         sp \<leftarrow> hpet_address_space_id m h;
         a \<leftarrow> hpet_base m h;
         if sp \<noteq> 0 \<or> a = 0 then Some s
         else do {
           t \<leftarrow> hpet_min_tick_field m h;
           Some (s\<lparr>acpi_info := (acpi_info s)\<lparr>hpet_found := True, hpet_address := a, hpet_min_tick := t\<rparr>\<rparr>) } } } }"


section \<open>Initialisation and reports\<close>

definition bool_arg :: "bool \<Rightarrow> varg" where "bool_arg b = VNum (if b then 1 else 0)"

definition acpi_init :: "'v vmm \<Rightarrow> (nat \<Rightarrow> u8) \<Rightarrow> nat \<Rightarrow> 'v \<Rightarrow> (acpi_t \<times> 'v \<times> klog_call list) option" where
  "acpi_init vm m boot_rsdp v = do {
     let s = \<lparr>acpi_info = zero_acpi_info, acpi_tables = replicate ACPI_TABLES_MAX 0, acpi_table_count = 0\<rparr>;
     (rsdp, v) \<leftarrow> find_rsdp vm m boot_rsdp v;
     if rsdp = 0 then Some (s, v, [(LOG_WARN, cbytes ''acpi'', cbytes ''RSDP not found; ACPI/APIC/HPET discovery disabled'', [])])
     else do {
       let s = s\<lparr>acpi_info := (acpi_info s)\<lparr>ac_found := True, ac_rsdp := rsdp\<rparr>\<rparr>;
       rev \<leftarrow> rsdp_revision (view vm m v) rsdp;
       x \<leftarrow> (if rev \<ge> 2 then rsdp_xsdt_address (view vm m v) rsdp else Some 0);
       (root, xsdt, v) \<leftarrow> (if x \<noteq> 0 then do { (ok, v) \<leftarrow> valid_sdt vm m x v; Some (if ok then x else 0, ok, v) } else Some (0, False, v));
       rsdt \<leftarrow> (if root = 0 then rsdp_rsdt_address (view vm m v) rsdp else Some 0);
       let root = (if root = 0 then rsdt else root);
       (s, v) \<leftarrow> parse_root_table vm m root xsdt (s, v);
       s \<leftarrow> parse_madt (view vm m v) s;
       s \<leftarrow> parse_hpet (view vm m v) s;
       let a = acpi_info s;
       Some (s, v, [(LOG_INFO, cbytes ''acpi'', cbytes ''rsdp=%p root=%p xsdt=%u tables=%u cpus=%u ioapics=%u hpet=%u'',
         [VNum (of_nat (ac_rsdp a)), VNum (of_nat (root_table a)), bool_arg (ac_xsdt a), VNum (of_nat (table_count a)),
          VNum (of_nat (enabled_cpu_count a)), VNum (of_nat (ioapic_count a)), bool_arg (hpet_found a)])]) } }"

definition acpi_available :: "acpi_t \<Rightarrow> bool" where
  "acpi_available s = ac_found (acpi_info s)"

definition acpi_get_info :: "acpi_t \<Rightarrow> acpi_info_t" where
  "acpi_get_info s = acpi_info s"

fun format_cpus :: "acpi_info_t \<Rightarrow> nat \<Rightarrow> nat \<Rightarrow> rabbitbone_buf_out_t option \<Rightarrow> rabbitbone_buf_out_t option option" where
  "format_cpus a i 0 bo = Some bo"
| "format_cpus a i (Suc n) bo = do {
     c \<leftarrow> arr_get (cpus a) i;
     bo \<leftarrow> rabbitbone_buf_vappendf bo (Some (cbytes ''    cpu%u acpi=%u apic=%u x2=%u enabled=%u flags=0x%x\<newline>''))
       [VNum (of_nat i), VNum (of_nat (cpu_acpi_id c)), VNum (of_nat (cpu_apic_id c)), bool_arg (cpu_x2apic c), bool_arg (cpu_enabled c), VNum (ucast (cpu_flags c))];
     format_cpus a (Suc i) n bo }"

fun format_ioapics :: "acpi_info_t \<Rightarrow> nat \<Rightarrow> nat \<Rightarrow> rabbitbone_buf_out_t option \<Rightarrow> rabbitbone_buf_out_t option option" where
  "format_ioapics a i 0 bo = Some bo"
| "format_ioapics a i (Suc n) bo = do {
     c \<leftarrow> arr_get (ioapics a) i;
     bo \<leftarrow> rabbitbone_buf_vappendf bo (Some (cbytes ''    ioapic%u id=%u addr=%p gsi_base=%u\<newline>''))
       [VNum (of_nat i), VNum (of_nat (io_id c)), VNum (of_nat (io_address c)), VNum (of_nat (io_gsi_base c))];
     format_ioapics a (Suc i) n bo }"

definition acpi_format_status :: "acpi_t \<Rightarrow> bytes option \<Rightarrow> nat \<Rightarrow> bytes option option" where
  "acpi_format_status s out out_len =
     (if out = None \<or> out_len = 0 then Some out
      else do {
        let a = acpi_info s;
        bo \<leftarrow> rabbitbone_buf_init (Some \<lparr>bo_buf = None, bo_cap = 0, bo_used = 0\<rparr>) out out_len;
        bo \<leftarrow> rabbitbone_buf_vappendf bo (Some (cbytes ''acpi: found=%u rsdp=%p root=%p xsdt=%u tables=%u\<newline>''))
          [bool_arg (ac_found a), VNum (of_nat (ac_rsdp a)), VNum (of_nat (root_table a)), bool_arg (ac_xsdt a), VNum (of_nat (table_count a))];
        bo \<leftarrow> rabbitbone_buf_vappendf bo (Some (cbytes ''  madt=%u lapic=%p cpus=%u enabled=%u ioapics=%u iso=%u\<newline>''))
          [bool_arg (madt_found a), VNum (of_nat (lapic_address a)), VNum (of_nat (cpu_count a)), VNum (of_nat (enabled_cpu_count a)),
           VNum (of_nat (ioapic_count a)), VNum (of_nat (iso_count a))];
        bo \<leftarrow> format_cpus a 0 (cpu_count a) bo;
        bo \<leftarrow> format_ioapics a 0 (ioapic_count a) bo;
        bo \<leftarrow> rabbitbone_buf_vappendf bo (Some (cbytes ''  hpet=%u base=%p min_tick=%u\<newline>''))
          [bool_arg (hpet_found a), VNum (of_nat (hpet_address a)), VNum (of_nat (hpet_min_tick a))];
        b \<leftarrow> bo;
        Some (bo_buf b) })"

text \<open>Whether a later enabled processor has the identifier of this one.\<close>

fun twin_scan :: "acpi_cpu_info_t list \<Rightarrow> acpi_cpu_info_t \<Rightarrow> nat \<Rightarrow> nat \<Rightarrow> bool option" where
  "twin_scan cs a j 0 = Some False"
| "twin_scan cs a j (Suc n) = do {
     b \<leftarrow> arr_get cs j;
     if cpu_enabled a \<and> cpu_enabled b \<and> cpu_apic_id a = cpu_apic_id b then Some True else twin_scan cs a (Suc j) n }"

text \<open>The number of enabled processors, or nothing when two share an identifier.\<close>

fun selftest_scan :: "acpi_cpu_info_t list \<Rightarrow> nat \<Rightarrow> nat \<Rightarrow> nat \<Rightarrow> nat option option" where
  "selftest_scan cs i 0 enabled = Some (Some enabled)"
| "selftest_scan cs i (Suc n) enabled = do {
     a \<leftarrow> arr_get cs i;
     twin \<leftarrow> twin_scan cs a (Suc i) n;
     if twin then Some None else selftest_scan cs (Suc i) n (if cpu_enabled a then enabled + 1 else enabled) }"

definition acpi_selftest :: "acpi_t \<Rightarrow> bool option" where
  "acpi_selftest s = (let a = acpi_info s in
     if \<not> ac_found a then Some True
     else if ac_rsdp a = 0 \<or> root_table a = 0 then Some False
     else if table_count a = 0 then Some False
     else if madt_found a \<and> enabled_cpu_count a = 0 then Some False
     else do {
       r \<leftarrow> selftest_scan (cpus a) 0 (cpu_count a) 0;
       Some (case r of None \<Rightarrow> False | Some enabled \<Rightarrow> enabled = enabled_cpu_count a) })"

section \<open>Reading mapped tables\<close>

text \<open>Mapping an unmapped page maps it to itself and keeps every other translation.\<close>

definition vmm_ok :: "'v vmm \<Rightarrow> bool" where
  "vmm_ok vm = (\<forall>v p v'. vm_translate vm v p = None \<and> vm_map vm v p = Some v' \<longrightarrow>
     vm_translate vm v' p = Some p \<and> (\<forall>q. q \<noteq> p \<longrightarrow> vm_translate vm v' q = vm_translate vm v q))"

definition extends :: "'v vmm \<Rightarrow> 'v \<Rightarrow> 'v \<Rightarrow> bool" where
  "extends vm v v' = (\<forall>p. vm_translate vm v' p = vm_translate vm v p \<or> vm_translate vm v p = None \<and> vm_translate vm v' p = Some p)"

definition ident :: "'v vmm \<Rightarrow> 'v \<Rightarrow> nat \<Rightarrow> nat \<Rightarrow> bool" where
  "ident vm v a n = (\<forall>i < n. vm_translate vm v ((a + i) div PAGE_SIZE * PAGE_SIZE) = Some ((a + i) div PAGE_SIZE * PAGE_SIZE))"

lemma extends_refl [simp]: "extends vm v v" by (simp add: extends_def)

lemma extends_trans: "extends vm v v' \<Longrightarrow> extends vm v' v'' \<Longrightarrow> extends vm v v''"
  unfolding extends_def by (metis option.distinct(1))

lemma ident_extends: "ident vm v a n \<Longrightarrow> extends vm v v' \<Longrightarrow> ident vm v' a n"
  unfolding ident_def extends_def by (metis option.distinct(1))

lemma ident_view: "ident vm v a n \<Longrightarrow> i < n \<Longrightarrow> view vm m v (a + i) = Some (m (a + i))"
  by (simp add: ident_def view_def)

lemma ident_sub: "ident vm v a n \<Longrightarrow> i + k \<le> n \<Longrightarrow> ident vm v (a + i) k"
  by (simp add: ident_def add.assoc)

lemma map_extends: "vmm_ok vm \<Longrightarrow> vm_translate vm v p = None \<Longrightarrow> vm_map vm v p = Some v' \<Longrightarrow> extends vm v v' \<and> vm_translate vm v' p = Some p"
  unfolding vmm_ok_def extends_def by metis

lemma next_page:
  assumes "p mod PAGE_SIZE = 0" "q mod PAGE_SIZE = 0" "p < q"
  shows "p + PAGE_SIZE \<le> q"
proof -
  obtain a b where "p = PAGE_SIZE * a" "q = PAGE_SIZE * b" using assms(1,2) by (auto simp: mod_eq_0_iff_dvd elim!: dvdE)
  then show ?thesis using assms(3) by (simp add: PAGE_SIZE_def)
qed

lemma page_loop_maps:
  assumes "vmm_ok vm" "page_loop vm e p v = (ok, v')" "p mod PAGE_SIZE = 0"
  shows "extends vm v v' \<and> (ok \<longrightarrow> (\<forall>q. p \<le> q \<and> q < e \<and> q mod PAGE_SIZE = 0 \<longrightarrow> vm_translate vm v' q = Some q))"
  using assms
proof (induction vm e p v arbitrary: v' rule: page_loop.induct)
  case (1 vm e p v)
  have step: "extends vm v v' \<and> (ok \<longrightarrow> (\<forall>q. p \<le> q \<and> q < e \<and> q mod PAGE_SIZE = 0 \<longrightarrow> vm_translate vm v' q = Some q))"
    if w: "extends vm v w" "vm_translate vm w p = Some p" and
      ih: "extends vm w v' \<and> (ok \<longrightarrow> (\<forall>q. p + PAGE_SIZE \<le> q \<and> q < e \<and> q mod PAGE_SIZE = 0 \<longrightarrow> vm_translate vm v' q = Some q))" for w
  proof -
    have "p + PAGE_SIZE \<le> q" if "p \<le> q" "q \<noteq> p" "q mod PAGE_SIZE = 0" for q
      using that next_page [OF "1.prems"(3)] by simp
    moreover have "vm_translate vm v' p = Some p" using w(2) ih unfolding extends_def by (metis option.distinct(1))
    ultimately show ?thesis using ih extends_trans [OF w(1)] by metis
  qed
  show ?case
  proof (cases "p < e")
    case True
    show ?thesis
    proof (cases "vm_translate vm v p")
      case None
      show ?thesis
      proof (cases "vm_map vm v p")
        case (Some w)
        then have "page_loop vm e (p + PAGE_SIZE) w = (ok, v')" using True None "1.prems"(2) by (simp add: page_loop.simps [of vm e p v])
        then have "extends vm w v' \<and> (ok \<longrightarrow> (\<forall>q. p + PAGE_SIZE \<le> q \<and> q < e \<and> q mod PAGE_SIZE = 0 \<longrightarrow> vm_translate vm v' q = Some q))"
          by (rule "1.IH"(1) [OF True None Some "1.prems"(1)]) (use "1.prems"(3) in simp)
        with map_extends [OF "1.prems"(1) None Some] show ?thesis by (elim conjE) (rule step, assumption+, rule conjI)
      qed (use True None "1.prems"(2) in \<open>auto simp: page_loop.simps [of vm e p v]\<close>)
    next
      case (Some ph)
      show ?thesis
      proof (cases "ph = p")
        case same: True
        then have run: "page_loop vm e (p + PAGE_SIZE) v = (ok, v')" "\<not> ph \<noteq> p"
          using True Some "1.prems"(2) by (simp_all add: page_loop.simps [of vm e p v])
        have "extends vm v v' \<and> (ok \<longrightarrow> (\<forall>q. p + PAGE_SIZE \<le> q \<and> q < e \<and> q mod PAGE_SIZE = 0 \<longrightarrow> vm_translate vm v' q = Some q))"
          by (rule "1.IH"(2) [OF True Some run(2) "1.prems"(1) run(1)]) (use "1.prems"(3) in simp)
        with extends_refl Some same show ?thesis by (intro step [of v]) auto
      qed (use True Some "1.prems"(2) in \<open>auto simp: page_loop.simps [of vm e p v]\<close>)
    qed
  qed (use "1.prems" in \<open>auto simp: page_loop.simps [of vm e p v]\<close>)
qed

lemma align_down_page: "a \<le> U64_MAX \<Longrightarrow> unat (RABBITBONE_ALIGN_DOWN (of_nat a) (of_nat PAGE_SIZE)) = a div PAGE_SIZE * PAGE_SIZE"
  using unat_and_not_mask [of 12 "of_nat a"] by (simp add: RABBITBONE_ALIGN_DOWN_def PAGE_SIZE_def push_bit_eq_mult unat_of_nat)

lemma accessible_ident:
  assumes "vmm_ok vm" "phys_range_accessible vm a n v = (ok, v')"
  shows "extends vm v v' \<and> (ok \<longrightarrow> ident vm v' a n \<and> (0 < n \<longrightarrow> a + n \<le> ACPI_IDENTITY_ACCESS_LIMIT))"
proof (cases "n = 0 \<or> U64_MAX < a + n \<or> a < 0x400 \<or> ACPI_IDENTITY_ACCESS_LIMIT < a + n")
  case True
  then show ?thesis using assms(2) by (auto simp: phys_range_accessible_def ident_def ovf split: option.splits if_splits)
next
  case False
  have lim: "a + n \<le> ACPI_IDENTITY_ACCESS_LIMIT" using False by simp
  then have b: "a \<le> U64_MAX" "a + n \<le> U64_MAX" "a + n + 4095 \<le> U64_MAX" by (simp_all add: ACPI_IDENTITY_ACCESS_LIMIT_def)
  let ?e = "(a + n + 4095) div 4096 * 4096"
  have e: "?e \<le> U64_MAX" "a + n \<le> ?e" using lim by (simp_all add: ACPI_IDENTITY_ACCESS_LIMIT_def)
  from e(1) have ue: "unat (of_nat ?e :: u64) = ?e" by (rule unat_of_nat64)
  have run: "(if ?e > ACPI_IDENTITY_ACCESS_LIMIT then (False, v) else page_loop vm ?e (a div PAGE_SIZE * PAGE_SIZE) v) = (ok, v')"
    using assms(2) False b ue page_align_up [OF b(2)] unfolding phys_range_accessible_def
    by (auto simp: add_overflow_def align_down_page simp del: of_nat_mult of_nat_add split: if_splits)
  show ?thesis
  proof (cases "?e > ACPI_IDENTITY_ACCESS_LIMIT")
    case True
    then show ?thesis using run by simp
  next
    case inside: False
    then have l: "page_loop vm ?e (a div PAGE_SIZE * PAGE_SIZE) v = (ok, v')" using run by simp
    have "ident vm v' a n" if ok
      unfolding ident_def
    proof (intro allI impI)
      fix i assume i: "i < n"
      have "a div PAGE_SIZE * PAGE_SIZE \<le> (a + i) div PAGE_SIZE * PAGE_SIZE" by (simp add: div_le_mono)
      moreover have "(a + i) div PAGE_SIZE * PAGE_SIZE < ?e" using i e(2) times_div_less_eq_dividend [of "a + i" PAGE_SIZE] by (simp add: PAGE_SIZE_def)
      moreover have "(a + i) div PAGE_SIZE * PAGE_SIZE mod PAGE_SIZE = 0" by simp
      ultimately show "vm_translate vm v' ((a + i) div PAGE_SIZE * PAGE_SIZE) = Some ((a + i) div PAGE_SIZE * PAGE_SIZE)"
        using page_loop_maps [OF assms(1) l] that by simp
    qed
    then show ?thesis using page_loop_maps [OF assms(1) l] lim by simp
  qed
qed

text \<open>What physical memory holds.\<close>

fun le_at :: "(nat \<Rightarrow> u8) \<Rightarrow> nat \<Rightarrow> nat \<Rightarrow> nat" where
  "le_at m a 0 = 0"
| "le_at m a (Suc n) = unat (m a) + 256 * le_at m (Suc a) n"

definition mem_bytes :: "(nat \<Rightarrow> u8) \<Rightarrow> nat \<Rightarrow> nat \<Rightarrow> bytes" where
  "mem_bytes m a n = map m [a..<a + n]"

lemma mem_bytes_Suc: "mem_bytes m a (Suc n) = m a # mem_bytes m (Suc a) n"
  by (simp add: mem_bytes_def upt_conv_Cons del: upt_Suc)

lemma ident_Suc: "ident vm v a (Suc n) \<Longrightarrow> view vm m v a = Some (m a) \<and> ident vm v (Suc a) n"
  using ident_view [of vm v a "Suc n" 0 m] ident_sub [of vm v a "Suc n" 1 n] by simp

lemma ident_le: "ident vm v a n \<Longrightarrow> rd_le (view vm m v) a n = Some (le_at m a n)"
  by (induction n arbitrary: a) (auto dest!: ident_Suc [where m = m])

lemma ident_bytes: "ident vm v a n \<Longrightarrow> rd_bytes (view vm m v) a n = Some (mem_bytes m a n)"
  by (induction n arbitrary: a) (auto simp: mem_bytes_Suc mem_bytes_def [of m _ 0] dest!: ident_Suc [where m = m])

lemma ident_sum: "ident vm v a n \<Longrightarrow> sum_loop (view vm m v) a n acc = Some (acc + sum_list (mem_bytes m a n))"
  by (induction n arbitrary: a acc) (auto simp: mem_bytes_Suc mem_bytes_def [of m _ 0] add.assoc dest!: ident_Suc [where m = m])

lemma ident_field: "ident vm v a n \<Longrightarrow> i + k \<le> n \<Longrightarrow> rd_le (view vm m v) (a + i) k = Some (le_at m (a + i) k)"
  by (rule ident_le) (rule ident_sub)

lemma ident_mono: "ident vm v a n \<Longrightarrow> k \<le> n \<Longrightarrow> ident vm v a k"
  by (simp add: ident_def)

definition checksums :: "(nat \<Rightarrow> u8) \<Rightarrow> nat \<Rightarrow> nat \<Rightarrow> bool" where
  "checksums m a n = (sum_list (mem_bytes m a n) = 0)"

lemma checksum_ok_spec:
  assumes "vmm_ok vm"
  shows "\<exists>ok v'. checksum_ok vm m p n v = Some (ok, v') \<and> extends vm v v' \<and> (ok \<longrightarrow> p \<noteq> 0 \<and> ident vm v' p n \<and> checksums m p n)"
proof (cases "p = 0")
  case False
  obtain ok v' where a: "phys_range_accessible vm p n v = (ok, v')" by fastforce
  note acc = accessible_ident [OF assms a]
  show ?thesis using False a acc ident_sum [of vm v' p n m 0] by (cases ok) (auto simp: checksum_ok_def checksums_def)
qed (auto simp: checksum_ok_def)

text \<open>A root pointer structure whose checks hold, and its readable extent.\<close>

definition rsdp_at :: "'v vmm \<Rightarrow> (nat \<Rightarrow> u8) \<Rightarrow> 'v \<Rightarrow> nat \<Rightarrow> bool" where
  "rsdp_at vm m v r = (mem_bytes m r 8 = ACPI_RSDP_SIG \<and> checksums m r RSDP_V1_SIZE \<and> ident vm v r RSDP_V1_SIZE \<and>
     (2 \<le> le_at m (r + 15) 1 \<longrightarrow> RSDP_V2_SIZE \<le> le_at m (r + 20) 4 \<and> le_at m (r + 20) 4 \<le> 4096 \<and>
        ident vm v r (le_at m (r + 20) 4) \<and> checksums m r (le_at m (r + 20) 4)))"

text \<open>
  A candidate of a revision from 2 on has its length field behind the 20 bytes that were checked. The field
  shares a 16-byte block with the last of them, so an aligned candidate has it on a page that is mapped.
\<close>

lemma ident_block:
  assumes "ident vm v r RSDP_V1_SIZE" "r mod 16 = 0"
  shows "ident vm v r 32"
  unfolding ident_def
proof (intro allI impI)
  fix i :: nat assume i: "i < 32"
  obtain k where k: "r = 16 * k" using assms(2) by (auto simp: mod_eq_0_iff_dvd elim!: dvdE)
  have "(r + i) div PAGE_SIZE = (r + min i 16) div PAGE_SIZE"
  proof (cases "i \<le> 16")
    case False
    then have "(r + i) div 16 = (r + 16) div 16" using i k by (simp add: div_add_self2) 
    then have "(r + i) div 16 div 256 = (r + 16) div 16 div 256" by simp
    then show ?thesis using False by (simp add: PAGE_SIZE_def div_mult2_eq [symmetric])
  qed simp
  then show "vm_translate vm v ((r + i) div PAGE_SIZE * PAGE_SIZE) = Some ((r + i) div PAGE_SIZE * PAGE_SIZE)"
    using assms(1) by (simp add: ident_def RSDP_V1_SIZE_def)
qed

lemma rsdp_check_spec:
  assumes ok: "vmm_ok vm" and i: "ident vm v r RSDP_V1_SIZE" and al: "r mod 16 = 0"
  shows "\<exists>ok v'. rsdp_check vm m r v = Some (ok, v') \<and> extends vm v v' \<and> (ok \<longrightarrow> rsdp_at vm m v' r)"
proof (cases "mem_bytes m r 8 = ACPI_RSDP_SIG")
  case True
  have sig: "rsdp_signature (view vm m v) r = Some (mem_bytes m r 8)"
    unfolding rsdp_signature_def using i by (intro ident_bytes ident_mono [OF i]) (simp add: RSDP_V1_SIZE_def)
  obtain ok1 v1 where c1: "checksum_ok vm m r RSDP_V1_SIZE v = Some (ok1, v1)" "extends vm v v1" "ok1 \<Longrightarrow> checksums m r RSDP_V1_SIZE"
    using checksum_ok_spec [OF ok] by blast
  have i1: "ident vm v1 r RSDP_V1_SIZE" using ident_extends [OF i c1(2)] .
  have rev: "rsdp_revision (view vm m v1) r = Some (le_at m (r + 15) 1)"
    unfolding rsdp_revision_def by (rule ident_field [OF i1]) (simp add: RSDP_V1_SIZE_def)
  have ln: "rsdp_length (view vm m v1) r = Some (le_at m (r + 20) 4)"
    unfolding rsdp_length_def by (rule ident_field [OF ident_block [OF i1 al]]) simp
  let ?n = "le_at m (r + 20) 4"
  obtain ok2 v2 where a2: "phys_range_accessible vm r ?n v1 = (ok2, v2)" by fastforce
  obtain ok3 v3 where c3: "checksum_ok vm m r ?n v2 = Some (ok3, v3)" "extends vm v2 v3" "ok3 \<Longrightarrow> ident vm v3 r ?n \<and> checksums m r ?n"
    using checksum_ok_spec [OF ok] by blast
  have e2: "extends vm v v2" using extends_trans [OF c1(2)] accessible_ident [OF ok a2] by blast
  have e3: "extends vm v v3" using extends_trans [OF e2 c3(2)] .
  consider "\<not> ok1" | "ok1" "\<not> 2 \<le> le_at m (r + 15) 1" | "ok1" "2 \<le> le_at m (r + 15) 1" "?n < RSDP_V2_SIZE \<or> 4096 < ?n"
    | "ok1" "2 \<le> le_at m (r + 15) 1" "RSDP_V2_SIZE \<le> ?n" "?n \<le> 4096" "\<not> ok2"
    | "ok1" "2 \<le> le_at m (r + 15) 1" "RSDP_V2_SIZE \<le> ?n" "?n \<le> 4096" "ok2" by linarith
  then show ?thesis
  proof cases
    case 5
    then have "rsdp_check vm m r v = Some (ok3, v3)" using True sig c1(1) rev ln a2 c3(1) by (simp add: rsdp_check_def)
    moreover have "rsdp_at vm m v3 r" if ok3
      using 5 True c1(3) c3(3) [OF that] ident_extends [OF i e3] by (simp add: rsdp_at_def)
    ultimately show ?thesis using e3 by blast
  qed (use True sig c1 rev ln a2 i1 e2 in \<open>auto simp: rsdp_check_def rsdp_at_def\<close>)
next
  case False
  have "rsdp_signature (view vm m v) r = Some (mem_bytes m r 8)"
    unfolding rsdp_signature_def by (intro ident_bytes ident_mono [OF i]) (simp add: RSDP_V1_SIZE_def)
  then show ?thesis using False by (auto simp: rsdp_check_def)
qed

lemma rsdp_probe_spec:
  assumes "vmm_ok vm" "p mod 16 = 0"
  shows "\<exists>ok v'. (let (ok, v) = phys_range_accessible vm p RSDP_V1_SIZE v in if \<not> ok then Some (False, v) else rsdp_check vm m p v) = Some (ok, v') \<and>
    extends vm v v' \<and> (ok \<longrightarrow> rsdp_at vm m v' p)"
proof -
  obtain ok v1 where a: "phys_range_accessible vm p RSDP_V1_SIZE v = (ok, v1)" by fastforce
  note acc = accessible_ident [OF assms(1) a]
  show ?thesis
  proof (cases ok)
    case True
    then obtain ok2 v2 where c: "rsdp_check vm m p v1 = Some (ok2, v2)" "extends vm v1 v2" "ok2 \<longrightarrow> rsdp_at vm m v2 p"
      using rsdp_check_spec [OF assms(1) _ assms(2), of v1 m] acc by blast
    have "extends vm v v2" using acc c(2) by (blast intro: extends_trans)
    then show ?thesis using True a c by simp
  qed (use a acc in auto)
qed

lemma rsdp_at_extends: "rsdp_at vm m v r \<Longrightarrow> extends vm v v' \<Longrightarrow> rsdp_at vm m v' r"
  by (auto simp: rsdp_at_def intro: ident_extends)

lemma scan_loop_spec:
  assumes "vmm_ok vm" "p mod 16 = 0"
  shows "\<exists>r v'. scan_loop vm m e p v = Some (r, v') \<and> extends vm v v' \<and> (r \<noteq> 0 \<longrightarrow> rsdp_at vm m v' r)"
  using assms
proof (induction vm m e p v rule: scan_loop.induct)
  case (1 vm m e p v)
  show ?case
  proof (cases "p + RSDP_V1_SIZE \<le> U64_MAX \<and> p + RSDP_V1_SIZE \<le> e")
    case False
    then show ?thesis by (auto simp: scan_loop.simps [of vm m e p v] add_overflow_def)
  next
    case True
    then have a: "add_overflow p RSDP_V1_SIZE = Some (p + RSDP_V1_SIZE)" "\<not> p + RSDP_V1_SIZE > e" by (simp_all add: add_overflow_def)
    obtain ok v1 where b: "(let (ok, v) = phys_range_accessible vm p RSDP_V1_SIZE v in if \<not> ok then Some (False, v) else rsdp_check vm m p v) = Some (ok, v1)"
        "extends vm v v1" "ok \<Longrightarrow> rsdp_at vm m v1 p"
      using rsdp_probe_spec [OF "1.prems"] by blast
    show ?thesis
    proof (cases "ok \<or> add_overflow p 16 = None")
      case True
      then show ?thesis using a b by (auto simp: scan_loop.simps [of vm m e p v])
    next
      case go: False
      then have n: "add_overflow p 16 = Some (p + 16)" by (auto simp: add_overflow_def split: if_splits)
      obtain r v' where c: "scan_loop vm m e (p + 16) v1 = Some (r, v')" "extends vm v1 v'" "r \<noteq> 0 \<longrightarrow> rsdp_at vm m v' r"
        using "1.IH" [OF a b(1) refl _ n "1.prems"(1)] go "1.prems"(2) by auto
      then show ?thesis using a b go n extends_trans [OF b(2) c(2)] by (simp add: scan_loop.simps [of vm m e p v])
    qed
  qed
qed

lemma scan_range_spec:
  assumes "vmm_ok vm" "start \<le> 0x100000"
  shows "\<exists>r v'. scan_rsdp_range vm m start e v = Some (r, v') \<and> extends vm v v' \<and> (r \<noteq> 0 \<longrightarrow> rsdp_at vm m v' r)"
proof -
  let ?p = "(start + 15) div 16 * 16"
  have "rabbitbone_align_up_u64_checked (of_nat start) (push_bit 4 1) = Some (of_nat ?p)"
    using align_up_spec [of 4 "of_nat start"] assms(2) by (simp add: unat_of_nat del: push_bit_of_1)
  then have "rabbitbone_align_up_u64_checked (of_nat start) 16 = Some (of_nat ?p)" by (simp add: push_bit_eq_mult)
  moreover have "unat (of_nat ?p :: u64) = ?p" using assms(2) by (intro unat_of_nat64) simp
  ultimately show ?thesis
    using scan_loop_spec [OF assms(1), of ?p m e v] by (simp add: scan_rsdp_range_def del: of_nat_mult)
qed

lemma validate_rsdp_spec:
  assumes "vmm_ok vm"
  shows "\<exists>r v'. validate_rsdp_at vm m a v = Some (r, v') \<and> extends vm v v' \<and> (r \<noteq> 0 \<longrightarrow> rsdp_at vm m v' r)"
proof (cases "a = 0 \<or> a mod 16 \<noteq> 0")
  case False
  then obtain ok v' where p: "(let (ok, v) = phys_range_accessible vm a RSDP_V1_SIZE v in if \<not> ok then Some (False, v) else rsdp_check vm m a v) = Some (ok, v')"
      "extends vm v v'" "ok \<longrightarrow> rsdp_at vm m v' a"
    using rsdp_probe_spec [OF assms, of a v m] by blast
  obtain ok1 v1 where q: "phys_range_accessible vm a RSDP_V1_SIZE v = (ok1, v1)" by fastforce
  have "validate_rsdp_at vm m a v = Some (if ok then a else 0, v')"
    using p(1) False by (cases ok1) (auto simp: validate_rsdp_at_def q)
  then show ?thesis using p by simp
qed (auto simp: validate_rsdp_at_def)

lemma find_rsdp_spec:
  assumes "vmm_ok vm" and z: "vm_translate vm v 0 \<noteq> None"
  shows "\<exists>r v'. find_rsdp vm m b v = Some (r, v') \<and> extends vm v v' \<and> (r \<noteq> 0 \<longrightarrow> rsdp_at vm m v' r)"
proof -
  obtain r1 v1 where b: "(if b \<noteq> 0 then validate_rsdp_at vm m b v else Some (0, v)) = Some (r1, v1)" "extends vm v v1" "r1 \<noteq> 0 \<longrightarrow> rsdp_at vm m v1 r1"
    using validate_rsdp_spec [OF assms(1), of m b v] by (cases "b = 0") auto
  have "vm_translate vm v1 0 \<noteq> None" using z spec [OF b(2) [unfolded extends_def], of 0] by auto
  then have "mapped (view vm m v1) 0x40e 2" by (auto simp: mapped_def view_def PAGE_SIZE_def less_2_cases_iff)
  then obtain seg where seg: "rd_le (view vm m v1) 0x40e 2 = Some seg" using rd_le_defined by blast
  let ?s = "if seg * 16 \<ge> 0x80000 \<and> seg * 16 < 0xa0000 then scan_rsdp_range vm m (seg * 16) (seg * 16 + 1024) v1 else Some (0, v1)"
  obtain r2 v2 where s: "?s = Some (r2, v2)" "extends vm v1 v2" "r2 \<noteq> 0 \<longrightarrow> rsdp_at vm m v2 r2"
    using scan_range_spec [OF assms(1), of "seg * 16" m "seg * 16 + 1024" v1] by (cases "seg * 16 \<ge> 0x80000 \<and> seg * 16 < 0xa0000") auto
  obtain r3 v3 where t: "scan_rsdp_range vm m 0xe0000 0x100000 v2 = Some (r3, v3)" "extends vm v2 v3" "r3 \<noteq> 0 \<longrightarrow> rsdp_at vm m v3 r3"
    using scan_range_spec [OF assms(1), of "0xe0000" m "0x100000" v2] by auto
  have run: "find_rsdp vm m b v = Some (if r1 \<noteq> 0 then (r1, v1) else if r2 \<noteq> 0 then (r2, v2) else (r3, v3))"
    using b(1) seg s(1) t(1) by (simp add: find_rsdp_def del: if_split_asm)
  have "extends vm v v2" "extends vm v v3" using extends_trans [OF b(2) s(2)] extends_trans [OF extends_trans [OF b(2) s(2)] t(2)] .
  then show ?thesis using run b s t by simp
qed

text \<open>A table whose checks hold, wholly readable.\<close>

definition sdt_at :: "'v vmm \<Rightarrow> (nat \<Rightarrow> u8) \<Rightarrow> 'v \<Rightarrow> nat \<Rightarrow> bool" where
  "sdt_at vm m v h = (h \<noteq> 0 \<and> SDT_HEADER_SIZE \<le> le_at m (h + 4) 4 \<and> le_at m (h + 4) 4 \<le> 1024 * 1024 \<and>
     ident vm v h (le_at m (h + 4) 4) \<and> checksums m h (le_at m (h + 4) 4))"

lemma sdt_at_extends: "sdt_at vm m v h \<Longrightarrow> extends vm v v' \<Longrightarrow> sdt_at vm m v' h"
  by (auto simp: sdt_at_def intro: ident_extends)

lemma sdt_field: "sdt_at vm m v h \<Longrightarrow> i + k \<le> le_at m (h + 4) 4 \<Longrightarrow> rd_le (view vm m v) (h + i) k = Some (le_at m (h + i) k)"
  by (auto simp: sdt_at_def intro: ident_field)

lemma sdt_length_at: "sdt_at vm m v h \<Longrightarrow> sdt_length (view vm m v) h = Some (le_at m (h + 4) 4)"
  unfolding sdt_length_def by (rule sdt_field) (auto simp: sdt_at_def SDT_HEADER_SIZE_def)

lemma sdt_signature_at: "sdt_at vm m v h \<Longrightarrow> sdt_signature (view vm m v) h = Some (mem_bytes m h 4)"
  unfolding sdt_signature_def sdt_at_def by (intro ident_bytes) (auto intro: ident_mono simp: SDT_HEADER_SIZE_def)

lemma valid_sdt_spec:
  assumes ok: "vmm_ok vm"
  shows "\<exists>ok v'. valid_sdt vm m h v = Some (ok, v') \<and> extends vm v v' \<and> (ok \<longrightarrow> sdt_at vm m v' h)"
proof (cases "h = 0")
  case False
  obtain ok1 v1 where a1: "phys_range_accessible vm h SDT_HEADER_SIZE v = (ok1, v1)" by fastforce
  note i1 = accessible_ident [OF ok a1]
  let ?n = "le_at m (h + 4) 4"
  have ln: "sdt_length (view vm m v1) h = Some ?n" if ok1
    unfolding sdt_length_def using i1 that by (intro ident_field [of vm v1 h SDT_HEADER_SIZE]) (auto simp: SDT_HEADER_SIZE_def)
  obtain ok2 v2 where a2: "phys_range_accessible vm h ?n v1 = (ok2, v2)" by fastforce
  obtain ok3 v3 where c3: "checksum_ok vm m h ?n v2 = Some (ok3, v3)" "extends vm v2 v3" "ok3 \<Longrightarrow> ident vm v3 h ?n \<and> checksums m h ?n"
    using checksum_ok_spec [OF ok] by blast
  have e1: "extends vm v v1" using i1 by simp
  have e: "extends vm v v1" "extends vm v v2" using e1 extends_trans [OF e1] accessible_ident [OF ok a2] by auto
  have e3: "extends vm v v3" using extends_trans [OF e(2) c3(2)] .
  consider "\<not> ok1" | "ok1" "?n < SDT_HEADER_SIZE \<or> 1024 * 1024 < ?n" | "ok1" "SDT_HEADER_SIZE \<le> ?n" "?n \<le> 1024 * 1024" "\<not> ok2"
    | "ok1" "SDT_HEADER_SIZE \<le> ?n" "?n \<le> 1024 * 1024" "ok2" by linarith
  then show ?thesis
  proof cases
    case 4
    then have "valid_sdt vm m h v = Some (ok3, v3)" using False a1 ln a2 c3(1) by (simp add: valid_sdt_def)
    then show ?thesis using e3 c3(3) False 4 by (auto simp: sdt_at_def)
  qed (use False a1 ln a2 e in \<open>auto simp: valid_sdt_def\<close>)
qed (auto simp: valid_sdt_def)

definition tables_ok :: "'v vmm \<Rightarrow> (nat \<Rightarrow> u8) \<Rightarrow> 'v \<Rightarrow> acpi_t \<Rightarrow> bool" where
  "tables_ok vm m v s = (length (acpi_tables s) = ACPI_TABLES_MAX \<and> acpi_table_count s \<le> ACPI_TABLES_MAX \<and>
     (\<forall>i < acpi_table_count s. sdt_at vm m v (acpi_tables s ! i)))"

lemma tables_ok_extends: "tables_ok vm m v s \<Longrightarrow> extends vm v v' \<Longrightarrow> tables_ok vm m v' s"
  by (auto simp: tables_ok_def intro: sdt_at_extends)

lemma tables_ok_info [simp]: "tables_ok vm m v (s\<lparr>acpi_info := a\<rparr>) = tables_ok vm m v s"
  by (simp add: tables_ok_def)

lemma add_table_spec:
  assumes "vmm_ok vm" "tables_ok vm m v s"
  shows "\<exists>s' v'. add_table vm m h (s, v) = Some (s', v') \<and> extends vm v v' \<and> tables_ok vm m v' s' \<and> acpi_info s' = acpi_info s"
proof -
  obtain ok v' where a: "valid_sdt vm m h v = Some (ok, v')" "extends vm v v'" "ok \<longrightarrow> sdt_at vm m v' h"
    using valid_sdt_spec [OF assms(1)] by blast
  have t: "tables_ok vm m v' s" using tables_ok_extends [OF assms(2) a(2)] .
  show ?thesis
  proof (cases "\<not> ok \<or> acpi_table_count s \<ge> ACPI_TABLES_MAX")
    case True
    then show ?thesis using a t by (simp add: add_table_def)
  next
    case False
    then have "tables_ok vm m v' (s\<lparr>acpi_tables := (acpi_tables s)[acpi_table_count s := h], acpi_table_count := acpi_table_count s + 1\<rparr>)"
      using t a(3) by (auto simp: tables_ok_def nth_list_update less_Suc_eq)
    then show ?thesis using False a t by (simp add: add_table_def tables_ok_def)
  qed
qed

lemma root_entries_spec:
  assumes "vmm_ok vm" "ident vm v p (w * n)" "tables_ok vm m v s"
  shows "\<exists>s' v'. root_entries vm m w p n (s, v) = Some (s', v') \<and> extends vm v v' \<and> tables_ok vm m v' s' \<and> acpi_info s' = acpi_info s"
  using assms(2,3)
proof (induction n arbitrary: p s v)
  case (Suc n)
  have r: "rd_le (view vm m v) p w = Some (le_at m p w)" using Suc.prems(1) by (intro ident_le) (auto intro: ident_mono)
  have rest: "ident vm v (p + w) (w * n)" using ident_sub [OF Suc.prems(1), of w "w * n"] by simp
  obtain s1 v1 where a: "(if le_at m p w \<noteq> 0 then add_table vm m (le_at m p w) (s, v) else Some (s, v)) = Some (s1, v1)"
      "extends vm v v1" "tables_ok vm m v1 s1" "acpi_info s1 = acpi_info s"
    using add_table_spec [OF assms(1) Suc.prems(2), of "le_at m p w"] Suc.prems(2) by (cases "le_at m p w = 0") auto
  obtain s2 v2 where b: "root_entries vm m w (p + w) n (s1, v1) = Some (s2, v2)" "extends vm v1 v2" "tables_ok vm m v2 s2" "acpi_info s2 = acpi_info s1"
    using Suc.IH [OF ident_extends [OF rest a(2)] a(3)] by blast
  show ?case using r a b extends_trans [OF a(2) b(2)] by simp
qed simp

lemma parse_root_spec:
  assumes "vmm_ok vm" "tables_ok vm m v s"
  shows "\<exists>s' v'. parse_root_table vm m root x (s, v) = Some (s', v') \<and> extends vm v v' \<and> tables_ok vm m v' s' \<and>
    (s' = s \<or> sdt_at vm m v' root \<and> acpi_info s' = (acpi_info s)\<lparr>root_table := root, ac_xsdt := x, table_count := acpi_table_count s'\<rparr>)"
proof -
  obtain ok v1 where a: "valid_sdt vm m root v = Some (ok, v1)" "extends vm v v1" "ok \<longrightarrow> sdt_at vm m v1 root"
    using valid_sdt_spec [OF assms(1)] by blast
  have t: "tables_ok vm m v1 s" using tables_ok_extends [OF assms(2) a(2)] .
  show ?thesis
  proof (cases ok)
    case True
    then have sd: "sdt_at vm m v1 root" using a(3) by simp
    let ?n = "le_at m (root + 4) 4" and ?w = "if x then 8 else 4 :: nat"
    let ?s = "s\<lparr>acpi_info := (acpi_info s)\<lparr>root_table := root, ac_xsdt := x\<rparr>\<rparr>"
    have n: "SDT_HEADER_SIZE \<le> ?n" "ident vm v1 root ?n" using sd by (simp_all add: sdt_at_def)
    have "SDT_HEADER_SIZE + ?w * ((?n - SDT_HEADER_SIZE) div ?w) \<le> ?n" using n(1) times_div_less_eq_dividend [of ?w "?n - SDT_HEADER_SIZE"] by linarith
    then have "ident vm v1 (root + SDT_HEADER_SIZE) (?w * ((?n - SDT_HEADER_SIZE) div ?w))" using ident_sub [OF n(2)] by blast
    from root_entries_spec [OF assms(1) this, of m ?s] t
    obtain s2 v2 where b: "root_entries vm m ?w (root + SDT_HEADER_SIZE) ((?n - SDT_HEADER_SIZE) div ?w) (?s, v1) = Some (s2, v2)" "extends vm v1 v2"
        "tables_ok vm m v2 s2" "acpi_info s2 = (acpi_info s)\<lparr>root_table := root, ac_xsdt := x\<rparr>" by auto
    have "parse_root_table vm m root x (s, v) = Some (s2\<lparr>acpi_info := (acpi_info s2)\<lparr>table_count := acpi_table_count s2\<rparr>\<rparr>, v2)"
      using True a(1) sdt_length_at [OF sd] n(1) b(1) by (simp add: parse_root_table_def Let_def)
    then show ?thesis using b sdt_at_extends [OF sd b(2)] extends_trans [OF a(2) b(2)] by simp
  qed (use a t in \<open>simp add: parse_root_table_def\<close>)
qed

lemma find_table_spec:
  assumes "tables_ok vm m v s" "i + n \<le> acpi_table_count s"
  shows "\<exists>h. find_table (view vm m v) s sig i n = Some h \<and> (h \<noteq> 0 \<longrightarrow> sdt_at vm m v h \<and> sig_eq (mem_bytes m h 4) sig)"
  using assms(2)
proof (induction n arbitrary: i)
  case (Suc n)
  have h: "arr_get (acpi_tables s) i = Some (acpi_tables s ! i)" "sdt_at vm m v (acpi_tables s ! i)"
    using assms(1) Suc.prems by (auto simp: tables_ok_def)
  then show ?case using Suc.IH [of "Suc i"] Suc.prems sdt_signature_at [OF h(2)] by simp
qed simp

lemma find_table_at:
  assumes "tables_ok vm m v s"
  shows "\<exists>h. acpi_find_table (view vm m v) s sig = Some h \<and> (h \<noteq> 0 \<longrightarrow> sdt_at vm m v h \<and> sig_eq (mem_bytes m h 4) sig)"
  unfolding acpi_find_table_def by (rule find_table_spec [OF assms]) simp

section \<open>The processor table\<close>

definition cpu_list :: "acpi_info_t \<Rightarrow> acpi_cpu_info_t list" where
  "cpu_list a = take (cpu_count a) (cpus a)"

definition info_ok :: "acpi_info_t \<Rightarrow> bool" where
  "info_ok a = (length (cpus a) = ACPI_MAX_CPUS \<and> cpu_count a \<le> ACPI_MAX_CPUS \<and>
     length (ioapics a) = ACPI_MAX_IOAPICS \<and> ioapic_count a \<le> ACPI_MAX_IOAPICS \<and>
     length (isos a) = ACPI_MAX_ISO \<and> iso_count a \<le> ACPI_MAX_ISO \<and>
     distinct (map cpu_apic_id (cpu_list a)) \<and> enabled_cpu_count a = length (filter cpu_enabled (cpu_list a)))"

text \<open>The fields that the tables of processors and timers do not touch.\<close>

definition keeps :: "acpi_info_t \<Rightarrow> acpi_info_t \<Rightarrow> bool" where
  "keeps a b = (table_count b = table_count a \<and> ac_found b = ac_found a \<and> ac_rsdp b = ac_rsdp a \<and> root_table b = root_table a)"

lemma filter_update:
  "j < length xs \<Longrightarrow> length (filter P (xs[j := y])) + of_bool (P (xs ! j)) = length (filter P xs) + of_bool (P y)"
proof (induction xs arbitrary: j)
  case (Cons x xs)
  then show ?case by (cases j) auto
qed simp

lemma find_cpu_spec:
  "i + n \<le> length cs \<Longrightarrow> \<exists>r. find_cpu cs key k i n = Some r \<and>
     (case r of None \<Rightarrow> k \<notin> key ` set (take n (drop i cs)) | Some j \<Rightarrow> i \<le> j \<and> j < i + n \<and> key (cs ! j) = k)"
proof (induction n arbitrary: i)
  case (Suc n)
  have d: "take (Suc n) (drop i cs) = cs ! i # take n (drop (Suc i) cs)" using Suc.prems by (simp add: Cons_nth_drop_Suc [symmetric])
  obtain r where r: "find_cpu cs key k (Suc i) n = Some r"
      "case r of None \<Rightarrow> k \<notin> key ` set (take n (drop (Suc i) cs)) | Some j \<Rightarrow> Suc i \<le> j \<and> j < Suc i + n \<and> key (cs ! j) = k"
    using Suc.IH [of "Suc i"] Suc.prems by auto
  show ?case using Suc.prems r d by (auto split: option.splits)
qed simp

lemma enabled_pos:
  assumes "info_ok a" "j < cpu_count a" "cpu_enabled (cpus a ! j)"
  shows "0 < enabled_cpu_count a"
proof -
  have "j < length (cpu_list a)" "cpu_list a ! j = cpus a ! j" using assms(1,2) by (simp_all add: info_ok_def cpu_list_def)
  then have "cpus a ! j \<in> set (filter cpu_enabled (cpu_list a))" using assms(3) nth_mem [of j "cpu_list a"] by simp
  then show ?thesis using assms(1) length_pos_if_in_set by (fastforce simp: info_ok_def)
qed

lemma cpu_slot_spec:
  assumes "info_ok a"
  shows "(cpu_slot u i a = Some None) \<or>
    (\<exists>j e. cpu_slot u i a = Some (Some (j, a\<lparr>enabled_cpu_count := e\<rparr>)) \<and> j < cpu_count a \<and>
       e = enabled_cpu_count a - of_bool (cpu_enabled (cpus a ! j)) \<and>
       (cpu_apic_id (cpus a ! j) = i \<or> i \<notin> cpu_apic_id ` set (cpu_list a))) \<or>
    cpu_slot u i a = Some (Some (cpu_count a, a\<lparr>cpus := (cpus a)[cpu_count a := zero_cpu], cpu_count := cpu_count a + 1\<rparr>)) \<and>
       cpu_count a < ACPI_MAX_CPUS \<and> i \<notin> cpu_apic_id ` set (cpu_list a)"
proof -
  have len: "cpu_count a \<le> length (cpus a)" using assms by (simp add: info_ok_def)
  obtain r1 where r1: "acpi_find_cpu_by_apic_id a i = Some r1"
      "case r1 of None \<Rightarrow> i \<notin> cpu_apic_id ` set (cpu_list a) | Some j \<Rightarrow> j < cpu_count a \<and> cpu_apic_id (cpus a ! j) = i"
    using find_cpu_spec [of 0 "cpu_count a" "cpus a" cpu_apic_id i] len
    by (auto simp: acpi_find_cpu_by_apic_id_def cpu_list_def split: option.splits)
  obtain r2 where r2: "acpi_find_cpu_by_uid a u = Some r2" "case r2 of None \<Rightarrow> True | Some j \<Rightarrow> j < cpu_count a"
    using find_cpu_spec [of 0 "cpu_count a" "cpus a" cpu_acpi_id u] len by (auto simp: acpi_find_cpu_by_uid_def split: option.splits)
  have dec: "(enabled_cpu_count a + 0xffffffff) mod 0x100000000 = enabled_cpu_count a - 1" if j: "j < cpu_count a" "cpu_enabled (cpus a ! j)" for j
  proof -
    have "0 < enabled_cpu_count a" by (rule enabled_pos [OF assms j])
    moreover have "enabled_cpu_count a \<le> 16"
      using assms le_trans [OF length_filter_le [of cpu_enabled "cpu_list a"]] by (simp add: info_ok_def cpu_list_def ACPI_MAX_CPUS_def)
    ultimately show ?thesis by (cases "enabled_cpu_count a") simp_all
  qed
  show ?thesis
  proof (cases "if r1 = None then r2 else r1")
    case None
    then have n: "r1 = None" "r2 = None" by (auto split: if_splits)
    show ?thesis
    proof (cases "cpu_count a \<ge> ACPI_MAX_CPUS")
      case True
      then have "cpu_slot u i a = Some None" using r1(1) r2(1) n by (simp add: cpu_slot_def)
      then show ?thesis by (rule disjI1)
    next
      case False
      then have "cpu_slot u i a = Some (Some (cpu_count a, a\<lparr>cpus := (cpus a)[cpu_count a := zero_cpu], cpu_count := cpu_count a + 1\<rparr>))"
        using r1(1) r2(1) n assms by (simp add: cpu_slot_def info_ok_def)
      then show ?thesis using False r1(2) n by simp
    qed
  next
    case (Some j)
    then have j: "j < cpu_count a" "cpu_apic_id (cpus a ! j) = i \<or> i \<notin> cpu_apic_id ` set (cpu_list a)"
      using r1(2) r2(2) by (auto split: if_splits)
    have "cpu_slot u i a = Some (Some (j, a\<lparr>enabled_cpu_count := enabled_cpu_count a - of_bool (cpu_enabled (cpus a ! j))\<rparr>))"
      using r1(1) r2(1) Some j(1) len dec [OF j(1)] by (cases "cpu_enabled (cpus a ! j)"; cases "r1 = None") (simp_all add: cpu_slot_def)
    then show ?thesis using j by - (rule disjI2, rule disjI1, rule exI [of _ j], rule exI, rule conjI, assumption, simp)
  qed
qed

lemma distinct_map_update:
  assumes "distinct (map f xs)" "j < length xs" "f y = f (xs ! j) \<or> f y \<notin> f ` set xs"
  shows "distinct (map f (xs[j := y]))"
proof -
  have "f y \<notin> set (map f xs) - {map f xs ! j}" using assms(2,3) by auto
  then show ?thesis using assms(1,2) distinct_list_update [of "map f xs" "f y" j] by (simp add: map_update)
qed

lemma record_cpu_spec:
  assumes "info_ok a"
  shows "\<exists>b. acpi_record_madt_cpu u i f x a = Some b \<and> info_ok b \<and> keeps a b"
proof -
  have len: "cpu_count a \<le> length (cpus a)" "length (cpus a) = 16" using assms by (simp_all add: info_ok_def ACPI_MAX_CPUS_def)
  have cnt: "length (filter cpu_enabled (cpu_list b)) \<le> cpu_count b" for b
    using le_trans [OF length_filter_le [of cpu_enabled "cpu_list b"]] by (simp add: cpu_list_def)
  let ?c = "cpu_update u i f x"
  have c: "cpu_apic_id (?c c) = cpu_apic_id c \<or> cpu_apic_id (?c c) = i" for c by (simp add: cpu_update_def Let_def)
  consider "cpu_slot u i a = Some None"
    | (old) j where "cpu_slot u i a = Some (Some (j, a\<lparr>enabled_cpu_count := enabled_cpu_count a - of_bool (cpu_enabled (cpus a ! j))\<rparr>))"
        "j < cpu_count a" "cpu_apic_id (cpus a ! j) = i \<or> i \<notin> cpu_apic_id ` set (cpu_list a)"
    | (new) "cpu_slot u i a = Some (Some (cpu_count a, a\<lparr>cpus := (cpus a)[cpu_count a := zero_cpu], cpu_count := cpu_count a + 1\<rparr>))"
        "cpu_count a < ACPI_MAX_CPUS" "i \<notin> cpu_apic_id ` set (cpu_list a)"
    using cpu_slot_spec [OF assms, of u i] by blast
  then show ?thesis
  proof cases
    case 1
    then show ?thesis using assms by (simp add: acpi_record_madt_cpu_def keeps_def)
  next
    case old
    let ?d = "?c (cpus a ! j)"
    have jl: "j < length (cpu_list a)" "cpu_list a ! j = cpus a ! j" using old(2) len(1) by (simp_all add: cpu_list_def)
    let ?e = "enabled_cpu_count a - of_bool (cpu_enabled (cpus a ! j)) + of_bool (cpu_enabled ?d)"
    have e: "?e = length (filter cpu_enabled ((cpu_list a)[j := ?d]))" 
    proof -
      show ?thesis using filter_update [OF jl(1), of cpu_enabled ?d] assms jl(2) enabled_pos [OF assms old(2)]
        by (cases "cpu_enabled (cpus a ! j)"; cases "cpu_enabled ?d") (auto simp: info_ok_def)
    qed
    have "length (filter cpu_enabled ((cpu_list a)[j := ?d])) \<le> 16"
      using le_trans [OF length_filter_le [of cpu_enabled "(cpu_list a)[j := ?d]"]] len by (simp add: cpu_list_def)
    then have small: "?e mod 0x100000000 = ?e" unfolding e by simp
    have run: "acpi_record_madt_cpu u i f x a = Some (a\<lparr>enabled_cpu_count := ?e, cpus := (cpus a)[j := ?d]\<rparr>)"
      using old len(1) small by (cases "cpu_enabled ?d") (simp_all add: acpi_record_madt_cpu_def Let_def)
    have "distinct (map cpu_apic_id ((cpu_list a)[j := ?d]))"
      using assms jl old(3) c [of "cpus a ! j"] by (intro distinct_map_update) (auto simp: info_ok_def)
    then show ?thesis using run assms e by (simp add: info_ok_def cpu_list_def take_update_swap keeps_def)
  next
    case new
    let ?d = "?c zero_cpu"
    have d: "cpu_apic_id ?d = i" by (simp add: cpu_update_def zero_cpu_def)
    let ?b = "a\<lparr>enabled_cpu_count := enabled_cpu_count a + of_bool (cpu_enabled ?d), cpus := (cpus a)[cpu_count a := ?d], cpu_count := cpu_count a + 1\<rparr>"
    have cl: "cpu_list ?b = cpu_list a @ [?d]" using new(2) len by (simp add: cpu_list_def take_Suc_conv_app_nth ACPI_MAX_CPUS_def)
    have "enabled_cpu_count a \<le> 16" using cnt [of a] assms len by (simp add: info_ok_def)
    then have run: "acpi_record_madt_cpu u i f x a = Some ?b"
      using new len by (cases "cpu_enabled ?d") (simp_all add: acpi_record_madt_cpu_def Let_def ACPI_MAX_CPUS_def)
    have "info_ok ?b" using assms new(2,3) cl d by (simp add: info_ok_def)
    then show ?thesis using run by (simp add: keeps_def)
  qed
qed

lemma madt_entry_spec:
  assumes "info_ok a" "ident vm v p len"
  shows "\<exists>b. madt_entry (view vm m v) ty len p a = Some b \<and> info_ok b \<and> keeps a b"
proof -
  note rd = ident_field [OF assms(2), of _ _ m]
  have sz: "MADT_LAPIC_SIZE = 8" "MADT_IOAPIC_SIZE = 12" "MADT_ISO_SIZE = 10" "MADT_LAPIC_OVERRIDE_SIZE = 12" "MADT_X2APIC_SIZE = 16"
    by (simp_all add: MADT_LAPIC_SIZE_def MADT_IOAPIC_SIZE_def MADT_ISO_SIZE_def MADT_LAPIC_OVERRIDE_SIZE_def MADT_X2APIC_SIZE_def)
  have l: "\<exists>e. ld_lapic (view vm m v) p = Some e" if "8 \<le> len" using that by (simp add: ld_lapic_def rd del: rd_le.simps add_2_eq_Suc')
  have i: "\<exists>e. ld_ioapic (view vm m v) p = Some e" if "12 \<le> len" using that by (simp add: ld_ioapic_def rd del: rd_le.simps add_2_eq_Suc')
  have s: "\<exists>e. ld_iso (view vm m v) p = Some e" if "10 \<le> len" using that by (simp add: ld_iso_def rd del: rd_le.simps add_2_eq_Suc')
  have o': "\<exists>e. override_lapic_address (view vm m v) p = Some e" if "12 \<le> len" using that by (simp add: override_lapic_address_def rd del: rd_le.simps add_2_eq_Suc')
  have x: "\<exists>e. ld_x2apic (view vm m v) p = Some e" if "16 \<le> len" using that by (simp add: ld_x2apic_def rd del: rd_le.simps add_2_eq_Suc')
  consider (lapic) "ty = 0" "8 \<le> len" | (ioapic) "ty = 1" "12 \<le> len" | (iso) "ty = 2" "10 \<le> len" | (ovr) "ty = 5" "12 \<le> len" | (x2) "ty = 9" "16 \<le> len"
    | "madt_entry (view vm m v) ty len p a = Some a"
    unfolding madt_entry_def sz by fastforce
  then show ?thesis
  proof cases
    case lapic
    then show ?thesis using l record_cpu_spec [OF assms(1)] by (auto simp: madt_entry_def sz)
  next
    case ioapic
    then obtain e where "ld_ioapic (view vm m v) p = Some e" using i by blast
    then show ?thesis using ioapic assms(1) by (auto simp: madt_entry_def sz info_ok_def cpu_list_def keeps_def)
  next
    case iso
    then obtain e where "ld_iso (view vm m v) p = Some e" using s by blast
    then show ?thesis using iso assms(1) by (auto simp: madt_entry_def sz info_ok_def cpu_list_def keeps_def)
  next
    case ovr
    then obtain e where "override_lapic_address (view vm m v) p = Some e" using o' by blast
    then show ?thesis using ovr assms(1) by (auto simp: madt_entry_def sz info_ok_def cpu_list_def keeps_def)
  next
    case x2
    then show ?thesis using x record_cpu_spec [OF assms(1)] by (auto simp: madt_entry_def sz)
  qed (use assms(1) in \<open>simp add: keeps_def\<close>)
qed

lemma madt_loop_spec:
  assumes "info_ok a" "p \<le> e" "ident vm v p (e - p)"
  shows "\<exists>b. madt_loop (view vm m v) e p a = Some b \<and> info_ok b \<and> keeps a b"
  using assms
proof (induction "view vm m v" e p a rule: madt_loop.induct)
  case (1 e p a)
  show ?case
  proof (cases "acpi_span_has p e MADT_ENTRY_HEADER_SIZE")
    case True
    then have two: "2 \<le> e - p" by (simp add: acpi_span_has_def MADT_ENTRY_HEADER_SIZE_def)
    let ?n = "le_at m (p + 1) 1"
    have n: "entry_length (view vm m v) p = Some ?n" "entry_type (view vm m v) p = Some (le_at m p 1)"
      unfolding entry_length_def entry_type_def using ident_field [OF "1.prems"(3), of 1 1] ident_field [OF "1.prems"(3), of 0 1] two by auto
    show ?thesis
    proof (cases "?n < MADT_ENTRY_HEADER_SIZE \<or> \<not> acpi_span_has p e ?n")
      case False
      then have f: "2 \<le> ?n" "?n \<le> e - p" by (simp_all add: acpi_span_has_def MADT_ENTRY_HEADER_SIZE_def)
      obtain b where b: "madt_entry (view vm m v) (le_at m p 1) ?n p a = Some b" "info_ok b" "keeps a b"
        using madt_entry_spec [OF "1.prems"(1) ident_mono [OF "1.prems"(3) f(2)]] by blast
      have "ident vm v (p + ?n) (e - (p + ?n))" using ident_sub [OF "1.prems"(3), of ?n "e - (p + ?n)"] f by simp
      moreover have "p + ?n \<le> e" using f(2) "1.prems"(2) by linarith
      ultimately obtain c where "madt_loop (view vm m v) e (p + ?n) b = Some c" "info_ok c" "keeps b c"
        using "1.hyps" [OF _ n(1) False n(2) b(1,2)] True by blast
      then show ?thesis using True n False b by (simp add: madt_loop.simps [of _ e p a] keeps_def)
    qed (use True n "1.prems"(1) in \<open>simp add: madt_loop.simps [of _ e p a] keeps_def\<close>)
  qed (use "1.prems"(1) in \<open>simp add: madt_loop.simps [of _ e p a] keeps_def\<close>)
qed

lemma parse_madt_spec:
  assumes "tables_ok vm m v s" "info_ok (acpi_info s)"
  shows "\<exists>s'. parse_madt (view vm m v) s = Some s' \<and> tables_ok vm m v s' \<and> info_ok (acpi_info s') \<and>
     acpi_table_count s' = acpi_table_count s \<and> keeps (acpi_info s) (acpi_info s')"
proof -
  obtain t where t: "acpi_find_table (view vm m v) s (map of_char ''APIC'') = Some t" "t \<noteq> 0 \<longrightarrow> sdt_at vm m v t"
    using find_table_at [OF assms(1)] by blast
  let ?n = "le_at m (t + 4) 4"
  show ?thesis
  proof (cases "t = 0 \<or> ?n < MADT_SIZE")
    case True
    then show ?thesis using t assms sdt_length_at [of vm m v t] by (auto simp: parse_madt_def keeps_def)
  next
    case False
    then have sd: "sdt_at vm m v t" "MADT_SIZE \<le> ?n" using t(2) by simp_all
    have "ident vm v (t + MADT_SIZE) (t + ?n - (t + MADT_SIZE))" using sd ident_sub [of vm v t ?n MADT_SIZE] by (simp add: sdt_at_def)
    moreover have "info_ok ((acpi_info s)\<lparr>madt_found := True, lapic_address := le_at m (t + 36) 4\<rparr>)" using assms(2) by (simp add: info_ok_def cpu_list_def)
    ultimately obtain b where b: "madt_loop (view vm m v) (t + ?n) (t + MADT_SIZE) ((acpi_info s)\<lparr>madt_found := True, lapic_address := le_at m (t + 36) 4\<rparr>) = Some b"
        "info_ok b" "keeps ((acpi_info s)\<lparr>madt_found := True, lapic_address := le_at m (t + 36) 4\<rparr>) b"
      using madt_loop_spec [of _ "t + MADT_SIZE" "t + ?n" vm v m] sd(2) by fastforce
    have "madt_lapic_address (view vm m v) t = Some (le_at m (t + 36) 4)"
      unfolding madt_lapic_address_def by (rule sdt_field [OF sd(1)]) (use sd(2) in \<open>simp add: MADT_SIZE_def\<close>)
    then show ?thesis using False t(1) b sdt_length_at [OF sd(1)] assms(1) by (simp add: parse_madt_def keeps_def)
  qed
qed

lemma parse_hpet_spec:
  assumes "tables_ok vm m v s" "info_ok (acpi_info s)"
  shows "\<exists>s'. parse_hpet (view vm m v) s = Some s' \<and> tables_ok vm m v s' \<and> info_ok (acpi_info s') \<and>
     acpi_table_count s' = acpi_table_count s \<and> keeps (acpi_info s) (acpi_info s')"
proof -
  obtain h where h: "acpi_find_table (view vm m v) s (map of_char ''HPET'') = Some h" "h \<noteq> 0 \<longrightarrow> sdt_at vm m v h"
    using find_table_at [OF assms(1)] by blast
  show ?thesis
  proof (cases "h = 0 \<or> le_at m (h + 4) 4 < HPET_TABLE_SIZE")
    case True
    then show ?thesis using h assms sdt_length_at [of vm m v h] by (auto simp: parse_hpet_def keeps_def)
  next
    case False
    then have sd: "sdt_at vm m v h" "56 \<le> le_at m (h + 4) 4" using h(2) by (simp_all add: HPET_TABLE_SIZE_def)
    have "hpet_address_space_id (view vm m v) h = Some (le_at m (h + 40) 1)" "hpet_base (view vm m v) h = Some (le_at m (h + 44) 8)"
      "hpet_min_tick_field (view vm m v) h = Some (le_at m (h + 53) 2)"
      unfolding hpet_address_space_id_def hpet_base_def hpet_min_tick_field_def by (rule sdt_field [OF sd(1)]; use sd(2) in simp)+
    then show ?thesis using False h(1) sdt_length_at [OF sd(1)] assms by (simp add: parse_hpet_def info_ok_def cpu_list_def keeps_def)
  qed
qed

section \<open>Initialisation\<close>

text \<open>What the discovery leaves: found structures that passed their checks, in memory that stays readable.\<close>

definition acpi_ok :: "'v vmm \<Rightarrow> (nat \<Rightarrow> u8) \<Rightarrow> 'v \<Rightarrow> acpi_t \<Rightarrow> bool" where
  "acpi_ok vm m v s = (tables_ok vm m v s \<and> info_ok (acpi_info s) \<and> table_count (acpi_info s) = acpi_table_count s \<and>
     ac_found (acpi_info s) = (ac_rsdp (acpi_info s) \<noteq> 0) \<and>
     (ac_rsdp (acpi_info s) \<noteq> 0 \<longrightarrow> rsdp_at vm m v (ac_rsdp (acpi_info s))) \<and>
     (root_table (acpi_info s) \<noteq> 0 \<longrightarrow> sdt_at vm m v (root_table (acpi_info s))))"

lemma zero_info_ok: "info_ok (zero_acpi_info\<lparr>ac_found := f, ac_rsdp := r\<rparr>)"
  by (simp add: info_ok_def zero_acpi_info_def cpu_list_def)

lemma acpi_init_spec:
  assumes vm: "vmm_ok vm" and z: "vm_translate vm v 0 \<noteq> None"
  shows "\<exists>s v' ls. acpi_init vm m b v = Some (s, v', ls) \<and> extends vm v v' \<and> acpi_ok vm m v' s"
proof -
  let ?s = "\<lparr>acpi_info = zero_acpi_info, acpi_tables = replicate ACPI_TABLES_MAX 0, acpi_table_count = 0\<rparr>"
  obtain r v1 where r: "find_rsdp vm m b v = Some (r, v1)" "extends vm v v1" "r \<noteq> 0 \<longrightarrow> rsdp_at vm m v1 r"
    using find_rsdp_spec [OF assms] by blast
  show ?thesis
  proof (cases "r = 0")
    case True
    have "acpi_ok vm m v1 ?s"
      using zero_info_ok [where f = False and r = 0] by (simp add: acpi_ok_def tables_ok_def) (simp add: zero_acpi_info_def)
    then show ?thesis using True r by (simp add: acpi_init_def)
  next
    case False
    then have at: "rsdp_at vm m v1 r" using r(3) by simp
    then have i: "ident vm v1 r RSDP_V1_SIZE" by (simp add: rsdp_at_def)
    let ?rev = "le_at m (r + 15) 1"
    have rev: "rsdp_revision (view vm m v1) r = Some ?rev"
      unfolding rsdp_revision_def by (rule ident_field [OF i]) (simp add: RSDP_V1_SIZE_def)
    define x where "x = (if ?rev \<ge> 2 then le_at m (r + 24) 8 else 0)"
    have x: "(if ?rev \<ge> 2 then rsdp_xsdt_address (view vm m v1) r else Some 0) = Some x"
    proof (cases "?rev \<ge> 2")
      case True
      then have "ident vm v1 r (le_at m (r + 20) 4)" "36 \<le> le_at m (r + 20) 4" using at by (simp_all add: rsdp_at_def RSDP_V2_SIZE_def)
      then show ?thesis unfolding rsdp_xsdt_address_def x_def using True ident_field [of vm v1 r "le_at m (r + 20) 4" 24 8 m] by simp
    qed (simp add: x_def)
    obtain ok v2 where y: "(if x \<noteq> 0 then do { (ok, v) \<leftarrow> valid_sdt vm m x v1; Some (if ok then x else 0, ok, v) } else Some (0, False, v1)) =
        Some (if ok then x else 0, ok, v2)" "extends vm v1 v2" "ok \<longrightarrow> sdt_at vm m v2 x"
    proof (cases "x = 0")
      case True
      then show ?thesis by (intro that [of False v1]) simp_all
    next
      case False
      then show ?thesis using valid_sdt_spec [OF vm, of m x v1] that by auto
    qed
    let ?x = "if ok then x else 0"
    have rs: "rsdp_rsdt_address (view vm m v2) r = Some (le_at m (r + 16) 4)"
      unfolding rsdp_rsdt_address_def by (rule ident_field [OF ident_extends [OF i y(2)]]) (simp add: RSDP_V1_SIZE_def)
    define root where "root = (if ?x = 0 then le_at m (r + 16) 4 else ?x)"
    let ?t = "?s\<lparr>acpi_info := (acpi_info ?s)\<lparr>ac_found := True, ac_rsdp := r\<rparr>\<rparr>"
    have "tables_ok vm m v2 ?t" by (simp add: tables_ok_def)
    then obtain s3 v3 where p: "parse_root_table vm m root ok (?t, v2) = Some (s3, v3)" "extends vm v2 v3" "tables_ok vm m v3 s3"
        "s3 = ?t \<or> sdt_at vm m v3 root \<and> acpi_info s3 = (acpi_info ?t)\<lparr>root_table := root, ac_xsdt := ok, table_count := acpi_table_count s3\<rparr>"
      using parse_root_spec [OF vm] by blast
    have i3: "info_ok (acpi_info s3)" "table_count (acpi_info s3) = acpi_table_count s3" "ac_found (acpi_info s3)" "ac_rsdp (acpi_info s3) = r"
        "root_table (acpi_info s3) \<noteq> 0 \<longrightarrow> sdt_at vm m v3 (root_table (acpi_info s3))"
      using p(4) zero_info_ok [where f = True and r = r] by (auto simp: info_ok_def cpu_list_def zero_acpi_info_def)
    obtain s4 where s4: "parse_madt (view vm m v3) s3 = Some s4" "tables_ok vm m v3 s4" "info_ok (acpi_info s4)"
        "acpi_table_count s4 = acpi_table_count s3" "keeps (acpi_info s3) (acpi_info s4)"
      using parse_madt_spec [OF p(3) i3(1)] by blast
    obtain s5 where s5: "parse_hpet (view vm m v3) s4 = Some s5" "tables_ok vm m v3 s5" "info_ok (acpi_info s5)"
        "acpi_table_count s5 = acpi_table_count s4" "keeps (acpi_info s4) (acpi_info s5)"
      using parse_hpet_spec [OF s4(2,3)] by blast
    have e: "extends vm v1 v3" "extends vm v v3" using extends_trans [OF y(2) p(2)] extends_trans [OF r(2)] by blast+
    have ok5: "acpi_ok vm m v3 s5"
      unfolding acpi_ok_def
      using s5 s4(4,5) i3 False rsdp_at_extends [OF at e(1)] by (simp add: keeps_def)
    have rr: "(if ?x = 0 then rsdp_rsdt_address (view vm m v2) r else Some 0) = Some (if ?x = 0 then le_at m (r + 16) 4 else 0)" using rs by simp
    have "\<exists>ls. acpi_init vm m b v = Some (s5, v3, ls)"
      using r(1) False rev x y(1) rr p(1) s4(1) s5(1) unfolding acpi_init_def root_def
      by (cases ok; cases "x = 0"; cases "2 \<le> ?rev") (simp_all add: Let_def del: if_split_asm le_at.simps)
    then show ?thesis using e(2) ok5 by blast
  qed
qed

section \<open>The self-test\<close>

lemma twin_scan_spec:
  "j + n \<le> length cs \<Longrightarrow> cpu_apic_id a \<notin> cpu_apic_id ` set (take n (drop j cs)) \<Longrightarrow> twin_scan cs a j n = Some False"
proof (induction n arbitrary: j)
  case (Suc n)
  then have "take (Suc n) (drop j cs) = cs ! j # take n (drop (Suc j) cs)" by (simp add: Cons_nth_drop_Suc [symmetric])
  then show ?case using Suc by auto
qed simp

lemma selftest_scan_spec:
  "i + n \<le> length cs \<Longrightarrow> distinct (map cpu_apic_id (take n (drop i cs))) \<Longrightarrow>
   selftest_scan cs i n k = Some (Some (k + length (filter cpu_enabled (take n (drop i cs)))))"
proof (induction n arbitrary: i k)
  case (Suc n)
  have d: "take (Suc n) (drop i cs) = cs ! i # take n (drop (Suc i) cs)" using Suc.prems by (simp add: Cons_nth_drop_Suc [symmetric])
  have "twin_scan cs (cs ! i) (Suc i) n = Some False" using Suc.prems d by (intro twin_scan_spec) auto
  then show ?case using Suc.IH [of "Suc i"] Suc.prems d by simp
qed simp

lemma acpi_selftest_spec:
  assumes "info_ok (acpi_info s)" "ac_found (acpi_info s) = (ac_rsdp (acpi_info s) \<noteq> 0)"
  shows "acpi_selftest s = Some (ac_found (acpi_info s) \<longrightarrow> root_table (acpi_info s) \<noteq> 0 \<and> table_count (acpi_info s) \<noteq> 0 \<and>
     (madt_found (acpi_info s) \<longrightarrow> enabled_cpu_count (acpi_info s) \<noteq> 0))"
proof -
  have "selftest_scan (cpus (acpi_info s)) 0 (cpu_count (acpi_info s)) 0 = Some (Some (enabled_cpu_count (acpi_info s)))"
    using selftest_scan_spec [of 0 "cpu_count (acpi_info s)" "cpus (acpi_info s)" 0] assms(1) by (simp add: info_ok_def cpu_list_def)
  then show ?thesis using assms(2) by (simp add: acpi_selftest_def Let_def)
qed

section \<open>Properties\<close>

definition flat_vmm :: "unit vmm" where
  "flat_vmm = \<lparr>vm_translate = (\<lambda>_ p. Some p), vm_map = (\<lambda>_ _. None)\<rparr>"

text \<open>C3:
  ACPI discovery is memory safe on arbitrary firmware data. Whatever physical memory holds, if mapping a
  page maps it to itself and keeps the other translations, and the first page is mapped, then
  \<^verbatim>\<open>acpi_init\<close> returns without reading an unmapped address, adds only identity mappings, and
  leaves only structures that passed their checks: the root pointer, the root table and all recorded tables
  are readable over their whole length and have zero checksums, and the counters stay within their arrays.
\<close>
theorem acpi_init_safe:
  assumes "vmm_ok vm" "vm_translate vm v 0 \<noteq> None"
  shows "\<exists>s v' ls. acpi_init vm m boot_rsdp v = Some (s, v', ls) \<and> extends vm v v' \<and> acpi_ok vm m v' s"
  by (rule acpi_init_spec [OF assms])

theorem acpi_init_safe_witness:
  "\<exists>s v' ls. acpi_init flat_vmm (\<lambda>a. of_nat a) 0xf0000 () = Some (s, v', ls) \<and> acpi_ok flat_vmm (\<lambda>a. of_nat a) v' s"
  using acpi_init_safe [of flat_vmm "()" "\<lambda>a. of_nat a" "0xf0000"] by (auto simp: vmm_ok_def flat_vmm_def)

text \<open>C22:
  The processors found by ACPI discovery are consistent. However entries repeat or contradict each
  other, recording a processor keeps the interrupt controller identifiers of the recorded processors
  distinct and the number of enabled ones exact; so after initialisation the self-test never fails on a duplicate
  or a miscount, but exactly when a root pointer was found without a usable root table, without tables,
  or with an interrupt controller table that enables no processor.
\<close>
theorem acpi_cpus_consistent:
  assumes "vmm_ok vm" "vm_translate vm v 0 \<noteq> None" "acpi_init vm m boot_rsdp v = Some (s, v', ls)" "info_ok a"
  shows "(\<exists>b. acpi_record_madt_cpu u i f x a = Some b \<and> info_ok b) \<and> info_ok (acpi_info s) \<and>
    acpi_selftest s = Some (ac_found (acpi_info s) \<longrightarrow> root_table (acpi_info s) \<noteq> 0 \<and> table_count (acpi_info s) \<noteq> 0 \<and>
      (madt_found (acpi_info s) \<longrightarrow> enabled_cpu_count (acpi_info s) \<noteq> 0))"
proof -
  have "acpi_ok vm m v' s" using acpi_init_spec [OF assms(1,2), of m boot_rsdp] assms(3) by auto
  then have "info_ok (acpi_info s)" "ac_found (acpi_info s) = (ac_rsdp (acpi_info s) \<noteq> 0)" by (simp_all add: acpi_ok_def)
  then show ?thesis using acpi_selftest_spec [of s] record_cpu_spec [OF assms(4), of u i f x] by blast
qed

theorem acpi_cpus_consistent_witness:
  "\<exists>s v' ls b. acpi_init flat_vmm (\<lambda>_. 0) 0 () = Some (s, v', ls) \<and> info_ok (acpi_info s) \<and>
     acpi_record_madt_cpu 1 2 1 True zero_acpi_info = Some b \<and> info_ok b"
proof -
  have vm: "vmm_ok flat_vmm" "vm_translate flat_vmm () 0 \<noteq> None" by (simp_all add: vmm_ok_def flat_vmm_def)
  obtain s v' ls where s: "acpi_init flat_vmm (\<lambda>_. 0) 0 () = Some (s, v', ls)" using acpi_init_spec [OF vm] by blast
  have "info_ok zero_acpi_info" by (simp add: info_ok_def zero_acpi_info_def cpu_list_def)
  then show ?thesis using acpi_cpus_consistent [OF vm s, of zero_acpi_info 1 2 1 True] s by blast
qed

end
