(* ===== verification/Port_IO.thy ===== *)
theory Port_IO
  imports Kernel_Prelude
begin

text \<open>
  Port input and output, \<^verbatim>\<open>kernel/include/rabbitbone/arch/io.h\<close>. The state is the sequence of port
  accesses so far. A device is an argument that says what a read returns after a given
  sequence of accesses, so it may depend on everything the processor did before, and nothing
  is assumed of it.
\<close>

datatype pio = In8 nat | Out8 nat u8 | In32 nat | Out32 nat u32

record ports =
  port8 :: "pio list \<Rightarrow> nat \<Rightarrow> u8"
  port32 :: "pio list \<Rightarrow> nat \<Rightarrow> u32"

definition outb :: "nat \<Rightarrow> u8 \<Rightarrow> pio list \<Rightarrow> pio list" where
  "outb port x t = t @ [Out8 port x]"

definition outl :: "nat \<Rightarrow> u32 \<Rightarrow> pio list \<Rightarrow> pio list" where
  "outl port x t = t @ [Out32 port x]"

definition inb :: "ports \<Rightarrow> nat \<Rightarrow> pio list \<Rightarrow> u8 \<times> pio list" where
  "inb io port t = (port8 io t port, t @ [In8 port])"

definition inl :: "ports \<Rightarrow> nat \<Rightarrow> pio list \<Rightarrow> u32 \<times> pio list" where
  "inl io port t = (port32 io t port, t @ [In32 port])"

definition io_wait :: "pio list \<Rightarrow> pio list" where
  "io_wait t = outb 0x80 0 t"

text \<open>The bytes written to a port.\<close>

definition written :: "nat \<Rightarrow> pio list \<Rightarrow> bytes" where
  "written port t = concat (map (\<lambda>e. case e of Out8 p v \<Rightarrow> if p = port then [v] else [] | _ \<Rightarrow> []) t)"

lemma written_simps [simp]:
  "written port [] = []"
  "written port (outb port v t) = written port t @ [v]"
  "p \<noteq> port \<Longrightarrow> written port (outb p v t) = written port t"
  "written port (outl p w t) = written port t"
  "written port (snd (inb io p t)) = written port t"
  "written port (snd (inl io p t)) = written port t"
  by (simp_all add: written_def outb_def outl_def inb_def inl_def)

end
