(* ===== verification/Serial.thy ===== *)
theory Serial
  imports Port_IO Ringbuf Libc_String
begin

text \<open>
  The serial port driver, \<^verbatim>\<open>kernel/drivers/serial.c\<close>: a transmit ring in front of the UART that drops its
  oldest byte when it is full, and that is moved from a static array into the heap once. The
  contents of a fresh heap block are an argument.
\<close>

section \<open>Model\<close>

definition COM1 :: nat where "COM1 = 0x3f8"
definition UART_LSR_DATA_READY :: u8 where "UART_LSR_DATA_READY = 0x01"
definition UART_LSR_TX_EMPTY :: u8 where "UART_LSR_TX_EMPTY = 0x20"
definition UART_MCR_DTR :: u8 where "UART_MCR_DTR = 0x01"
definition UART_MCR_RTS :: u8 where "UART_MCR_RTS = 0x02"
definition UART_MCR_OUT2 :: u8 where "UART_MCR_OUT2 = 0x08"
definition UART_MCR_LOOPBACK :: u8 where "UART_MCR_LOOPBACK = 0x10"
definition SERIAL_TX_SPIN_LIMIT :: nat where "SERIAL_TX_SPIN_LIMIT = 4096"
definition SERIAL_EARLY_TX_RING_SIZE :: nat where "SERIAL_EARLY_TX_RING_SIZE = 4096"
definition SERIAL_HEAP_TX_RING_SIZE :: nat where "SERIAL_HEAP_TX_RING_SIZE = 262144"
definition SERIAL_DRAIN_BUDGET :: nat where "SERIAL_DRAIN_BUDGET = 4096"
definition SERIAL_POLL_BUDGET :: nat where "SERIAL_POLL_BUDGET = 128"

text \<open>\<open>tx_static\<close>: the ring is the static array.\<close>

record serial_t =
  serial_ready :: bool
  tx_static :: bool
  tx_ring :: bytes
  tx_capacity :: nat
  tx_head :: nat
  tx_tail :: nat
  tx_overflowed :: bool

definition uart_read :: "ports \<Rightarrow> nat \<Rightarrow> pio list \<Rightarrow> u8 \<times> pio list" where
  "uart_read io off t = inb io (COM1 + off) t"

definition uart_write :: "nat \<Rightarrow> u8 \<Rightarrow> pio list \<Rightarrow> pio list" where
  "uart_write off v t = outb (COM1 + off) v t"

definition tx_empty :: "ports \<Rightarrow> pio list \<Rightarrow> bool \<times> pio list" where
  "tx_empty io t = (let (v, t) = uart_read io 5 t in (v AND UART_LSR_TX_EMPTY \<noteq> 0, t))"

fun probe_loop :: "ports \<Rightarrow> nat \<Rightarrow> pio list \<Rightarrow> bool \<times> pio list" where
  "probe_loop io 0 t = (False, uart_write 4 0 t)"
| "probe_loop io (Suc n) t =
     (let (lsr, t) = uart_read io 5 t in
      if lsr AND UART_LSR_DATA_READY \<noteq> 0 then
        (let (b, t) = uart_read io 0 t in
         if b = 0xae then (True, uart_write 4 (UART_MCR_DTR OR UART_MCR_RTS OR UART_MCR_OUT2) t) else probe_loop io n t)
      else probe_loop io n t)"

definition serial_probe_loopback :: "ports \<Rightarrow> pio list \<Rightarrow> bool \<times> pio list" where
  "serial_probe_loopback io t =
     (let t = uart_write 4 (UART_MCR_LOOPBACK OR UART_MCR_DTR OR UART_MCR_RTS OR UART_MCR_OUT2) t;
          t = uart_write 0 0xae t
      in probe_loop io SERIAL_TX_SPIN_LIMIT t)"

definition ring_next :: "serial_t \<Rightarrow> nat \<Rightarrow> nat" where
  "ring_next s idx = (let capacity = (if tx_capacity s \<noteq> 0 then tx_capacity s else SERIAL_EARLY_TX_RING_SIZE) in (idx + 1) mod 0x100000000 mod capacity)"

definition ring_empty :: "serial_t \<Rightarrow> bool" where
  "ring_empty s = (tx_head s = tx_tail s)"

definition ring_count :: "serial_t \<Rightarrow> nat" where
  "ring_count s = (if tx_head s \<ge> tx_tail s then tx_head s - tx_tail s else tx_capacity s - tx_tail s + tx_head s)"

definition serial_queue_byte :: "u8 \<Rightarrow> serial_t \<Rightarrow> serial_t option" where
  "serial_queue_byte b s = do {
     let nxt = ring_next s (tx_head s);
     let s = (if nxt = tx_tail s then s\<lparr>tx_tail := ring_next s (tx_tail s), tx_overflowed := True\<rparr> else s);
     r \<leftarrow> arr_set (tx_ring s) (tx_head s) b;
     Some (s\<lparr>tx_ring := r, tx_head := nxt\<rparr>) }"

fun burst_loop :: "nat \<Rightarrow> nat \<Rightarrow> serial_t \<Rightarrow> pio list \<Rightarrow> (nat \<times> serial_t \<times> pio list) option" where
  "burst_loop 0 budget s t = Some (budget, s, t)"
| "burst_loop (Suc burst) budget s t =
     (if ring_empty s then Some (budget, s, t)
      else do {
        b \<leftarrow> arr_get (tx_ring s) (tx_tail s);
        burst_loop burst (budget - 1) (s\<lparr>tx_tail := ring_next s (tx_tail s)\<rparr>) (uart_write 0 b t) })"

lemma burst_loop_budget: "burst_loop n budget s t = Some (k, s', t') \<Longrightarrow> k \<le> budget \<and> (n \<noteq> 0 \<and> budget \<noteq> 0 \<and> \<not> ring_empty s \<longrightarrow> k < budget)"
proof (induction n budget s t rule: burst_loop.induct)
  case (2 n budget s t)
  show ?case
  proof (cases "ring_empty s")
    case False
    then obtain b where b: "arr_get (tx_ring s) (tx_tail s) = Some b"
        "burst_loop n (budget - 1) (s\<lparr>tx_tail := ring_next s (tx_tail s)\<rparr>) (uart_write 0 b t) = Some (k, s', t')"
      using "2.prems" by (auto simp: bind_eq_Some)
    then show ?thesis using "2.IH" [OF False b] by auto
  qed (use "2.prems" in simp)
qed simp

function drain_loop :: "ports \<Rightarrow> nat \<Rightarrow> serial_t \<Rightarrow> pio list \<Rightarrow> (serial_t \<times> pio list) option" where
  "drain_loop io budget s t =
     (if budget = 0 \<or> ring_empty s then Some (s, t)
      else let (e, t) = tx_empty io t in
        if \<not> e then Some (s, t)
        else do {
          (budget, s, t) \<leftarrow> burst_loop (if budget < 16 then budget else 16) budget s t;
          drain_loop io budget s t })"
  by pat_completeness auto
termination
  by (relation "measure (\<lambda>(io, budget, s, t). budget)") (auto dest!: burst_loop_budget split: if_splits)

declare drain_loop.simps [simp del]

definition serial_drain :: "ports \<Rightarrow> nat \<Rightarrow> serial_t \<Rightarrow> pio list \<Rightarrow> (serial_t \<times> pio list) option" where
  "serial_drain io budget s t = (if \<not> serial_ready s then Some (s, t) else drain_loop io budget s t)"

fun copy_ring :: "serial_t \<Rightarrow> nat \<Rightarrow> nat \<Rightarrow> nat \<Rightarrow> bytes \<Rightarrow> bytes option" where
  "copy_ring s i 0 cursor heap_ring = Some heap_ring"
| "copy_ring s i (Suc n) cursor heap_ring = do {
     b \<leftarrow> arr_get (tx_ring s) cursor;
     heap_ring \<leftarrow> arr_set heap_ring i b;
     copy_ring s (Suc i) n (ring_next s cursor) heap_ring }"

definition serial_enable_heap_ring :: "bytes option \<Rightarrow> serial_t \<Rightarrow> serial_t option" where
  "serial_enable_heap_ring heap_ring s =
     (if \<not> tx_static s then Some s
      else case heap_ring of None \<Rightarrow> Some s | Some r \<Rightarrow> do {
        let count = ring_count s;
        let count = (if count \<ge> SERIAL_HEAP_TX_RING_SIZE then SERIAL_HEAP_TX_RING_SIZE - 1 else count);
        r \<leftarrow> copy_ring s 0 count (tx_tail s) r;
        Some (s\<lparr>tx_static := False, tx_ring := r, tx_capacity := SERIAL_HEAP_TX_RING_SIZE, tx_tail := 0, tx_head := count\<rparr>) })"

definition serial_poll :: "ports \<Rightarrow> serial_t \<Rightarrow> pio list \<Rightarrow> (serial_t \<times> pio list) option" where
  "serial_poll io s t = serial_drain io SERIAL_POLL_BUDGET s t"

definition serial_available :: "serial_t \<Rightarrow> bool" where
  "serial_available s = serial_ready s"

definition serial_received :: "ports \<Rightarrow> serial_t \<Rightarrow> pio list \<Rightarrow> bool \<times> pio list" where
  "serial_received io s t = (if \<not> serial_ready s then (False, t) else let (v, t) = uart_read io 5 t in (v AND UART_LSR_DATA_READY \<noteq> 0, t))"

definition serial_init :: "ports \<Rightarrow> serial_t \<Rightarrow> pio list \<Rightarrow> serial_t \<times> pio list" where
  "serial_init io s t =
     (let s = s\<lparr>serial_ready := False, tx_head := 0, tx_tail := 0, tx_overflowed := False\<rparr>;
          t = uart_write 1 0x00 t;
          t = uart_write 3 0x80 t;
          t = uart_write 0 0x01 t;
          t = uart_write 1 0x00 t;
          t = uart_write 3 0x03 t;
          t = uart_write 2 0xc7 t;
          t = uart_write 4 (UART_MCR_DTR OR UART_MCR_RTS OR UART_MCR_OUT2) t;
          (ok, t) = serial_probe_loopback io t
      in (s\<lparr>serial_ready := ok\<rparr>, t))"

definition queue_char :: "u8 \<Rightarrow> serial_t \<Rightarrow> serial_t option" where
  "queue_char c s = do {
     s \<leftarrow> (if c = 0x0a then serial_queue_byte 0x0d s else Some s);
     serial_queue_byte c s }"

definition serial_putc :: "ports \<Rightarrow> u8 \<Rightarrow> serial_t \<Rightarrow> pio list \<Rightarrow> (serial_t \<times> pio list) option" where
  "serial_putc io c s t =
     (if \<not> serial_ready s then Some (s, t)
      else do { s \<leftarrow> queue_char c s; serial_drain io SERIAL_DRAIN_BUDGET s t })"

fun queue_chars :: "bytes \<Rightarrow> nat \<Rightarrow> nat \<Rightarrow> serial_t \<Rightarrow> serial_t option" where
  "queue_chars p i 0 s = Some s"
| "queue_chars p i (Suc n) s = do { c \<leftarrow> arr_get p i; s \<leftarrow> queue_char c s; queue_chars p (Suc i) n s }"

definition serial_write_n :: "ports \<Rightarrow> bytes option \<Rightarrow> nat \<Rightarrow> serial_t \<Rightarrow> pio list \<Rightarrow> (serial_t \<times> pio list) option" where
  "serial_write_n io p n s t = (case p of None \<Rightarrow> Some (s, t) | Some p \<Rightarrow>
     if \<not> serial_ready s then Some (s, t)
     else do { s \<leftarrow> queue_chars p 0 n s; serial_drain io SERIAL_DRAIN_BUDGET s t })"

definition serial_write :: "ports \<Rightarrow> bytes option \<Rightarrow> serial_t \<Rightarrow> pio list \<Rightarrow> (serial_t \<times> pio list) option" where
  "serial_write io p s t = (case p of None \<Rightarrow> Some (s, t) | Some b \<Rightarrow> do {
     n \<leftarrow> strlen (\<lambda>_. b) (Some (0, 0));
     serial_write_n io p n s t })"

text \<open>The byte received, or nothing for -1.\<close>

definition serial_read :: "ports \<Rightarrow> serial_t \<Rightarrow> pio list \<Rightarrow> (u8 option \<times> serial_t \<times> pio list) option" where
  "serial_read io s t = do {
     (s, t) \<leftarrow> serial_drain io SERIAL_DRAIN_BUDGET s t;
     let (r, t) = serial_received io s t;
     let (v, t) = (if r then map_prod Some id (uart_read io 0 t) else (None, t));
     Some (v, s, t) }"

section \<open>The ring as a queue\<close>

definition ser_inv :: "serial_t \<Rightarrow> bool" where
  "ser_inv s = (length (tx_ring s) = tx_capacity s \<and> 2 \<le> tx_capacity s \<and> tx_capacity s \<le> SERIAL_HEAP_TX_RING_SIZE \<and>
     tx_head s < tx_capacity s \<and> tx_tail s < tx_capacity s)"

definition pending :: "serial_t \<Rightarrow> bytes" where
  "pending s = ring_slice (tx_ring s) (tx_capacity s) (tx_tail s) (ring_count s)"

lemma length_pending [simp]: "length (pending s) = ring_count s"
  by (simp add: pending_def)

lemma ring_next_inv: "ser_inv s \<Longrightarrow> i < tx_capacity s \<Longrightarrow> ring_next s i = Suc i mod tx_capacity s"
  by (simp add: ring_next_def ser_inv_def SERIAL_HEAP_TX_RING_SIZE_def)

lemma ring_count_head: "ser_inv s \<Longrightarrow> ring_count s < tx_capacity s \<and> (tx_tail s + ring_count s) mod tx_capacity s = tx_head s"
  by (auto simp: ser_inv_def ring_count_def)

lemma ring_count_unique:
  fixes n :: nat
  assumes "h < c" "t < c" "n < c" "(t + n) mod c = h"
  shows "n = (if h \<ge> t then h - t else c - t + h)"
proof (cases "t + n < c")
  case False
  then have "(t + n) mod c = (t + n - c) mod c" by (intro le_mod_geq) simp
  moreover have "(t + n - c) mod c = t + n - c" by (rule mod_less) (use assms False in linarith)
  ultimately have "(t + n) mod c = t + n - c" by simp
  then show ?thesis using assms False by auto
qed (use assms in auto)

lemma ring_count_eq: "ser_inv s \<Longrightarrow> n < tx_capacity s \<Longrightarrow> (tx_tail s + n) mod tx_capacity s = tx_head s \<Longrightarrow> ring_count s = n"
  using ring_count_unique [of "tx_head s" "tx_capacity s" "tx_tail s" n] by (simp add: ring_count_def ser_inv_def)

lemma ring_empty_count: "ser_inv s \<Longrightarrow> ring_empty s \<longleftrightarrow> pending s = []"
  using length_pending [of s] by (auto simp: ring_empty_def ring_count_def ser_inv_def simp flip: length_0_conv)

lemma ring_drop:
  assumes inv: "ser_inv s" and ne: "pending s \<noteq> []"
  defines "u \<equiv> s\<lparr>tx_tail := ring_next s (tx_tail s)\<rparr>"
  shows "ser_inv u \<and> pending s = tx_ring s ! tx_tail s # pending u \<and> ring_count u = ring_count s - 1"
proof -
  let ?c = "tx_capacity s"
  have b: "tx_tail s < ?c" "length (tx_ring s) = ?c" "0 < ?c" using inv by (auto simp: ser_inv_def)
  have pos: "0 < ring_count s" using ne length_pending [of s] by (metis length_greater_0_conv)
  have u: "ser_inv u" "tx_tail u = Suc (tx_tail s) mod ?c" "tx_head u = tx_head s" "tx_capacity u = ?c" "tx_ring u = tx_ring s"
    using inv ring_next_inv [OF inv b(1)] b by (auto simp: u_def ser_inv_def)
  have "(Suc (tx_tail s) mod ?c + (ring_count s - 1)) mod ?c = (tx_tail s + ring_count s) mod ?c"
    using pos by (cases "ring_count s") (simp_all add: mod_add_left_eq)
  then have "ring_count u = ring_count s - 1"
    using ring_count_eq [OF u(1), of "ring_count s - 1"] ring_count_head [OF inv] u by auto
  then show ?thesis using u ring_slice_pop [OF pos b(1), of "tx_ring s"] by (simp add: pending_def)
qed

lemma ring_append:
  fixes b :: u8
  assumes inv: "ser_inv s" and room: "Suc (ring_count s) < tx_capacity s"
  defines "u \<equiv> s\<lparr>tx_ring := (tx_ring s)[tx_head s := b], tx_head := Suc (tx_head s) mod tx_capacity s\<rparr>"
  shows "ser_inv u \<and> pending u = pending s @ [b]"
proof -
  let ?c = "tx_capacity s"
  have h: "(tx_tail s + ring_count s) mod ?c = tx_head s" using ring_count_head [OF inv] by simp
  have t: "tx_tail s < ?c" "length (tx_ring s) = ?c" using inv by (auto simp: ser_inv_def)
  have u: "ser_inv u" using inv by (auto simp: u_def ser_inv_def)
  have "(tx_tail s + Suc (ring_count s)) mod ?c = Suc (tx_head s) mod ?c"
    using mod_Suc_eq [of "tx_tail s + ring_count s" ?c] h by simp
  then have "ring_count u = Suc (ring_count s)" using room by (intro ring_count_eq [OF u]) (simp_all add: u_def)
  then show ?thesis using u ring_slice_push [of "ring_count s" ?c "tx_tail s" "tx_ring s" b] room t h by (simp add: pending_def u_def)
qed

text \<open>The newest bytes a ring keeps.\<close>

definition keep :: "serial_t \<Rightarrow> bytes \<Rightarrow> bytes" where
  "keep s bs = drop (length bs - (tx_capacity s - 1)) bs"

lemma queue_byte_spec:
  assumes inv: "ser_inv s"
  shows "\<exists>u. serial_queue_byte b s = Some u \<and> ser_inv u \<and> pending u = keep s (pending s @ [b]) \<and>
     tx_capacity u = tx_capacity s \<and> serial_ready u = serial_ready s \<and> tx_static u = tx_static s \<and>
     (tx_overflowed u \<longleftrightarrow> tx_overflowed s \<or> tx_capacity s - 1 < length (pending s @ [b]))"
proof -
  let ?c = "tx_capacity s"
  have hd: "tx_head s < ?c" "tx_tail s < ?c" "length (tx_ring s) = ?c" "2 \<le> ?c" using inv by (auto simp: ser_inv_def)
  have nx: "ring_next s (tx_head s) = Suc (tx_head s) mod ?c" by (rule ring_next_inv [OF inv hd(1)])
  have cnt: "ring_count s < ?c" "(tx_tail s + ring_count s) mod ?c = tx_head s" using ring_count_head [OF inv] by auto
  have step: "(tx_tail s + Suc (ring_count s)) mod ?c = Suc (tx_head s) mod ?c"
    using mod_Suc_eq [of "tx_tail s + ring_count s" ?c] cnt(2) by simp
  have full: "ring_next s (tx_head s) = tx_tail s \<longleftrightarrow> Suc (ring_count s) = ?c"
  proof
    assume "Suc (ring_count s) = ?c"
    then show "ring_next s (tx_head s) = tx_tail s" using nx step hd(2) by simp
  next
    assume e: "ring_next s (tx_head s) = tx_tail s"
    show "Suc (ring_count s) = ?c"
    proof (rule ccontr)
      assume "Suc (ring_count s) \<noteq> ?c"
      then have "Suc (ring_count s) < ?c" using cnt(1) by simp
      moreover have "(tx_tail s + Suc (ring_count s)) mod ?c = tx_tail s" using e nx step by simp
      ultimately have "Suc (ring_count s) = 0" using ring_count_unique [OF hd(2) hd(2)] by fastforce
      then show False by simp
    qed
  qed
  show ?thesis
  proof (cases "Suc (ring_count s) = ?c")
    case False
    then have room: "Suc (ring_count s) < ?c" using cnt(1) by simp
    have "serial_queue_byte b s = Some (s\<lparr>tx_ring := (tx_ring s)[tx_head s := b], tx_head := Suc (tx_head s) mod ?c\<rparr>)"
      using False full nx hd by (simp add: serial_queue_byte_def Let_def)
    then show ?thesis using ring_append [OF inv room, of b] room by (auto simp: keep_def)
  next
    case True
    then have ne: "pending s \<noteq> []" using hd(4) length_pending [of s] by (metis One_nat_def Suc_1 list.size(3) not_less_eq_eq order_refl)
    let ?u = "s\<lparr>tx_tail := ring_next s (tx_tail s)\<rparr>"
    have u: "ser_inv ?u" "pending s = tx_ring s ! tx_tail s # pending ?u" "ring_count ?u = ring_count s - 1"
      using ring_drop [OF inv ne] by auto
    have room: "Suc (ring_count ?u) < tx_capacity ?u" using u(3) True hd(4) by simp
    define w where "w = ?u\<lparr>tx_ring := (tx_ring s)[tx_head s := b], tx_head := Suc (tx_head s) mod ?c\<rparr>"
    have w: "ser_inv w" "pending w = pending ?u @ [b]" using ring_append [OF u(1) room, of b] by (simp_all add: w_def)
    have "serial_queue_byte b s = Some (w\<lparr>tx_overflowed := True\<rparr>)"
      using True full nx hd by (simp add: serial_queue_byte_def Let_def w_def)
    moreover have "ser_inv (w\<lparr>tx_overflowed := True\<rparr>)" "pending (w\<lparr>tx_overflowed := True\<rparr>) = pending w"
      using w(1) by (simp_all add: ser_inv_def pending_def ring_count_def)
    ultimately show ?thesis using w(2) u(2,3) True [symmetric] hd(4) by (simp add: keep_def w_def)
  qed
qed

text \<open>The state after queueing \<open>bs\<close>.\<close>

definition queued :: "serial_t \<Rightarrow> bytes \<Rightarrow> serial_t \<Rightarrow> bool" where
  "queued s bs u = (ser_inv u \<and> pending u = keep s (pending s @ bs) \<and> tx_capacity u = tx_capacity s \<and> serial_ready u = serial_ready s \<and>
     tx_static u = tx_static s \<and> (tx_overflowed u \<longleftrightarrow> tx_overflowed s \<or> tx_capacity s - 1 < length (pending s @ bs)))"

lemma pending_bound: "ser_inv s \<Longrightarrow> ring_count s \<le> tx_capacity s - 1"
  using ring_count_head [of s] by auto

lemma queued_refl: "ser_inv s \<Longrightarrow> queued s [] s"
  using pending_bound [of s] by (auto simp: queued_def keep_def)

lemma keep_keep: "tx_capacity u = tx_capacity s \<Longrightarrow> keep u (keep s xs @ ys) = keep s (xs @ ys)"
  by (cases "length xs \<le> tx_capacity s - 1") (auto simp: keep_def add.commute)

lemma queued_inv: "queued s bs u \<Longrightarrow> ser_inv u"
  by (simp add: queued_def)

lemma queued_trans: "queued s a u \<Longrightarrow> queued u b w \<Longrightarrow> queued s (a @ b) w"
  using keep_keep [of u s "pending s @ a" b] by (auto simp: queued_def) (auto simp: keep_def)

lemma queue_byte_queued: "ser_inv s \<Longrightarrow> \<exists>u. serial_queue_byte b s = Some u \<and> queued s [b] u"
  using queue_byte_spec [of s b] by (auto simp: queued_def)

definition crlf :: "bytes \<Rightarrow> bytes" where
  "crlf bs = concat (map (\<lambda>c. if c = 0x0a then [0x0d, c] else [c]) bs)"

lemma queue_char_queued: "ser_inv s \<Longrightarrow> \<exists>u. queue_char c s = Some u \<and> queued s (crlf [c]) u"
proof (cases "c = 0x0a")
  case True
  assume "ser_inv s"
  then obtain u where u: "serial_queue_byte 0x0d s = Some u" "queued s [0x0d] u" using queue_byte_queued by blast
  then obtain w where w: "serial_queue_byte c u = Some w" "queued u [c] w" using queue_byte_queued [OF queued_inv] by blast
  then show ?thesis using True u queued_trans [OF u(2) w(2)] by (simp add: queue_char_def crlf_def)
next
  case False
  assume "ser_inv s"
  then show ?thesis using False queue_byte_queued by (simp add: queue_char_def crlf_def)
qed

lemma queue_chars_queued:
  "ser_inv s \<Longrightarrow> i + n \<le> length p \<Longrightarrow> \<exists>u. queue_chars p i n s = Some u \<and> queued s (crlf (take n (drop i p))) u"
proof (induction n arbitrary: i s)
  case (Suc n)
  obtain u where u: "queue_char (p ! i) s = Some u" "queued s (crlf [p ! i]) u" using queue_char_queued [OF Suc.prems(1)] by blast
  then obtain w where w: "queue_chars p (Suc i) n u = Some w" "queued u (crlf (take n (drop (Suc i) p))) w"
    using Suc.IH [OF queued_inv [OF u(2)], of "Suc i"] Suc.prems by auto
  have "take (Suc n) (drop i p) = p ! i # take n (drop (Suc i) p)" using Suc.prems(2) by (simp add: Cons_nth_drop_Suc [symmetric])
  then show ?case using u w Suc.prems(2) queued_trans [OF u(2) w(2)] by (simp add: crlf_def)
qed (simp add: queued_refl crlf_def)

section \<open>Draining\<close>

text \<open>The state after \<open>j\<close> pending bytes went to the transmit register.\<close>

definition sent :: "nat \<Rightarrow> serial_t \<times> pio list \<Rightarrow> serial_t \<times> pio list \<Rightarrow> bool" where
  "sent j x y = (case (x, y) of ((s, t), (u, t')) \<Rightarrow> ser_inv u \<and> pending u = drop j (pending s) \<and>
     written COM1 t' = written COM1 t @ take j (pending s) \<and> u = s\<lparr>tx_tail := tx_tail u\<rparr>)"

lemma sent_count: "sent j (s, t) (u, t') \<Longrightarrow> ser_inv u \<and> ring_count u = ring_count s - j"
  unfolding sent_def using length_pending [of u] length_pending [of s] by (simp del: length_pending)

lemma sent_overflow:
  assumes "sent j (s, t) (u, t')"
  shows "tx_overflowed u = tx_overflowed s"
proof -
  have "u = s\<lparr>tx_tail := tx_tail u\<rparr>" using assms by (simp add: sent_def)
  then have "tx_overflowed u = tx_overflowed (s\<lparr>tx_tail := tx_tail u\<rparr>)" by (rule arg_cong)
  then show ?thesis by simp
qed

lemma sent_trans: "sent i (s, t) (u, t') \<Longrightarrow> sent j (u, t') (w, t'') \<Longrightarrow> sent (i + j) (s, t) (w, t'')"
  by (auto simp: sent_def take_add add.commute) (metis serial_t.surjective serial_t.update_convs(6))

lemma sent_0: "ser_inv s \<Longrightarrow> written COM1 t' = written COM1 t \<Longrightarrow> sent 0 (s, t) (s, t')"
  by (simp add: sent_def)

lemma burst_sent:
  assumes "ser_inv s" "n \<le> budget"
  shows "\<exists>u t'. burst_loop n budget s t = Some (budget - min n (ring_count s), u, t') \<and> sent (min n (ring_count s)) (s, t) (u, t')"
  using assms
proof (induction n arbitrary: budget s t)
  case (Suc n)
  show ?case
  proof (cases "pending s = []")
    case True
    then have "ring_empty s" "ring_count s = 0" using ring_empty_count [OF Suc.prems(1)] length_pending [of s] by auto
    then show ?thesis using sent_0 [OF Suc.prems(1) refl] by simp
  next
    case False
    let ?u = "s\<lparr>tx_tail := ring_next s (tx_tail s)\<rparr>" and ?b = "tx_ring s ! tx_tail s"
    have u: "ser_inv ?u" "pending s = ?b # pending ?u" "ring_count ?u = ring_count s - 1" using ring_drop [OF Suc.prems(1) False] by auto
    have pos: "0 < ring_count s" using u(2) length_pending [of s] by simp
    obtain w t' where w: "burst_loop n (budget - 1) ?u (uart_write 0 ?b t) = Some (budget - 1 - min n (ring_count ?u), w, t')"
        "sent (min n (ring_count ?u)) (?u, uart_write 0 ?b t) (w, t')"
      using Suc.IH [OF u(1), of "budget - 1"] Suc.prems(2) by fastforce
    have "sent 1 (s, t) (?u, uart_write 0 ?b t)" using u by (simp add: sent_def uart_write_def)
    then have "sent (1 + min n (ring_count ?u)) (s, t) (w, t')" by (rule sent_trans [OF _ w(2)])
    moreover have "1 + min n (ring_count ?u) = min (Suc n) (ring_count s)" using u(3) pos by simp
    moreover have "\<not> ring_empty s" "arr_get (tx_ring s) (tx_tail s) = Some ?b"
      using False ring_empty_count [OF Suc.prems(1)] Suc.prems(1) by (auto simp: ser_inv_def)
    moreover have "budget - 1 - min n (ring_count ?u) = budget - min (Suc n) (ring_count s)" using u(3) pos by simp
    ultimately show ?thesis using w(1) by simp
  qed
qed (simp add: sent_0)

definition always_ready :: "ports \<Rightarrow> bool" where
  "always_ready io = (\<forall>t. port8 io t (COM1 + 5) AND UART_LSR_TX_EMPTY \<noteq> 0)"

lemma drain_sent:
  assumes "ser_inv s"
  shows "\<exists>j u t'. drain_loop io budget s t = Some (u, t') \<and> sent j (s, t) (u, t') \<and> j \<le> budget \<and> (always_ready io \<longrightarrow> j = min budget (ring_count s))"
  using assms
proof (induction io budget s t rule: drain_loop.induct)
  case (1 io budget s t)
  let ?t = "snd (tx_empty io t)"
  have wr: "written COM1 ?t = written COM1 t" by (simp add: tx_empty_def uart_read_def inb_def written_def)
  have rd: "always_ready io \<Longrightarrow> fst (tx_empty io t)" by (simp add: always_ready_def tx_empty_def uart_read_def inb_def)
  show ?case
  proof (cases "budget = 0 \<or> ring_empty s")
    case True
    moreover have "ring_empty s \<Longrightarrow> ring_count s = 0" by (simp add: ring_empty_def ring_count_def)
    ultimately show ?thesis using sent_0 [OF "1.prems" refl, of t]
      by (intro exI [of _ 0] exI [of _ s] exI [of _ t]) (auto simp: drain_loop.simps [of io budget s t])
  next
    case go: False
    show ?thesis
    proof (cases "fst (tx_empty io t)")
      case False
      then show ?thesis using go rd sent_0 [OF "1.prems" wr]
        by (intro exI [of _ 0] exI [of _ s] exI [of _ ?t]) (auto simp: drain_loop.simps [of io budget s t] case_prod_beta)
    next
      case True
      let ?n = "if budget < 16 then budget else 16"
      let ?k = "min ?n (ring_count s)"
      have nb: "?n \<le> budget" by simp
      obtain u t1 where u: "burst_loop ?n budget s ?t = Some (budget - ?k, u, t1)" "sent ?k (s, ?t) (u, t1)"
        using burst_sent [OF "1.prems" nb] by blast
      have iu: "ser_inv u" "ring_count u = ring_count s - ?k" using sent_count [OF u(2)] by auto
      obtain j w t2 where w: "drain_loop io (budget - ?k) u t1 = Some (w, t2)" "sent j (u, t1) (w, t2)" "j \<le> budget - ?k"
          "always_ready io \<longrightarrow> j = min (budget - ?k) (ring_count u)"
        using "1.IH" [OF go refl prod.collapse _ u(1) refl refl iu(1)] True by blast
      have "sent ?k (s, t) (u, t1)" using u(2) wr by (simp add: sent_def)
      then have "sent (?k + j) (s, t) (w, t2)" by (rule sent_trans [OF _ w(2)])
      moreover have "?k + j \<le> budget \<and> (always_ready io \<longrightarrow> ?k + j = min budget (ring_count s))"
      proof -
        obtain k where k: "k = ?k" "k \<le> budget" "k \<le> ring_count s"
          by (rule that [OF refl le_trans [OF min.cobounded1 nb] min.cobounded2])
        then show ?thesis using w(3,4) iu(2) unfolding k(1) [symmetric] by auto
      qed
      moreover have "drain_loop io budget s t = Some (w, t2)"
        using go True u(1) w(1) by (simp add: drain_loop.simps [of io budget s t] case_prod_beta)
      ultimately show ?thesis by blast
    qed
  qed
qed

section \<open>The heap ring\<close>

lemma copy_ring_spec:
  assumes "ser_inv s" "i + n \<le> length r" "c < tx_capacity s"
  shows "copy_ring s i n c r = Some (take i r @ ring_slice (tx_ring s) (tx_capacity s) c n @ drop (i + n) r)"
  using assms(2,3)
proof (induction n arbitrary: i c r)
  case (Suc n)
  have c: "c < length (tx_ring s)" "ring_next s c = Suc c mod tx_capacity s" "Suc c mod tx_capacity s < tx_capacity s"
    using assms(1) Suc.prems(2) ring_next_inv [OF assms(1) Suc.prems(2)] by (auto simp: ser_inv_def)
  have i: "i < length r" using Suc.prems(1) by simp
  show ?case
    using Suc.IH [of "Suc i" "r[i := tx_ring s ! c]" "Suc c mod tx_capacity s"] Suc.prems c i ring_slice_pop [of "Suc n" c "tx_capacity s" "tx_ring s"]
    by (simp add: take_Suc_conv_app_nth)
qed (simp add: ring_slice_def)

lemma heap_ring_keeps:
  assumes inv: "ser_inv s" and st: "tx_static s" "tx_capacity s = SERIAL_EARLY_TX_RING_SIZE" and r: "length r = SERIAL_HEAP_TX_RING_SIZE"
  shows "\<exists>u. serial_enable_heap_ring (Some r) s = Some u \<and> ser_inv u \<and> pending u = pending s \<and> \<not> tx_static u \<and> tx_capacity u = SERIAL_HEAP_TX_RING_SIZE"
proof -
  let ?n = "ring_count s"
  have n: "?n < 4096" using ring_count_head [OF inv] st(2) by (simp add: SERIAL_EARLY_TX_RING_SIZE_def)
  let ?r = "ring_slice (tx_ring s) (tx_capacity s) (tx_tail s) ?n @ drop ?n r"
  have "copy_ring s 0 ?n (tx_tail s) r = Some ?r"
    using copy_ring_spec [OF inv, of 0 ?n r "tx_tail s"] n r inv by (simp add: SERIAL_HEAP_TX_RING_SIZE_def ser_inv_def)
  then have run: "serial_enable_heap_ring (Some r) s =
      Some (s\<lparr>tx_static := False, tx_ring := ?r, tx_capacity := SERIAL_HEAP_TX_RING_SIZE, tx_tail := 0, tx_head := ?n\<rparr>)"
    using st(1) n by (simp add: serial_enable_heap_ring_def Let_def SERIAL_HEAP_TX_RING_SIZE_def)
  have inv': "ser_inv (s\<lparr>tx_static := False, tx_ring := ?r, tx_capacity := SERIAL_HEAP_TX_RING_SIZE, tx_tail := 0, tx_head := ?n\<rparr>)"
    using n r by (simp add: ser_inv_def SERIAL_HEAP_TX_RING_SIZE_def)
  have "ring_slice ?r SERIAL_HEAP_TX_RING_SIZE 0 ?n = pending s"
    using n by (intro nth_equalityI) (simp_all add: ring_slice_def pending_def SERIAL_HEAP_TX_RING_SIZE_def nth_append)
  then show ?thesis using run inv' by (simp add: pending_def ring_count_def)
qed

section \<open>Property\<close>

definition demo_serial :: serial_t where
  "demo_serial = \<lparr>serial_ready = True, tx_static = True, tx_ring = [1, 2, 3], tx_capacity = 3, tx_head = 0, tx_tail = 2, tx_overflowed = False\<rparr>"

text \<open>C12:
  The serial driver is a first-in first-out channel that only loses its oldest bytes. Writing a string to
  a ready port never leaves the ring or the string, whatever the device answers; it queues the
  string with a carriage return before every newline behind what was pending, keeps the newest bytes that
  fit and records an overflow exactly when some were dropped; then a prefix of the queue, at most 4096
  bytes, goes to the transmit register in order and the rest stays pending. When the transmitter is always
  ready the prefix is as long as that limit allows. Moving the ring to the heap keeps the pending bytes.
\<close>
theorem serial_write_fifo:
  assumes "ser_inv s" "serial_ready s" "n \<le> length p"
  shows "(\<exists>j u t'. serial_write_n io (Some p) n s t = Some (u, t') \<and> ser_inv u \<and>
       written COM1 t' = written COM1 t @ take j (keep s (pending s @ crlf (take n p))) \<and>
       pending u = drop j (keep s (pending s @ crlf (take n p))) \<and> j \<le> SERIAL_DRAIN_BUDGET \<and>
       (always_ready io \<longrightarrow> j = min SERIAL_DRAIN_BUDGET (length (keep s (pending s @ crlf (take n p))))) \<and>
       (tx_overflowed u \<longleftrightarrow> tx_overflowed s \<or> tx_capacity s - 1 < length (pending s @ crlf (take n p)))) \<and>
    (tx_static s \<and> tx_capacity s = SERIAL_EARLY_TX_RING_SIZE \<and> length r = SERIAL_HEAP_TX_RING_SIZE \<longrightarrow>
       (\<exists>u. serial_enable_heap_ring (Some r) s = Some u \<and> ser_inv u \<and> pending u = pending s))"
proof -
  obtain u where u: "queue_chars p 0 n s = Some u" "queued s (crlf (take n p)) u"
    using queue_chars_queued [OF assms(1), of 0 n p] assms(3) by auto
  have q: "ser_inv u" "serial_ready u" "pending u = keep s (pending s @ crlf (take n p))"
      "tx_overflowed u \<longleftrightarrow> tx_overflowed s \<or> tx_capacity s - 1 < length (pending s @ crlf (take n p))"
    using u(2) assms(2) by (simp_all add: queued_def)
  obtain j w t' where w: "drain_loop io SERIAL_DRAIN_BUDGET u t = Some (w, t')" "sent j (u, t) (w, t')" "j \<le> SERIAL_DRAIN_BUDGET"
      "always_ready io \<longrightarrow> j = min SERIAL_DRAIN_BUDGET (ring_count u)"
    using drain_sent [OF q(1)] by blast
  have ov: "tx_overflowed w = tx_overflowed u" by (rule sent_overflow [OF w(2)])
  have "serial_write_n io (Some p) n s t = Some (w, t')"
    using assms(2) u(1) q(2) w(1) by (simp add: serial_write_n_def serial_drain_def)
  moreover have "ring_count u = length (keep s (pending s @ crlf (take n p)))" using q(3) length_pending [of u] by simp
  ultimately show ?thesis using w q ov heap_ring_keeps [OF assms(1), of r] by (auto simp: sent_def)
qed

theorem serial_write_fifo_witness:
  "\<exists>j u t'. serial_write_n \<lparr>port8 = (\<lambda>_ _. 0x20), port32 = (\<lambda>_ _. 0)\<rparr> (Some [0x41, 0x0a]) 2 demo_serial [] = Some (u, t') \<and>
     written COM1 t' = take j [0x0d, 0x0a]"
proof -
  have "ser_inv demo_serial" "pending demo_serial = [3]" "tx_capacity demo_serial = 3" "serial_ready demo_serial"
    by (simp_all add: demo_serial_def ser_inv_def SERIAL_HEAP_TX_RING_SIZE_def pending_def ring_slice_def ring_count_def)
  moreover have "keep demo_serial ([3] @ crlf (take 2 [0x41, 0x0a])) = [0x0d, 0x0a]"
    using calculation(3) by (simp add: keep_def crlf_def)
  ultimately show ?thesis
    using conjunct1 [OF serial_write_fifo [where s = demo_serial and n = 2 and p = "[0x41, 0x0a]" and
        io = "\<lparr>port8 = (\<lambda>_ _. 0x20), port32 = (\<lambda>_ _. 0)\<rparr>" and t = "[]"]] by auto
qed

end
