(* ===== verification/Clock.thy ===== *)
theory Clock
  imports Acpi Serial
begin

text \<open>
  The time sources: the interval timer \<^verbatim>\<open>kernel/drivers/pit.c\<close>, the interrupt controller
  \<^verbatim>\<open>kernel/drivers/pic.c\<close>, the event timer \<^verbatim>\<open>kernel/drivers/hpet.c\<close> and the clock built from
  them, \<^verbatim>\<open>kernel/core/timer.c\<close>. The hardware that runs beside the code is an argument: an
  environment state \<open>'e\<close> that every read and write of a counter or register may change. 64-bit
  times are natural numbers with the wrap-around written out.
\<close>

section \<open>Interval timer\<close>

definition PIT_BASE_HZ :: nat where "PIT_BASE_HZ = 1193182"
definition PIT_MAX_DIVISOR :: nat where "PIT_MAX_DIVISOR = 65535"
definition PIT_DEFAULT_HZ :: nat where "PIT_DEFAULT_HZ = 100"

definition pit_divisor_for_hz :: "nat \<Rightarrow> nat" where
  "pit_divisor_for_hz hz =
     (let hz = (if hz = 0 \<or> hz > PIT_BASE_HZ then PIT_DEFAULT_HZ else hz);
          divisor = PIT_BASE_HZ div hz;
          divisor = (if divisor = 0 then 1 else divisor);
          divisor = (if divisor > PIT_MAX_DIVISOR then PIT_MAX_DIVISOR else divisor)
      in divisor mod 65536)"

text \<open>The new tick counter and the port accesses.\<close>

definition pit_init :: "nat \<Rightarrow> pio list \<Rightarrow> nat \<times> pio list" where
  "pit_init hz t =
     (let divisor = pit_divisor_for_hz hz;
          t = outb 0x43 0x36 t;
          t = outb 0x40 (of_nat (divisor mod 256)) t;
          t = outb 0x40 (of_nat (divisor div 256 mod 256)) t
      in (0, t))"

definition pit_irq :: "ports \<Rightarrow> nat \<Rightarrow> serial_t \<Rightarrow> pio list \<Rightarrow> (nat \<times> serial_t \<times> pio list) option" where
  "pit_irq io ticks s t = do { (s, t) \<leftarrow> serial_poll io s t; Some (add64 ticks 1, s, t) }"

definition pit_selftest :: bool where
  "pit_selftest = (pit_divisor_for_hz 0 = PIT_BASE_HZ div PIT_DEFAULT_HZ mod 65536 \<and>
     pit_divisor_for_hz (PIT_BASE_HZ + 1) = PIT_BASE_HZ div PIT_DEFAULT_HZ mod 65536 \<and>
     pit_divisor_for_hz PIT_BASE_HZ = 1 \<and> pit_divisor_for_hz 1 = PIT_MAX_DIVISOR)"

section \<open>Interrupt controller\<close>

definition PIC1_COMMAND :: nat where "PIC1_COMMAND = 0x20"
definition PIC1_DATA :: nat where "PIC1_DATA = 0x21"
definition PIC2_COMMAND :: nat where "PIC2_COMMAND = 0xa0"
definition PIC2_DATA :: nat where "PIC2_DATA = 0xa1"
definition PIC_EOI :: u8 where "PIC_EOI = 0x20"
definition PIC_READ_ISR :: u8 where "PIC_READ_ISR = 0x0b"

definition pic_remap :: "ports \<Rightarrow> u8 \<Rightarrow> u8 \<Rightarrow> pio list \<Rightarrow> pio list" where
  "pic_remap io offset1 offset2 t =
     (let (a1, t) = inb io PIC1_DATA t;
          (a2, t) = inb io PIC2_DATA t;
          t = io_wait (outb PIC1_COMMAND 0x11 t);
          t = io_wait (outb PIC2_COMMAND 0x11 t);
          t = io_wait (outb PIC1_DATA offset1 t);
          t = io_wait (outb PIC2_DATA offset2 t);
          t = io_wait (outb PIC1_DATA 4 t);
          t = io_wait (outb PIC2_DATA 2 t);
          t = io_wait (outb PIC1_DATA 0x01 t);
          t = io_wait (outb PIC2_DATA 0x01 t);
          t = outb PIC1_DATA a1 t
      in outb PIC2_DATA a2 t)"

text \<open>The two reads of the result are unordered in C; the left one comes first here.\<close>

definition pic_get_isr :: "ports \<Rightarrow> pio list \<Rightarrow> u16 \<times> pio list" where
  "pic_get_isr io t =
     (let t = outb PIC1_COMMAND PIC_READ_ISR t;
          t = outb PIC2_COMMAND PIC_READ_ISR t;
          (b2, t) = inb io PIC2_COMMAND t;
          (b1, t) = inb io PIC1_COMMAND t
      in (push_bit 8 (ucast b2) OR ucast b1, t))"

definition pic_is_spurious_irq :: "ports \<Rightarrow> nat \<Rightarrow> pio list \<Rightarrow> bool \<times> pio list" where
  "pic_is_spurious_irq io irq t =
     (if irq \<noteq> 7 \<and> irq \<noteq> 15 then (False, t)
      else let (isr, t) = pic_get_isr io t;
               spurious = (isr AND push_bit irq 1 = 0)
           in (spurious, if spurious \<and> irq = 15 then outb PIC1_COMMAND PIC_EOI t else t))"

definition pic_send_eoi :: "nat \<Rightarrow> pio list \<Rightarrow> pio list" where
  "pic_send_eoi irq t =
     (if irq \<ge> 16 then t
      else let t = (if irq \<ge> 8 then outb PIC2_COMMAND PIC_EOI t else t) in outb PIC1_COMMAND PIC_EOI t)"

definition pic_set_mask :: "ports \<Rightarrow> nat \<Rightarrow> pio list \<Rightarrow> pio list" where
  "pic_set_mask io irq t =
     (if irq \<ge> 16 then t
      else let port = (if irq < 8 then PIC1_DATA else PIC2_DATA);
               irq = (if irq \<ge> 8 then irq - 8 else irq);
               (v, t) = inb io port t
           in outb port (v OR push_bit irq 1) t)"

definition pic_clear_mask :: "ports \<Rightarrow> nat \<Rightarrow> pio list \<Rightarrow> pio list" where
  "pic_clear_mask io irq t =
     (if irq \<ge> 16 then t
      else let port = (if irq < 8 then PIC1_DATA else PIC2_DATA);
               irq = (if irq \<ge> 8 then irq - 8 else irq);
               (v, t) = inb io port t
           in outb port (v AND NOT (push_bit irq 1)) t)"

section \<open>Event timer\<close>

text \<open>
  The hardware beside the processor: memory-mapped 64-bit registers, the tick counter that the
  timer interrupt advances, the time-stamp counter, the interrupt flag, and waiting for an interrupt.
\<close>

record 'e hw =
  hw_rd64 :: "nat \<Rightarrow> 'e \<Rightarrow> u64 \<times> 'e"
  hw_wr64 :: "nat \<Rightarrow> u64 \<Rightarrow> 'e \<Rightarrow> 'e"
  hw_ticks :: "'e \<Rightarrow> nat \<times> 'e"
  hw_tsc :: "'e \<Rightarrow> nat \<times> 'e"
  hw_irq :: "'e \<Rightarrow> bool"
  hw_wait :: "'e \<Rightarrow> 'e"
  hw_invariant_tsc :: bool

definition MMIO_IDENTITY_ACCESS_LIMIT :: nat where "MMIO_IDENTITY_ACCESS_LIMIT = 0x0000800000000000"
definition HPET_GCAP_ID :: nat where "HPET_GCAP_ID = 0x000"
definition HPET_GEN_CONF :: nat where "HPET_GEN_CONF = 0x010"
definition HPET_MAIN_COUNTER :: nat where "HPET_MAIN_COUNTER = 0x0f0"

record hpet_info_t =
  hp_present :: bool
  hp_enabled :: bool
  hp_base :: nat
  hp_period_fs :: nat
  hp_counter_bits :: nat
  hp_comparator_count :: nat
  hp_frequency_hz :: nat

definition zero_hpet :: hpet_info_t where
  "zero_hpet = \<lparr>hp_present = False, hp_enabled = False, hp_base = 0, hp_period_fs = 0, hp_counter_bits = 0, hp_comparator_count = 0, hp_frequency_hz = 0\<rparr>"

record hpet_t =
  hpet_info :: hpet_info_t
  hpet_mmio :: nat

definition hpet_read64 :: "'e hw \<Rightarrow> hpet_t \<Rightarrow> nat \<Rightarrow> 'e \<Rightarrow> u64 \<times> 'e" where
  "hpet_read64 hw h off e = hw_rd64 hw (hpet_mmio h + off) e"

definition hpet_write64 :: "'e hw \<Rightarrow> hpet_t \<Rightarrow> nat \<Rightarrow> u64 \<Rightarrow> 'e \<Rightarrow> 'e" where
  "hpet_write64 hw h off v e = hw_wr64 hw (hpet_mmio h + off) v e"

definition hpet_read_counter_raw :: "'e hw \<Rightarrow> hpet_t \<Rightarrow> 'e \<Rightarrow> nat \<times> 'e" where
  "hpet_read_counter_raw hw h e =
     (if \<not> hp_enabled (hpet_info h) \<or> hpet_mmio h = 0 then (0, e)
      else let (c, e) = hpet_read64 hw h HPET_MAIN_COUNTER e in
        (if hp_counter_bits (hpet_info h) = 32 then unat c mod 0x100000000 else unat c, e))"

definition hpet_map_mmio :: "'v vmm \<Rightarrow> nat \<Rightarrow> nat \<Rightarrow> 'v \<Rightarrow> bool \<times> 'v" where
  "hpet_map_mmio vm base sz v =
     (if base = 0 \<or> sz = 0 \<or> base \<ge> MMIO_IDENTITY_ACCESS_LIMIT then (False, v)
      else case add_overflow base sz of None \<Rightarrow> (False, v) | Some raw_end \<Rightarrow>
        if raw_end > MMIO_IDENTITY_ACCESS_LIMIT then (False, v)
        else (let start = unat (RABBITBONE_ALIGN_DOWN (of_nat base) (of_nat PAGE_SIZE)) in
          case rabbitbone_align_up_u64_checked (of_nat raw_end) (of_nat PAGE_SIZE) of None \<Rightarrow> (False, v)
          | Some e \<Rightarrow> if unat e > MMIO_IDENTITY_ACCESS_LIMIT then (False, v) else page_loop vm (unat e) start v))"

text \<open>
  \<^verbatim>\<open>~HPET_CONF_ENABLE\<close> is the complement of a 32-bit constant, so the mask also clears the upper half of the
  configuration.
\<close>

definition hpet_init :: "'e hw \<Rightarrow> 'v vmm \<Rightarrow> acpi_info_t \<Rightarrow> 'v \<Rightarrow> 'e \<Rightarrow> hpet_t \<times> 'v \<times> 'e \<times> klog_call list" where
  "hpet_init hw vm ai v e =
     (let none = \<lparr>hpet_info = zero_hpet, hpet_mmio = 0\<rparr> in
      if \<not> hpet_found ai \<or> hpet_address ai = 0 then
        (none, v, e, [(LOG_INFO, cbytes ''hpet'', cbytes ''not advertised by ACPI; PIT fallback remains active'', [])])
      else let base = hpet_address ai; (ok, v) = hpet_map_mmio vm base 0x400 v in
        if \<not> ok then
          (none, v, e, [(LOG_WARN, cbytes ''hpet'', cbytes ''invalid or unmappable base=%p; PIT fallback remains active'', [VNum (of_nat base)])])
        else let h = \<lparr>hpet_info = zero_hpet\<lparr>hp_present := True, hp_base := base\<rparr>, hpet_mmio = base\<rparr>;
                 (cap, e) = hpet_read64 hw h HPET_GCAP_ID e;
                 period = unat (drop_bit 32 cap);
                 bits = (if cap AND push_bit 13 1 \<noteq> 0 then 64 else 32);
                 cmps = unat (drop_bit 8 cap AND 0x1f) + 1
          in if period = 0 \<or> period > 100000000 then
               (none, v, e, [(LOG_WARN, cbytes ''hpet'', cbytes ''invalid period=%u fs; disabling'', [VNum (of_nat period)])])
             else let freq = 1000000000000000 div period;
                      (conf, e) = hpet_read64 hw h HPET_GEN_CONF e;
                      e = hpet_write64 hw h HPET_GEN_CONF (conf AND 0xfffffffe) e;
                      e = hpet_write64 hw h HPET_MAIN_COUNTER 0 e;
                      e = hpet_write64 hw h HPET_GEN_CONF ((conf OR 1) AND NOT 2) e;
                      h = h\<lparr>hpet_info := \<lparr>hp_present = True, hp_enabled = True, hp_base = base, hp_period_fs = period, hp_counter_bits = bits,
                              hp_comparator_count = cmps, hp_frequency_hz = freq\<rparr>\<rparr>
               in (h, v, e, [(LOG_INFO, cbytes ''hpet'', cbytes ''enabled base=%p period=%u fs freq=%llu Hz bits=%u comparators=%u'',
                     [VNum (of_nat base), VNum (of_nat period), VNum (of_nat freq), VNum (of_nat bits), VNum (of_nat cmps)])]))"

definition hpet_get_info :: "hpet_t \<Rightarrow> hpet_info_t" where
  "hpet_get_info h = hpet_info h"

text \<open>The time, or nothing.\<close>

definition hpet_now_ns :: "'e hw \<Rightarrow> hpet_t \<Rightarrow> 'e \<Rightarrow> nat option \<times> 'e" where
  "hpet_now_ns hw h e =
     (if \<not> hp_enabled (hpet_info h) \<or> hp_period_fs (hpet_info h) = 0 then (None, e)
      else let (counter, e) = hpet_read_counter_raw hw h e;
               ns = rabbitbone_u64_mul_div_saturating counter (hp_period_fs (hpet_info h)) 1000000
           in (if ns = U64_MAX then None else Some ns, e))"

definition hpet_format_status :: "'e hw \<Rightarrow> hpet_t \<Rightarrow> 'e \<Rightarrow> bytes option \<Rightarrow> nat \<Rightarrow> (bytes option \<times> 'e) option" where
  "hpet_format_status hw h e out out_len =
     (if out = None \<or> out_len = 0 then Some (out, e)
      else do {
        bo \<leftarrow> rabbitbone_buf_init (Some \<lparr>bo_buf = None, bo_cap = 0, bo_used = 0\<rparr>) out out_len;
        let (now, e) = hpet_now_ns hw h e;
        let hi = hpet_info h;
        bo \<leftarrow> rabbitbone_buf_vappendf bo (Some (cbytes ''hpet: present=%u enabled=%u base=%p period_fs=%u freq_hz=%llu bits=%u comparators=%u\<newline>''))
          [bool_arg (hp_present hi), bool_arg (hp_enabled hi), VNum (of_nat (hp_base hi)), VNum (of_nat (hp_period_fs hi)), VNum (of_nat (hp_frequency_hz hi)),
           VNum (of_nat (hp_counter_bits hi)), VNum (of_nat (hp_comparator_count hi))];
        bo \<leftarrow> rabbitbone_buf_vappendf bo (Some (cbytes ''  now_ns=%llu valid=%u\<newline>''))
          [VNum (case now of None \<Rightarrow> 0 | Some n \<Rightarrow> of_nat n), bool_arg (now \<noteq> None)];
        b \<leftarrow> bo;
        Some (bo_buf b, e) })"

definition hpet_selftest :: "'e hw \<Rightarrow> hpet_t \<Rightarrow> 'e \<Rightarrow> bool \<times> 'e" where
  "hpet_selftest hw h e = (let hi = hpet_info h in
     if \<not> hp_present hi then (True, e)
     else if \<not> hp_enabled hi \<or> hp_period_fs hi = 0 \<or> hp_frequency_hz hi = 0 then (False, e)
     else let (a, e) = hpet_read_counter_raw hw h e; (b, e) = hpet_read_counter_raw hw h e in (b \<ge> a, e))"

section \<open>The clock\<close>

definition RABBITBONE_PIT_HZ :: nat where "RABBITBONE_PIT_HZ = 100"
definition TIMER_HPET_CALIBRATION_NS :: nat where "TIMER_HPET_CALIBRATION_NS = 2000000"
definition TIMER_HPET_CALIBRATION_SPIN_LIMIT :: nat where "TIMER_HPET_CALIBRATION_SPIN_LIMIT = 1000000"
definition TIMER_PIT_TSC_CALIBRATION_TICKS :: nat where "TIMER_PIT_TSC_CALIBRATION_TICKS = 4"
definition TIMER_PIT_TSC_SPIN_LIMIT :: nat where "TIMER_PIT_TSC_SPIN_LIMIT = 50000000"

record timer_info_t =
  pit_active :: bool
  hpet_active :: bool
  tsc_supported :: bool
  tsc_calibrated :: bool
  pit_hz :: nat
  tsc_hz :: nat
  monotonic_ns :: nat
  clocksource :: "bytes option"

record timer_t =
  timer_info_state :: timer_info_t
  tsc_base :: nat
  ns_base :: nat

definition timer_irq_enabled :: "'e hw \<Rightarrow> 'e \<Rightarrow> bool" where
  "timer_irq_enabled hw e = hw_irq hw e"

text \<open>The new tick, if it changed within the limit.\<close>

fun timer_wait_for_pit_tick_change :: "'e hw \<Rightarrow> nat \<Rightarrow> nat \<Rightarrow> 'e \<Rightarrow> nat option \<times> 'e" where
  "timer_wait_for_pit_tick_change hw initial 0 e = (None, e)"
| "timer_wait_for_pit_tick_change hw initial (Suc spin) e =
     (let (now, e) = hw_ticks hw e in
      if now \<noteq> initial then (Some now, e) else timer_wait_for_pit_tick_change hw initial spin e)"

fun wait_target :: "'e hw \<Rightarrow> nat \<Rightarrow> nat \<Rightarrow> 'e \<Rightarrow> 'e" where
  "wait_target hw target 0 e = e"
| "wait_target hw target (Suc spin) e = (let (now, e) = hw_ticks hw e in if now \<ge> target then e else wait_target hw target spin e)"

definition timer_calibrate_tsc_from_pit :: "'e hw \<Rightarrow> timer_t \<Rightarrow> 'e \<Rightarrow> bool \<times> timer_t \<times> 'e" where
  "timer_calibrate_tsc_from_pit hw s e = (let ti = timer_info_state s in
     if \<not> tsc_supported ti \<or> \<not> pit_active ti \<or> \<not> timer_irq_enabled hw e then (False, s, e)
     else let (tick0, e) = hw_ticks hw e; (start, e) = timer_wait_for_pit_tick_change hw tick0 TIMER_PIT_TSC_SPIN_LIMIT e in
       case start of None \<Rightarrow> (False, s, e)
       | Some start_tick \<Rightarrow>
           (let (tsc_a, e) = hw_tsc hw e;
                target = add64 start_tick TIMER_PIT_TSC_CALIBRATION_TICKS;
                e = wait_target hw target TIMER_PIT_TSC_SPIN_LIMIT e;
                (end_tick, e) = hw_ticks hw e;
                (tsc_b, e) = hw_tsc hw e
            in if end_tick \<le> start_tick \<or> tsc_b \<le> tsc_a then (False, s, e)
               else let hz = rabbitbone_u64_mul_div_saturating (tsc_b - tsc_a) (pit_hz ti) (end_tick - start_tick) in
                 if hz = 0 \<or> hz = U64_MAX then (False, s, e)
                 else let ti = ti\<lparr>tsc_hz := hz, tsc_calibrated := True, clocksource := Some (cbytes ''tsc-pit'')\<rparr>;
                          (base, e) = hw_tsc hw e;
                          (tick, e) = hw_ticks hw e
                      in (True, \<lparr>timer_info_state = ti, tsc_base = base, ns_base = mul64 tick (1000000000 div RABBITBONE_PIT_HZ)\<rparr>, e)))"

text \<open>The last event timer value read (0 if none), and whether it advanced far enough.\<close>

fun hpet_spin :: "'e hw \<Rightarrow> hpet_t \<Rightarrow> nat \<Rightarrow> nat \<Rightarrow> nat \<Rightarrow> 'e \<Rightarrow> nat \<times> bool \<times> 'e" where
  "hpet_spin hw h hpet_a hpet_b 0 e = (hpet_b, False, e)"
| "hpet_spin hw h hpet_a hpet_b (Suc spin) e =
     (let (r, e) = hpet_now_ns hw h e in
      case r of None \<Rightarrow> (hpet_b, False, e)
      | Some hpet_b \<Rightarrow>
          if hpet_b \<ge> hpet_a \<and> hpet_b - hpet_a \<ge> TIMER_HPET_CALIBRATION_NS then (hpet_b, True, e)
          else hpet_spin hw h hpet_a hpet_b spin e)"

text \<open>The calibration against the event timer.\<close>

definition calibrate_hpet :: "'e hw \<Rightarrow> hpet_t \<Rightarrow> timer_t \<Rightarrow> 'e \<Rightarrow> timer_t \<times> 'e" where
  "calibrate_hpet hw h s e =
     (let (r, e) = hpet_now_ns hw h e in
      case r of None \<Rightarrow> (s, e)
      | Some hpet_a \<Rightarrow>
          (let (tsc_a, e) = hw_tsc hw e;
               (hpet_b, advanced, e) = hpet_spin hw h hpet_a 0 TIMER_HPET_CALIBRATION_SPIN_LIMIT e;
               (tsc_b, e) = hw_tsc hw e
           in if advanced \<and> hpet_b \<ge> hpet_a then
                (let ns_delta = hpet_b - hpet_a in
                 if tsc_b > tsc_a \<and> ns_delta \<noteq> 0 then
                   (let hz = rabbitbone_u64_mul_div_saturating (tsc_b - tsc_a) 1000000000 ns_delta;
                        s = s\<lparr>timer_info_state := (timer_info_state s)\<lparr>tsc_hz := hz\<rparr>\<rparr>
                    in if hz \<noteq> 0 \<and> hz \<noteq> U64_MAX then
                         (let s = s\<lparr>timer_info_state := (timer_info_state s)\<lparr>tsc_calibrated := True, clocksource := Some (cbytes ''tsc'')\<rparr>\<rparr>;
                              (base, e) = hw_tsc hw e;
                              (nb, e) = hpet_now_ns hw h e
                          in (s\<lparr>tsc_base := base, ns_base := (case nb of None \<Rightarrow> hpet_b | Some n \<Rightarrow> n)\<rparr>, e))
                       else (s, e))
                 else (s, e))
              else (s, e)))"

definition timer_init_sources :: "'e hw \<Rightarrow> hpet_t \<Rightarrow> timer_t \<Rightarrow> 'e \<Rightarrow> timer_t \<times> 'e \<times> klog_call list" where
  "timer_init_sources hw h s e =
     (let active = hp_enabled (hpet_get_info h);
          s = s\<lparr>timer_info_state := \<lparr>pit_active = True, hpet_active = active, tsc_supported = hw_invariant_tsc hw, tsc_calibrated = False,
                 pit_hz = RABBITBONE_PIT_HZ, tsc_hz = 0, monotonic_ns = 0, clocksource = Some (cbytes (if active then ''hpet'' else ''pit''))\<rparr>\<rparr>;
          (s, e) = (if active \<and> hw_invariant_tsc hw then calibrate_hpet hw h s e else (s, e));
          (s, e) = (if \<not> tsc_calibrated (timer_info_state s) then snd (timer_calibrate_tsc_from_pit hw s e) else (s, e));
          ti = timer_info_state s
      in (s, e, [(LOG_INFO, cbytes ''timer'', cbytes ''clocksource=%s pit=%u hpet=%u tsc_supported=%u tsc_hz=%llu'',
            [VStr (clocksource ti), bool_arg (pit_active ti), bool_arg (hpet_active ti), bool_arg (tsc_supported ti), VNum (of_nat (tsc_hz ti))])]))"

definition timer_now_ns :: "'e hw \<Rightarrow> hpet_t \<Rightarrow> timer_t \<Rightarrow> 'e \<Rightarrow> nat \<times> 'e" where
  "timer_now_ns hw h s e =
     (if tsc_calibrated (timer_info_state s) \<and> tsc_hz (timer_info_state s) \<noteq> 0 then
        (let (now, e) = hw_tsc hw e;
             delta = (if now \<ge> tsc_base s then now - tsc_base s else 0);
             ns_delta = rabbitbone_u64_mul_div_saturating delta 1000000000 (tsc_hz (timer_info_state s))
         in (rabbitbone_u64_add_saturating (ns_base s) ns_delta, e))
      else let (r, e) = hpet_now_ns hw h e in
        case r of Some hpet_ns \<Rightarrow> (hpet_ns, e)
        | None \<Rightarrow> (let (tick, e) = hw_ticks hw e in (mul64 tick (1000000000 div RABBITBONE_PIT_HZ), e)))"

definition timer_get_info :: "'e hw \<Rightarrow> hpet_t \<Rightarrow> timer_t \<Rightarrow> 'e \<Rightarrow> timer_info_t \<times> 'e" where
  "timer_get_info hw h s e = (let (now, e) = timer_now_ns hw h s e in ((timer_info_state s)\<lparr>monotonic_ns := now\<rparr>, e))"

definition timer_format_status :: "'e hw \<Rightarrow> hpet_t \<Rightarrow> timer_t \<Rightarrow> 'e \<Rightarrow> bytes option \<Rightarrow> nat \<Rightarrow> (bytes option \<times> 'e) option" where
  "timer_format_status hw h s e out out_len =
     (if out = None \<or> out_len = 0 then Some (out, e)
      else do {
        bo \<leftarrow> rabbitbone_buf_init (Some \<lparr>bo_buf = None, bo_cap = 0, bo_used = 0\<rparr>) out out_len;
        let (ti, e) = timer_get_info hw h s e;
        bo \<leftarrow> rabbitbone_buf_vappendf bo
          (Some (cbytes ''timer: clocksource=%s now_ns=%llu pit=%u pit_hz=%llu hpet=%u tsc_supported=%u tsc_calibrated=%u tsc_hz=%llu\<newline>''))
          [VStr (case clocksource ti of None \<Rightarrow> Some (cbytes ''unknown'') | c \<Rightarrow> c), VNum (of_nat (monotonic_ns ti)), bool_arg (pit_active ti),
           VNum (of_nat (pit_hz ti)), bool_arg (hpet_active ti), bool_arg (tsc_supported ti), bool_arg (tsc_calibrated ti), VNum (of_nat (tsc_hz ti))];
        b \<leftarrow> bo;
        Some (bo_buf b, e) })"

text \<open>Sleeping; \<open>None\<close> is not returning: the panic, or ticks that never advance far enough.\<close>

partial_function (option) sleep_loop :: "'e hw \<Rightarrow> nat \<Rightarrow> nat \<Rightarrow> 'e \<Rightarrow> 'e option" where
  "sleep_loop hw start delta e =
     (case hw_ticks hw e of (now, e) \<Rightarrow> if sub64 now start < delta then sleep_loop hw start delta (hw_wait hw e) else Some e)"

definition timer_sleep_ticks :: "'e hw \<Rightarrow> nat \<Rightarrow> 'e \<Rightarrow> 'e option" where
  "timer_sleep_ticks hw delta e =
     (if delta \<noteq> 0 \<and> \<not> hw_irq hw e then None
      else case hw_ticks hw e of (start, e) \<Rightarrow> sleep_loop hw start delta e)"

definition timer_selftest :: "'e hw \<Rightarrow> hpet_t \<Rightarrow> timer_t \<Rightarrow> 'e \<Rightarrow> (bool \<times> 'e) option" where
  "timer_selftest hw h s e =
     (if \<not> hw_irq hw e then Some (False, e)
      else do {
        let (before, e) = hw_ticks hw e;
        let (ns_before, e) = timer_now_ns hw h s e;
        e \<leftarrow> timer_sleep_ticks hw 2 e;
        let (after, e) = hw_ticks hw e;
        let (ns_after, e) = timer_now_ns hw h s e;
        Some (sub64 after before \<ge> 2 \<and> ns_after \<ge> ns_before, e) })"

section \<open>Programming the timer and the controller\<close>

lemma pit_divisor_range:
  "1 \<le> pit_divisor_for_hz hz \<and> pit_divisor_for_hz hz \<le> PIT_MAX_DIVISOR \<and>
   (19 \<le> hz \<and> hz \<le> PIT_BASE_HZ \<longrightarrow> pit_divisor_for_hz hz = PIT_BASE_HZ div hz)"
proof -
  have "PIT_BASE_HZ div hz \<le> PIT_BASE_HZ div 19" if "19 \<le> hz" using that by (intro div_le_mono2) auto
  moreover have "0 < PIT_BASE_HZ div hz" if "0 < hz" "hz \<le> PIT_BASE_HZ" using that by (simp add: div_greater_zero_iff)
  ultimately show ?thesis by (auto simp: pit_divisor_for_hz_def Let_def PIT_BASE_HZ_def PIT_MAX_DIVISOR_def PIT_DEFAULT_HZ_def)
qed

lemma pit_selftest_passes: "pit_selftest"
  by (simp add: pit_selftest_def pit_divisor_for_hz_def PIT_BASE_HZ_def PIT_MAX_DIVISOR_def PIT_DEFAULT_HZ_def)

text \<open>Masking writes the mask register of the line's controller with exactly the bit of the line changed.\<close>

lemma pic_mask_bit:
  assumes "irq < 16"
  defines "port \<equiv> if irq < 8 then PIC1_DATA else PIC2_DATA"
  shows "\<exists>v. pic_set_mask io irq t = t @ [In8 port, Out8 port v] \<and> (\<forall>n < 8. bit v n \<longleftrightarrow> n = irq mod 8 \<or> bit (port8 io t port) n)"
    and "\<exists>v. pic_clear_mask io irq t = t @ [In8 port, Out8 port v] \<and> (\<forall>n < 8. bit v n \<longleftrightarrow> n \<noteq> irq mod 8 \<and> bit (port8 io t port) n)"
proof -
  have m: "(if 8 \<le> irq then irq - 8 else irq) = irq mod 8" using assms(1) by (auto simp: le_mod_geq)
  have b: "bit (push_bit k (1::u8)) n \<longleftrightarrow> n = k" if "n < 8" for k n :: nat using that by (auto simp: bit_exp_iff)
  show "\<exists>v. pic_set_mask io irq t = t @ [In8 port, Out8 port v] \<and> (\<forall>n < 8. bit v n \<longleftrightarrow> n = irq mod 8 \<or> bit (port8 io t port) n)"
    using assms(1) b m by (intro exI [of _ "port8 io t port OR push_bit (irq mod 8) 1"])
      (simp add: pic_set_mask_def port_def inb_def outb_def Let_def bit_or_iff, blast)
  show "\<exists>v. pic_clear_mask io irq t = t @ [In8 port, Out8 port v] \<and> (\<forall>n < 8. bit v n \<longleftrightarrow> n \<noteq> irq mod 8 \<and> bit (port8 io t port) n)"
    using assms(1) b m by (intro exI [of _ "port8 io t port AND NOT (push_bit (irq mod 8) 1)"])
      (simp add: pic_clear_mask_def port_def inb_def outb_def Let_def bit_and_iff bit_not_iff, blast)
qed

section \<open>Reading the clock\<close>

lemma now_ns_tsc:
  assumes "tsc_calibrated (timer_info_state s)" "tsc_hz (timer_info_state s) \<noteq> 0" "tsc_hz (timer_info_state s) \<le> U64_MAX"
    and n: "hw_tsc hw e = (n, e')" "n \<le> U64_MAX"
  shows "timer_now_ns hw h s e = (min U64_MAX (ns_base s + min U64_MAX ((n - tsc_base s) * 1000000000 div tsc_hz (timer_info_state s))), e')"
proof -
  have d: "n - tsc_base s \<le> U64_MAX" using n(2) by simp
  then have "rabbitbone_u64_mul_div_saturating (n - tsc_base s) 1000000000 (tsc_hz (timer_info_state s)) =
      min U64_MAX ((n - tsc_base s) * 1000000000 div tsc_hz (timer_info_state s))"
    using mul_div_saturating_spec [OF d _ assms(3), of 1000000000] assms(2) by (simp add: min.commute)
  moreover have "(if n \<ge> tsc_base s then n - tsc_base s else 0) = n - tsc_base s" by simp
  moreover have "rabbitbone_u64_add_saturating a b = min U64_MAX (a + b)" for a b
    by (simp add: rabbitbone_u64_add_saturating_def add_overflow_def)
  ultimately show ?thesis using assms(1,2) n(1) by (simp add: timer_now_ns_def Let_def)
qed

lemma counter_raw:
  assumes "hp_enabled (hpet_info h)" "hpet_mmio h \<noteq> 0" "hp_counter_bits (hpet_info h) = 32"
    and "hw_rd64 hw (hpet_mmio h + HPET_MAIN_COUNTER) e = (c, e')"
  shows "hpet_read_counter_raw hw h e = (unat c mod 0x100000000, e')"
  using assms by (simp add: hpet_read_counter_raw_def hpet_read64_def)

lemma hpet_now_ns_32:
  assumes h: "hp_enabled (hpet_info h)" "hpet_mmio h \<noteq> 0" "hp_counter_bits (hpet_info h) = 32"
    and p: "0 < hp_period_fs (hpet_info h)" "hp_period_fs (hpet_info h) \<le> 100000000"
    and c: "hw_rd64 hw (hpet_mmio h + HPET_MAIN_COUNTER) e = (c, e')"
  shows "hpet_now_ns hw h e = (Some (unat c mod 0x100000000 * hp_period_fs (hpet_info h) div 1000000), e')"
proof -
  let ?n = "unat c mod 0x100000000" and ?p = "hp_period_fs (hpet_info h)"
  have n: "?n < 0x100000000" by simp
  have "?n * ?p \<le> 0xffffffff * 100000000" using n p(2) by (intro mult_le_mono) linarith+
  then have "?n * ?p div 1000000 \<le> 0xffffffff * 100000000 div 1000000" by (rule div_le_mono)
  then have "?n * ?p div 1000000 < U64_MAX" by simp
  moreover have "rabbitbone_u64_mul_div_saturating ?n ?p 1000000 = min (?n * ?p div 1000000) U64_MAX"
    using mul_div_saturating_spec [of ?n ?p 1000000] n p(2) by simp
  ultimately show ?thesis using h(1) p(1) counter_raw [OF h c] by (simp add: hpet_now_ns_def Let_def min_def)
qed

section \<open>Calibration\<close>

definition timer_ok :: "timer_t \<Rightarrow> bool" where
  "timer_ok s = (let ti = timer_info_state s in
     (tsc_calibrated ti \<longrightarrow> tsc_supported ti \<and> tsc_hz ti \<noteq> 0 \<and> tsc_hz ti \<noteq> U64_MAX \<and> clocksource ti \<in> {Some (cbytes ''tsc''), Some (cbytes ''tsc-pit'')}) \<and>
     (\<not> tsc_calibrated ti \<longrightarrow> clocksource ti = Some (cbytes (if hpet_active ti then ''hpet'' else ''pit''))))"

lemma calibrate_hpet_ok:
  "timer_ok s \<Longrightarrow> \<not> tsc_calibrated (timer_info_state s) \<Longrightarrow> tsc_supported (timer_info_state s) \<Longrightarrow> timer_ok (fst (calibrate_hpet hw h s e))"
  by (auto simp: calibrate_hpet_def timer_ok_def Let_def split: prod.splits option.splits)

lemma calibrate_pit_ok:
  "timer_ok s \<Longrightarrow> timer_ok (fst (snd (timer_calibrate_tsc_from_pit hw s e)))"
  by (auto simp: timer_calibrate_tsc_from_pit_def timer_ok_def Let_def split: prod.splits option.splits)

lemma timer_init_ok: "timer_ok (fst (timer_init_sources hw h s e))"
proof -
  define s0 where "s0 = s\<lparr>timer_info_state := \<lparr>pit_active = True, hpet_active = hp_enabled (hpet_get_info h), tsc_supported = hw_invariant_tsc hw,
      tsc_calibrated = False, pit_hz = RABBITBONE_PIT_HZ, tsc_hz = 0, monotonic_ns = 0,
      clocksource = Some (cbytes (if hp_enabled (hpet_get_info h) then ''hpet'' else ''pit''))\<rparr>\<rparr>"
  define c1 where "c1 = (if hp_enabled (hpet_get_info h) \<and> hw_invariant_tsc hw then calibrate_hpet hw h s0 e else (s0, e))"
  define c2 where "c2 = (if \<not> tsc_calibrated (timer_info_state (fst c1)) then snd (timer_calibrate_tsc_from_pit hw (fst c1) (snd c1)) else c1)"
  have "timer_ok s0" "\<not> tsc_calibrated (timer_info_state s0)" "tsc_supported (timer_info_state s0) = hw_invariant_tsc hw"
    by (simp_all add: s0_def timer_ok_def)
  then have "timer_ok (fst c1)" using calibrate_hpet_ok [of s0 hw h e] by (auto simp: c1_def)
  then have "timer_ok (fst c2)" using calibrate_pit_ok [of "fst c1" hw "snd c1"] by (simp add: c2_def)
  moreover have "fst (timer_init_sources hw h s e) = fst c2"
    unfolding timer_init_sources_def c2_def c1_def s0_def [symmetric] Let_def by (simp add: case_prod_beta)
  ultimately show ?thesis by simp
qed

section \<open>Sleeping\<close>

lemma sub64_mod: "a \<le> x \<Longrightarrow> x - a \<le> U64_MAX \<Longrightarrow> sub64 (x mod (U64_MAX + 1)) (a mod (U64_MAX + 1)) = x - a"
proof -
  let ?M = "U64_MAX + 1"
  assume a: "a \<le> x" "x - a \<le> U64_MAX"
  define d where "d = x - a"
  have x: "x = a + d" using a(1) by (simp add: d_def)
  have lt: "a mod ?M < ?M" by (rule mod_less_divisor) simp
  have "(a + d + (?M - a mod ?M)) mod ?M = (a mod ?M + d + (?M - a mod ?M)) mod ?M"
    by (metis (no_types, lifting) mod_add_left_eq)
  also have "\<dots> = (d + ?M) mod ?M" using lt by (simp add: algebra_simps)
  also have "\<dots> = d" using a(2) d_def by simp
  finally have "(a + d + (?M - a mod ?M)) mod ?M = d" .
  then show "sub64 (x mod ?M) (a mod ?M) = x - a"
    unfolding sub64_def x by (simp only: mod_mod_trivial mod_add_left_eq add_diff_cancel_left')
qed

definition wait_step :: "'e hw \<Rightarrow> 'e \<Rightarrow> 'e" where
  "wait_step hw e = hw_wait hw (snd (hw_ticks hw e))"

text \<open>
  The tick counter follows a time \<open>T\<close>: reading does not take a tick, waiting for an interrupt takes at most one,
  and waiting again and again takes one eventually.
\<close>

definition ticking :: "'e hw \<Rightarrow> ('e \<Rightarrow> nat) \<Rightarrow> bool" where
  "ticking hw T = (\<forall>e. fst (hw_ticks hw e) = T e mod (U64_MAX + 1) \<and> T (snd (hw_ticks hw e)) = T e \<and>
     T e \<le> T (wait_step hw e) \<and> T (wait_step hw e) \<le> T e + 1 \<and> (\<exists>n. T e < T ((wait_step hw ^^ n) e)))"

lemma ticking_reaches: "ticking hw T \<Longrightarrow> \<exists>n. T e + d \<le> T ((wait_step hw ^^ n) e)"
proof (induction d arbitrary: e)
  case 0
  then show ?case by (intro exI [of _ 0]) simp
next
  case (Suc d)
  obtain n where n: "T e < T ((wait_step hw ^^ n) e)" using Suc.prems by (auto simp: ticking_def)
  obtain k where "T ((wait_step hw ^^ n) e) + d \<le> T ((wait_step hw ^^ k) ((wait_step hw ^^ n) e))" using Suc.IH [OF Suc.prems] by blast
  then show ?case using n by (intro exI [of _ "k + n"]) (simp add: funpow_add)
qed

lemma sleep_loop_returns:
  assumes "ticking hw T" "a \<le> T e" "T e \<le> a + delta" "delta \<le> U64_MAX" "a + delta \<le> T ((wait_step hw ^^ n) e)"
  shows "\<exists>e'. sleep_loop hw (a mod (U64_MAX + 1)) delta e = Some e' \<and> T e' = a + delta"
  using assms(2-5)
proof (induction n arbitrary: e)
  case 0
  then have t: "T e = a + delta" by simp
  obtain e1 where e1: "hw_ticks hw e = (T e mod (U64_MAX + 1), e1)" "T e1 = T e"
    using assms(1) by (metis ticking_def prod.collapse)
  have "sub64 (T e mod (U64_MAX + 1)) (a mod (U64_MAX + 1)) = delta" using sub64_mod [of a "T e"] t 0(3) by simp
  then show ?case using e1 t by (subst sleep_loop.simps) (simp del: add_is_1)
next
  case (Suc n)
  obtain e1 where e1: "hw_ticks hw e = (T e mod (U64_MAX + 1), e1)" "T e1 = T e"
    using assms(1) by (metis ticking_def prod.collapse)
  have sub: "sub64 (T e mod (U64_MAX + 1)) (a mod (U64_MAX + 1)) = T e - a" using sub64_mod [of a "T e"] Suc.prems by simp
  show ?case
  proof (cases "T e - a < delta")
    case True
    have w: "wait_step hw e = hw_wait hw e1" using e1 by (simp add: wait_step_def)
    have step: "T e \<le> T (wait_step hw e)" "T (wait_step hw e) \<le> T e + 1" using assms(1) by (auto simp: ticking_def)
    have "\<exists>e'. sleep_loop hw (a mod (U64_MAX + 1)) delta (wait_step hw e) = Some e' \<and> T e' = a + delta"
      by (rule Suc.IH) (use Suc.prems step True in \<open>auto simp: funpow_swap1\<close>)
    then show ?thesis using e1 sub True w by (subst sleep_loop.simps) simp
  next
    case False
    then have "T e = a + delta" using Suc.prems by simp
    then show ?thesis using e1 sub False by (subst sleep_loop.simps) simp
  qed
qed

section \<open>Properties\<close>

lemma timer_sleep_spec:
  assumes "ticking hw T" "delta \<le> U64_MAX" "delta \<noteq> 0 \<longrightarrow> hw_irq hw e"
  shows "\<exists>e'. timer_sleep_ticks hw delta e = Some e' \<and> T e' = T e + delta"
proof -
  obtain e1 where e1: "hw_ticks hw e = (T e mod (U64_MAX + 1), e1)" "T e1 = T e"
    using assms(1) by (metis ticking_def prod.collapse)
  obtain n where "T e + delta \<le> T ((wait_step hw ^^ n) e1)" using ticking_reaches [OF assms(1), of e1 delta] e1(2) by auto
  then obtain e' where "sleep_loop hw (T e mod (U64_MAX + 1)) delta e1 = Some e'" "T e' = T e + delta"
    using sleep_loop_returns [OF assms(1), of "T e" e1 delta n] e1(2) assms(2) by auto
  then show ?thesis using e1(1) assms(3) by (auto simp: timer_sleep_ticks_def)
qed

definition demo_hw :: "nat hw" where
  "demo_hw = \<lparr>hw_rd64 = (\<lambda>a e. (of_nat e, e)), hw_wr64 = (\<lambda>a v e. e), hw_ticks = (\<lambda>e. (e mod (U64_MAX + 1), e)), hw_tsc = (\<lambda>e. (e, e)),
     hw_irq = (\<lambda>e. True), hw_wait = Suc, hw_invariant_tsc = True\<rparr>"

definition demo_hpet :: hpet_t where
  "demo_hpet = \<lparr>hpet_info = \<lparr>hp_present = True, hp_enabled = True, hp_base = 0xfed00000, hp_period_fs = 69841279, hp_counter_bits = 32,
     hp_comparator_count = 3, hp_frequency_hz = 14318180\<rparr>, hpet_mmio = 0xfed00000\<rparr>"

definition demo_timer :: "bool \<Rightarrow> timer_t" where
  "demo_timer cal = \<lparr>timer_info_state = \<lparr>pit_active = True, hpet_active = True, tsc_supported = cal, tsc_calibrated = cal, pit_hz = 100,
     tsc_hz = (if cal then 3000000000 else 0), monotonic_ns = 0, clocksource = Some (cbytes ''tsc'')\<rparr>, tsc_base = 1000, ns_base = 50\<rparr>"

text \<open>C19:
  Initialisation always leaves a consistent clock, and the calibrated clock is exact and monotonic. Whatever the
  hardware answers, a calibrated time-stamp counter has a usable frequency and is only chosen when it is invariant,
  and otherwise the event timer or the interval timer is the source. Once calibrated, the time is the base plus the
  elapsed counts divided by the frequency, saturating, and does not decrease while the counter does not.
\<close>
theorem timer_calibrated_monotonic:
  assumes "tsc_calibrated (timer_info_state s)" "tsc_hz (timer_info_state s) \<noteq> 0" "tsc_hz (timer_info_state s) \<le> U64_MAX"
    and "hw_tsc hw e1 = (n1, f1)" "hw_tsc hw e2 = (n2, f2)" "n1 \<le> n2" "n2 \<le> U64_MAX"
  shows "timer_ok (fst (timer_init_sources hw h s0 e)) \<and>
    fst (timer_now_ns hw h s e1) = min U64_MAX (ns_base s + min U64_MAX ((n1 - tsc_base s) * 1000000000 div tsc_hz (timer_info_state s))) \<and>
    fst (timer_now_ns hw h s e1) \<le> fst (timer_now_ns hw h s e2)"
proof -
  let ?f = "\<lambda>n. (n - tsc_base s) * 1000000000 div tsc_hz (timer_info_state s)"
  have le: "?f n1 \<le> ?f n2" using assms(6) by (intro div_le_mono mult_le_mono) auto
  have n1: "n1 \<le> U64_MAX" using assms(6,7) by linarith
  have 1: "fst (timer_now_ns hw h s e1) = min U64_MAX (ns_base s + min U64_MAX (?f n1))"
    by (subst now_ns_tsc [OF assms(1-3,4) n1]) (rule fst_conv)
  have 2: "fst (timer_now_ns hw h s e2) = min U64_MAX (ns_base s + min U64_MAX (?f n2))"
    by (subst now_ns_tsc [OF assms(1-3,5,7)]) (rule fst_conv)
  have "min U64_MAX (ns_base s + min U64_MAX (?f n1)) \<le> min U64_MAX (ns_base s + min U64_MAX (?f n2))"
    using le by (intro min.mono order_refl add_left_mono)
  then show ?thesis using timer_init_ok 1 2 by simp
qed

theorem timer_calibrated_monotonic_witness:
  "fst (timer_now_ns demo_hw demo_hpet (demo_timer True) 4000) = 1050 \<and>
   fst (timer_now_ns demo_hw demo_hpet (demo_timer True) 4000) \<le> fst (timer_now_ns demo_hw demo_hpet (demo_timer True) 5000)"
  using timer_calibrated_monotonic [of "demo_timer True" demo_hw 4000 4000 4000 5000 5000 5000 demo_hpet "demo_timer False" 0]
  by (simp add: demo_timer_def demo_hw_def)

text \<open>C18:
  Sleeping returns. If the tick counter follows a time that a wait advances by at most one tick and eventually
  advances, then sleeping with interrupts enabled returns after exactly the requested ticks, across a
  wrap-around of the counter as well; sleeping for a positive time with interrupts disabled never returns.
\<close>
theorem timer_sleep_returns:
  assumes "ticking hw T" "delta \<le> U64_MAX"
  shows "(if delta \<noteq> 0 \<and> \<not> hw_irq hw e then timer_sleep_ticks hw delta e = None
    else \<exists>e'. timer_sleep_ticks hw delta e = Some e' \<and> T e' = T e + delta)"
proof (cases "delta \<noteq> 0 \<and> \<not> hw_irq hw e")
  case True
  then show ?thesis by (simp add: timer_sleep_ticks_def)
next
  case False
  then show ?thesis using timer_sleep_spec [OF assms, of e] by auto
qed

theorem timer_sleep_returns_witness: "\<exists>e'. timer_sleep_ticks demo_hw 5 7 = Some e' \<and> e' = 12"
proof -
  have "(wait_step demo_hw ^^ n) e = e + n" for n e by (induction n arbitrary: e) (simp_all add: wait_step_def demo_hw_def)
  then have "ticking demo_hw (\<lambda>e. e)" by (auto simp: ticking_def demo_hw_def wait_step_def intro: exI [of _ "Suc 0"])
  then show ?thesis using timer_sleep_returns [of demo_hw "\<lambda>e. e" 5 7] by (simp add: demo_hw_def)
qed



end
