(* ===== verification/Spec2Isabelle.thy ===== *)
theory Spec2Isabelle
  imports Kernel_Prelude Ringbuf Bitmap Libc_String Kernel_Math Printf Path Block Log Phys_Frames Elf64 Tty Task Net Clock
begin

text \<open>
  Verification of the rabbitbone kernel.
\<close>

end
